(* ===== verification/Prelude.thy ===== *)
theory Prelude
  imports Main "HOL-Library.Word" "HOL-Library.Char_ord" "HOL-Library.Monad_Syntax" "HOL-Library.Signed_Division"
begin

text \<open>
  Shared ground of the development: the C integer types the driver uses, truncating
  division, C strings, decimal rendering as \<^verbatim>\<open>printf\<close> does it, the ADBC status codes of
  \<^verbatim>\<open>include/arrow-adbc/adbc.h\<close> and the Arrow time units.  Everything here is used by at
  least two of the component theories.

  Conventions.  A C integer whose value can leave its type's range is an \<^typ>\<open>int\<close> with
  the conversion written out (\<open>u8\<close>, \<open>u16\<close>, \<open>u32\<close>, \<open>u64\<close>, \<open>s16\<close>, \<open>s32\<close>, \<open>s64\<close>); an
  index or a size is a \<^typ>\<open>nat\<close>.  A NUL-terminated string is the \<^typ>\<open>string\<close> of its bytes
  before the terminator, a (pointer, length) span the \<^typ>\<open>string\<close> of its bytes.
\<close>

named_theorems c_arith \<open>reading C arithmetic back as integer arithmetic\<close>
named_theorems scan_simps \<open>characteristic equations of the text scanners\<close>

subsection \<open>Fixed-width integers\<close>

definition u8 :: "int \<Rightarrow> int" where "u8 x = x mod 2 ^ 8"
definition u16 :: "int \<Rightarrow> int" where "u16 x = x mod 2 ^ 16"
definition u32 :: "int \<Rightarrow> int" where "u32 x = x mod 2 ^ 32"
definition u64 :: "int \<Rightarrow> int" where "u64 x = x mod 2 ^ 64"

text \<open>Conversion to a signed type of \<open>w\<close> bits, as every compiler the driver builds with does it.\<close>

definition swrap :: "nat \<Rightarrow> int \<Rightarrow> int" where
  "swrap w x = (x + 2 ^ (w - 1)) mod 2 ^ w - 2 ^ (w - 1)"

definition s16 :: "int \<Rightarrow> int" where "s16 x = swrap 16 x"
definition s32 :: "int \<Rightarrow> int" where "s32 x = swrap 32 x"
definition s64 :: "int \<Rightarrow> int" where "s64 x = swrap 64 x"

abbreviation INT16_MIN :: int where "INT16_MIN \<equiv> - 32768"
abbreviation INT16_MAX :: int where "INT16_MAX \<equiv> 32767"
abbreviation INT32_MIN :: int where "INT32_MIN \<equiv> - 2147483648"
abbreviation INT32_MAX :: int where "INT32_MAX \<equiv> 2147483647"
abbreviation INT64_MIN :: int where "INT64_MIN \<equiv> - 9223372036854775808"
abbreviation INT64_MAX :: int where "INT64_MAX \<equiv> 9223372036854775807"
abbreviation UINT64_MAX :: int where "UINT64_MAX \<equiv> 18446744073709551615"

definition is_s64 :: "int \<Rightarrow> bool" where
  "is_s64 x \<longleftrightarrow> INT64_MIN \<le> x \<and> x \<le> INT64_MAX"

text \<open>
  A signed 64-bit result: \<^const>\<open>None\<close> where the C expression overflows, which the language
  leaves undefined.
\<close>

definition checked_s64 :: "int \<Rightarrow> int option" where
  "checked_s64 x = (if is_s64 x then Some x else None)"

lemma u8_id [c_arith]: "0 \<le> x \<Longrightarrow> x < 256 \<Longrightarrow> u8 x = x"
  by (simp add: u8_def)

lemma u16_id [c_arith]: "0 \<le> x \<Longrightarrow> x < 65536 \<Longrightarrow> u16 x = x"
  by (simp add: u16_def)

lemma u32_id [c_arith]: "0 \<le> x \<Longrightarrow> x < 4294967296 \<Longrightarrow> u32 x = x"
  by (simp add: u32_def)

lemma u64_id [c_arith]: "0 \<le> x \<Longrightarrow> x \<le> UINT64_MAX \<Longrightarrow> u64 x = x"
  by (simp add: u64_def)

lemma s16_id [c_arith]: "INT16_MIN \<le> x \<Longrightarrow> x \<le> INT16_MAX \<Longrightarrow> s16 x = x"
  by (simp add: s16_def swrap_def)

lemma s32_id [c_arith]: "INT32_MIN \<le> x \<Longrightarrow> x \<le> INT32_MAX \<Longrightarrow> s32 x = x"
  by (simp add: s32_def swrap_def)

lemma s64_id [c_arith]: "INT64_MIN \<le> x \<Longrightarrow> x \<le> INT64_MAX \<Longrightarrow> s64 x = x"
  by (simp add: s64_def swrap_def)

lemma u64_bounds: "0 \<le> u64 x" "u64 x \<le> UINT64_MAX"
  by (simp_all add: u64_def)

lemma u32_bounds: "0 \<le> u32 x" "u32 x < 4294967296"
  by (simp_all add: u32_def)

lemma s64_bounds: "INT64_MIN \<le> s64 x" "s64 x \<le> INT64_MAX"
proof -
  have "(x + 2 ^ 63) mod 2 ^ 64 < (2 ^ 64 :: int)" "0 \<le> (x + 2 ^ 63) mod (2 ^ 64 :: int)"
    by simp_all
  then show "INT64_MIN \<le> s64 x" "s64 x \<le> INT64_MAX"
    by (simp_all add: s64_def swrap_def)
qed

lemma s64_u64: "s64 (u64 x) = s64 x"
  by (simp add: s64_def swrap_def u64_def mod_simps)

subsection \<open>Truncating division\<close>

lemma sdiv_nonneg [c_arith]: "0 \<le> a \<Longrightarrow> 0 < b \<Longrightarrow> a sdiv b = a div (b::int)"
  by (cases "a = 0") (auto simp: signed_divide_int_def sgn_if)

lemma sdiv_neg [c_arith]: "a < 0 \<Longrightarrow> 0 < b \<Longrightarrow> a sdiv b = - ((- a) div (b::int))"
  by (auto simp: signed_divide_int_def sgn_if)

lemma smod_nonneg [c_arith]: "0 \<le> a \<Longrightarrow> 0 < b \<Longrightarrow> a smod b = a mod (b::int)"
  by (cases "a = 0") (auto simp: signed_modulo_int_def sgn_if)

lemma smod_neg [c_arith]: "a < 0 \<Longrightarrow> 0 < b \<Longrightarrow> a smod b = - ((- a) mod (b::int))"
  by (auto simp: signed_modulo_int_def sgn_if)

text \<open>
  The idiom the driver uses everywhere: truncating division followed by a correction of a
  negative remainder is flooring division.
\<close>

lemma trunc_floor:
  assumes "0 < (b::int)"
  shows "(a smod b < 0 \<longrightarrow> a smod b + b = a mod b \<and> a sdiv b - 1 = a div b)
       \<and> (\<not> a smod b < 0 \<longrightarrow> a smod b = a mod b \<and> a sdiv b = a div b)"
proof (cases "0 \<le> a")
  case True
  with assms show ?thesis by (auto simp: smod_nonneg sdiv_nonneg not_less pos_mod_sign)
next
  case False
  let ?r = "(- a) mod b"
  have r: "0 \<le> ?r" "?r < b" using assms by simp_all
  have eq: "a = - ((- a) div b) * b - ?r" using div_mult_mod_eq [of "- a" b] by linarith
  show ?thesis
  proof (cases "?r = 0")
    case True
    then have "a mod b = 0" by (simp add: mod_eq_0_iff_dvd)
    moreover from True eq have "a div b = - ((- a) div b)"
      using assms by (metis add.right_neutral diff_zero nonzero_mult_div_cancel_right less_irrefl)
    ultimately show ?thesis using False assms True by (simp add: smod_neg sdiv_neg)
  next
    case nz: False
    have split: "a = (- ((- a) div b) - 1) * b + (b - ?r)" using eq by (simp add: algebra_simps)
    have pos: "0 < ?r" using nz r(1) by linarith
    have "b - ?r < b" "0 \<le> b - ?r" using pos r by auto
    with split have "a div b = - ((- a) div b) - 1" "a mod b = b - ?r"
      by (metis div_pos_pos_trivial div_mult_self3 add.right_neutral assms less_irrefl add.commute,
          metis mod_pos_pos_trivial mod_mult_self3)
    with pos False assms show ?thesis by (auto simp: smod_neg sdiv_neg)
  qed
qed

lemma trunc_fix_mod [c_arith]:
  "0 < (b::int) \<Longrightarrow> (if a smod b < 0 then a smod b + b else a smod b) = a mod b"
  using trunc_floor [of b a] by simp

lemma trunc_fix_div [c_arith]:
  "0 < (b::int) \<Longrightarrow> (if a smod b < 0 then a sdiv b - 1 else a sdiv b) = a div b"
  using trunc_floor [of b a] by simp

subsection \<open>ADBC status codes and Arrow time units\<close>

datatype status =
    ADBC_STATUS_OK | ADBC_STATUS_UNKNOWN | ADBC_STATUS_NOT_IMPLEMENTED | ADBC_STATUS_NOT_FOUND
  | ADBC_STATUS_ALREADY_EXISTS | ADBC_STATUS_INVALID_ARGUMENT | ADBC_STATUS_INVALID_STATE
  | ADBC_STATUS_INVALID_DATA | ADBC_STATUS_INTEGRITY | ADBC_STATUS_INTERNAL | ADBC_STATUS_IO
  | ADBC_STATUS_CANCELLED | ADBC_STATUS_TIMEOUT | ADBC_STATUS_UNAUTHENTICATED
  | ADBC_STATUS_UNAUTHORIZED

datatype time_unit = SECOND | MILLI | MICRO | NANO

subsection \<open>Characters, and decimal text as \<^verbatim>\<open>printf\<close> writes it\<close>

definition is_digit :: "char \<Rightarrow> bool" where
  "is_digit c \<longleftrightarrow> CHR ''0'' \<le> c \<and> c \<le> CHR ''9''"

definition digit_val :: "char \<Rightarrow> nat" where
  "digit_val c = of_char c - 48"

definition digit_char :: "nat \<Rightarrow> char" where
  "digit_char n = char_of (48 + n)"

text \<open>\<^verbatim>\<open>(a >= 'A' && a <= 'Z') ? a - 'A' + 'a' : a\<close>, the driver's locale-free lower-casing.\<close>

definition to_lower :: "char \<Rightarrow> char" where
  "to_lower c = (if CHR ''A'' \<le> c \<and> c \<le> CHR ''Z'' then char_of (of_char c + 32 :: nat) else c)"

fun dec :: "nat \<Rightarrow> string" where
  "dec n = (if n < 10 then [digit_char n] else dec (n div 10) @ [digit_char (n mod 10)])"

declare dec.simps [simp del]

text \<open>\<^verbatim>\<open>%d\<close> and \<^verbatim>\<open>%lld\<close>; \<^verbatim>\<open>%0wd\<close>; and what \<^verbatim>\<open>snprintf\<close> into \<open>cap\<close> bytes returns and leaves behind.\<close>

definition fmt_d :: "int \<Rightarrow> string" where
  "fmt_d x = (if x < 0 then CHR ''-'' # dec (nat (- x)) else dec (nat x))"

definition fmt_0d :: "nat \<Rightarrow> int \<Rightarrow> string" where
  "fmt_0d w x =
     (if x < 0 then CHR ''-'' # (let ds = dec (nat (- x)) in replicate (w - 1 - length ds) CHR ''0'' @ ds)
      else (let ds = dec (nat x) in replicate (w - length ds) CHR ''0'' @ ds))"

definition snprintf :: "nat \<Rightarrow> string \<Rightarrow> nat \<times> string" where
  "snprintf cap s = (length s, take (cap - 1) s)"

text \<open>The \<open>w\<close> low decimal digits of \<open>n\<close>, most significant first.\<close>

fun ndigits :: "nat \<Rightarrow> nat \<Rightarrow> string" where
  "ndigits 0 n = []"
| "ndigits (Suc w) n = ndigits w (n div 10) @ [digit_char (n mod 10)]"

lemma length_ndigits [simp]: "length (ndigits w n) = w"
  by (induction w arbitrary: n) auto

lemma digit_table: "\<forall>n \<in> set [0..<10]. is_digit (digit_char n) \<and> digit_val (digit_char n) = n"
  by code_simp

lemma digit_char_props [simp]:
  assumes "n < 10"
  shows "is_digit (digit_char n)" "digit_val (digit_char n) = n"
  using digit_table assms by auto

lemma ndigits_zero: "ndigits w 0 = replicate w CHR ''0''"
proof (induction w)
  case (Suc w)
  have "digit_char 0 = CHR ''0''" by code_simp
  with Suc show ?case by (simp add: replicate_append_same)
qed simp

lemma dec_ndigits: "n < 10 ^ w \<Longrightarrow> 0 < w \<Longrightarrow> replicate (w - length (dec n)) CHR ''0'' @ dec n = ndigits w n"
proof (induction w arbitrary: n)
  case (Suc w)
  show ?case
  proof (cases "n < 10")
    case True
    then show ?thesis by (simp add: dec.simps [of n] ndigits_zero)
  next
    case False
    then have "w \<noteq> 0" using Suc.prems by (cases w) auto
    moreover have "n div 10 < 10 ^ w" using Suc.prems(1) by (simp add: less_mult_imp_div_less mult.commute)
    ultimately show ?thesis using Suc.IH [of "n div 10"] False by (simp add: dec.simps [of n])
  qed
qed simp

lemma fmt_0d_ndigits: "0 \<le> x \<Longrightarrow> x < 10 ^ w \<Longrightarrow> 0 < w \<Longrightarrow> fmt_0d w x = ndigits w (nat x)"
  using dec_ndigits [of "nat x" w] by (simp add: fmt_0d_def Let_def nat_less_iff)

text \<open>Reading digits back: the value of a digit string in Horner form.\<close>

definition horner :: "int \<Rightarrow> string \<Rightarrow> int" where
  "horner v ds = foldl (\<lambda>a c. a * 10 + int (digit_val c)) v ds"

lemma horner_simps [simp]:
  "horner v [] = v" "horner v (c # cs) = horner (v * 10 + int (digit_val c)) cs"
  "horner v (ds @ [c]) = horner v ds * 10 + int (digit_val c)"
  by (simp_all add: horner_def)

lemma horner_ndigits: "n < 10 ^ w \<Longrightarrow> horner v (ndigits w n) = v * 10 ^ w + int n"
proof (induction w arbitrary: n)
  case (Suc w)
  have "n div 10 < 10 ^ w" using Suc.prems by (simp add: less_mult_imp_div_less mult.commute)
  from Suc.IH [OF this] have "horner v (ndigits (Suc w) n) = (v * 10 ^ w + int (n div 10)) * 10 + int (n mod 10)"
    by simp
  also have "\<dots> = v * 10 ^ Suc w + int n"
  proof -
    have "int n = int (n div 10) * 10 + int (n mod 10)"
      by (metis div_mult_mod_eq of_nat_add of_nat_mult of_nat_numeral)
    then show ?thesis by (simp add: algebra_simps)
  qed
  finally show ?case .
qed simp

lemma digits_ndigits: "list_all is_digit (ndigits w n)"
  by (induction w arbitrary: n) auto

subsection \<open>Ring buffers\<close>

lemma ring_distinct:
  assumes "i < c" "j < c" "(h + i) mod c = (h + j) mod (c::nat)"
  shows "i = j"
  using assms
proof (induction i j rule: linorder_wlog)
  case (le i j)
  then have "c dvd (h + j) - (h + i)" by (metis add_le_cancel_left mod_eq_dvd_iff_nat)
  then show ?case using le by (auto dest: dvd_imp_le)
qed (metis)

end
