(* ===== verification/Calendar.thy ===== *)
theory Calendar
  imports Prelude
begin

text \<open>
  Date arithmetic: \<^verbatim>\<open>CivilFromDays\<close> of \<^verbatim>\<open>src/odbc_bind.c\<close> (days since 1970-01-01 to a civil
  date, used for every date and timestamp parameter) and \<^verbatim>\<open>DaysFromCivil\<close> of
  \<^verbatim>\<open>src/odbc_reader.c\<close> (the way back, used for every fetched date and timestamp).  The two
  are shown to be mutually inverse and to follow the proleptic Gregorian calendar, which is
  specified independently as a \<open>next_day\<close> function over leap years and month lengths.

  The C code computes in \<open>int64_t\<close> and \<open>unsigned\<close>; the model computes in \<^typ>\<open>int\<close> with the
  conversions \<open>u32\<close> and \<open>s32\<close> where the C has them.  No other step can leave \<open>int64_t\<close>: the
  arguments are an Arrow \<open>date32\<close>, or an \<open>int64_t\<close> number of seconds divided by 86400, or a
  16-bit or four-digit year.
\<close>

subsection \<open>The code\<close>

definition CivilFromDays :: "int \<Rightarrow> int \<times> int \<times> int" where
  "CivilFromDays z0 =
     (let z = z0 + 719468;
          era = (if z \<ge> 0 then z else z - 146096) sdiv 146097;
          doe = u32 (z - era * 146097);
          yoe = (doe - doe div 1460 + doe div 36524 - doe div 146096) div 365;
          yy = yoe + era * 400;
          doy = doe - (365 * yoe + yoe div 4 - yoe div 100);
          mp = (5 * doy + 2) div 153;
          d = doy - (153 * mp + 2) div 5 + 1;
          m = (if mp < 10 then mp + 3 else mp - 9)
      in (s32 (yy + (if m \<le> 2 then 1 else 0)), m, d))"

definition DaysFromCivil :: "int \<Rightarrow> int \<Rightarrow> int \<Rightarrow> int" where
  "DaysFromCivil y0 m d =
     (let y = y0 - (if m \<le> 2 then 1 else 0);
          era = (if y \<ge> 0 then y else y - 399) sdiv 400;
          yoe = u32 (y - era * 400);
          doy = u32 (u32 (153 * u32 (m + (if m > 2 then - 3 else 9)) + 2) div 5 + d - 1);
          doe = u32 (yoe * 365 + yoe div 4 - yoe div 100 + doy)
      in era * 146097 + doe - 719468)"

subsection \<open>The Gregorian calendar, independently\<close>

definition leap :: "int \<Rightarrow> bool" where
  "leap y \<longleftrightarrow> y mod 4 = 0 \<and> (y mod 100 \<noteq> 0 \<or> y mod 400 = 0)"

definition month_days :: "int \<Rightarrow> int \<Rightarrow> int" where
  "month_days y m =
     (if m = 2 then (if leap y then 29 else 28)
      else if m = 4 \<or> m = 6 \<or> m = 9 \<or> m = 11 then 30 else 31)"

definition valid_date :: "int \<times> int \<times> int \<Rightarrow> bool" where
  "valid_date c = (case c of (y, m, d) \<Rightarrow> 1 \<le> m \<and> m \<le> 12 \<and> 1 \<le> d \<and> d \<le> month_days y m)"

definition next_day :: "int \<times> int \<times> int \<Rightarrow> int \<times> int \<times> int" where
  "next_day c =
     (case c of (y, m, d) \<Rightarrow>
        if d < month_days y m then (y, m, d + 1)
        else if m < 12 then (y, m + 1, 1)
        else (y + 1, 1, 1))"

subsection \<open>Year of the era\<close>

lemma div_succ:
  assumes "0 < (b::int)"
  shows "(a + 1) div b = a div b + (if (a + 1) mod b = 0 then 1 else 0)"
proof -
  let ?q = "(a + 1) div b" and ?r = "(a + 1) mod b"
  have a: "a = ?q * b + (?r - 1)" using div_mult_mod_eq [of "a + 1" b] by linarith
  have r: "0 \<le> ?r" "?r < b" using assms by simp_all
  show ?thesis
  proof (cases "?r = 0")
    case True
    then have "a = (?q - 1) * b + (b - 1)" using a by (simp add: left_diff_distrib)
    then have "a div b = ?q - 1 + (b - 1) div b"
      using assms by (metis div_mult_self3 less_irrefl)
    with True assms show ?thesis by (simp add: div_pos_pos_trivial)
  next
    case False
    then have "0 \<le> ?r - 1" "?r - 1 < b" using r by linarith+
    moreover have "a div b = ?q + (?r - 1) div b"
      using assms a by (metis div_mult_self3 less_irrefl)
    ultimately show ?thesis using False by simp
  qed
qed

text \<open>\<open>year_start y\<close>: days from 1 March of year 0 to 1 March of year \<open>y\<close>.\<close>

definition year_start :: "int \<Rightarrow> int" where
  "year_start y = 365 * y + y div 4 - y div 100 + y div 400"

definition yoe_num :: "int \<Rightarrow> int" where
  "yoe_num doe = doe - doe div 1460 + doe div 36524 - doe div 146096"

lemma leap_mods:
  shows "(y::int) mod 400 = 0 \<Longrightarrow> y mod 100 = 0" and "(y::int) mod 100 = 0 \<Longrightarrow> y mod 4 = 0"
  using mod_mod_cancel [of 100 400 y] mod_mod_cancel [of 4 100 y] by simp_all

lemma leap_count:
  fixes y p q r :: int
  assumes "c \<Longrightarrow> b" and "b \<Longrightarrow> a"
  shows "365 * (y + 1) + (p + (if a then 1 else 0)) - (q + (if b then 1 else 0))
           + (r + (if c then 1 else 0))
         = 365 * y + p - q + r + (if a \<and> (\<not> b \<or> c) then 366 else 365)"
  using assms by auto

lemma year_start_succ: "year_start (y + 1) = year_start y + (if leap (y + 1) then 366 else 365)"
proof -
  have d: "(y + 1) div 4 = y div 4 + (if (y + 1) mod 4 = 0 then 1 else 0)"
    "(y + 1) div 100 = y div 100 + (if (y + 1) mod 100 = 0 then 1 else 0)"
    "(y + 1) div 400 = y div 400 + (if (y + 1) mod 400 = 0 then 1 else 0)"
    by (rule div_succ; simp)+
  show ?thesis
    unfolding year_start_def leap_def d by (rule leap_count) (fact leap_mods)+
qed

lemma yoe_num_step:
  assumes "0 \<le> x" "x < 146096"
  shows "yoe_num x \<le> yoe_num (x + 1)"
proof (cases "x = 146095")
  case True
  then show ?thesis by (simp add: yoe_num_def)
next
  case False
  with assms have "(x + 1) div 146096 = 0" "x div 146096 = 0" by simp_all
  then show ?thesis by (simp add: yoe_num_def div_succ)
qed

lemma yoe_num_mono:
  assumes "0 \<le> x" "x \<le> y" "y \<le> 146096"
  shows "yoe_num x \<le> yoe_num y"
  using assms(2,3)
proof (induction y rule: int_ge_induct)
  case base
  show ?case by simp
next
  case (step y)
  with assms(1) yoe_num_step [of y] show ?case by simp
qed

lemma year_start_table:
  "\<forall>y \<in> set [0..399]. yoe_num (year_start y) div 365 = y \<and> yoe_num (year_start (y + 1) - 1) div 365 = y"
  by code_simp

lemma year_start_mono: "x \<le> y \<Longrightarrow> year_start x \<le> year_start y"
  by (induction y rule: int_ge_induct) (auto simp: year_start_succ)

lemma year_start_ends [simp]: "year_start 0 = 0" "year_start 400 = 146097"
  by (simp_all add: year_start_def)

lemma year_start_era: "year_start (y + 400 * e) = year_start y + 146097 * e"
proof -
  have "(y + 400 * e) div 4 = y div 4 + 100 * e" "(y + 400 * e) div 100 = y div 100 + 4 * e"
    "(y + 400 * e) div 400 = y div 400 + e"
    using div_mult_self2 [of 4 y "100 * e"] div_mult_self2 [of 100 y "4 * e"]
      div_mult_self2 [of 400 y e] by (simp_all add: mult.assoc [symmetric])
  then show ?thesis by (simp add: year_start_def)
qed

text \<open>Every day of an era lies in exactly one of its years, and \<open>yoe\<close> finds it.\<close>

lemma yoe_bracket:
  assumes "0 \<le> doe" "doe \<le> 146096"
  obtains y where "0 \<le> y" "y \<le> 399" "year_start y \<le> doe" "doe < year_start (y + 1)"
    "yoe_num doe div 365 = y"
proof -
  let ?S = "{y \<in> {0..399}. year_start y \<le> doe}"
  define y where "y = Max ?S"
  have fin: "finite ?S" by (rule finite_subset [of _ "{0..399}"]) auto
  have "(0::int) \<in> ?S" using assms by (simp add: year_start_def)
  with fin have y: "y \<in> ?S" unfolding y_def by (intro Max_in) blast+
  have up: "doe < year_start (y + 1)"
  proof (cases "y = 399")
    case True
    with assms show ?thesis by (simp add: year_start_def)
  next
    case False
    have "y + 1 \<notin> ?S" using Max_ge [OF fin, of "y + 1"] unfolding y_def by linarith
    with False y show ?thesis by auto
  qed
  have "y \<in> set [0..399]" using y by simp
  with year_start_table have tab: "yoe_num (year_start y) div 365 = y"
    "yoe_num (year_start (y + 1) - 1) div 365 = y" by blast+
  have s0: "0 \<le> year_start y" using year_start_mono [of 0 y] y by simp
  have s1: "year_start (y + 1) \<le> 146097"
    using year_start_mono [of "y + 1" 400] y by simp
  have "yoe_num (year_start y) \<le> yoe_num doe" "yoe_num doe \<le> yoe_num (year_start (y + 1) - 1)"
    using y up s0 s1 assms by (auto intro!: yoe_num_mono)
  then have "yoe_num doe div 365 = y"
    using tab by (metis order_antisym zdiv_mono1 zero_less_numeral)
  with that [of y] y up show thesis by simp
qed

subsection \<open>Month and day of the year\<close>

text \<open>Years start in March here: \<open>month_start m\<close> days of the year precede month \<open>m\<close>.\<close>

definition month_start :: "int \<Rightarrow> int" where
  "month_start m = (153 * (m + (if m > 2 then - 3 else 9)) + 2) div 5"

definition month_of :: "int \<Rightarrow> int" where
  "month_of doy = (let mp = (5 * doy + 2) div 153 in if mp < 10 then mp + 3 else mp - 9)"

lemma month_table:
  "\<forall>doy \<in> set [0..365].
     let m = month_of doy; mp = (5 * doy + 2) div 153; d = doy - (153 * mp + 2) div 5 + 1
     in 1 \<le> m \<and> m \<le> 12 \<and> 1 \<le> d \<and> month_start m = (153 * mp + 2) div 5
        \<and> d \<le> (if m = 2 then (if doy = 365 then 29 else 28)
               else if m = 4 \<or> m = 6 \<or> m = 9 \<or> m = 11 then 30 else 31)"
  by code_simp

lemma month_start_table:
  "\<forall>m \<in> set [1..12].
     0 \<le> month_start m \<and> month_start m \<le> 337
     \<and> (m \<noteq> 2 \<longrightarrow> month_start m + (if m = 4 \<or> m = 6 \<or> m = 9 \<or> m = 11 then 30 else 31) \<le> 337
           \<and> (\<forall>d \<in> set [1..31]. d \<le> (if m = 4 \<or> m = 6 \<or> m = 9 \<or> m = 11 then 30 else 31)
                \<longrightarrow> month_of (month_start m + d - 1) = m))
     \<and> (m = 2 \<longrightarrow> month_start m = 337 \<and> (\<forall>d \<in> set [1..29]. month_of (336 + d) = 2))"
  by code_simp

subsection \<open>Both directions in closed form\<close>

lemma floor_sdiv:
  assumes "0 < (b::int)" and c: "c = b - 1"
  shows "(if a \<ge> 0 then a else a - c) sdiv b = a div b"
proof (cases "a \<ge> 0")
  case True
  with assms show ?thesis by (simp add: sdiv_nonneg)
next
  case False
  have a: "a = a div b * b + a mod b" by simp
  have r: "0 \<le> a mod b" "a mod b < b" using assms by simp_all
  have "- (a - (b - 1)) = (- (a div b)) * b + (b - 1 - a mod b)"
    using a by (simp add: algebra_simps)
  then have "(- (a - (b - 1))) div b = - (a div b) + (b - 1 - a mod b) div b"
    using assms by (metis div_mult_self3 less_irrefl)
  also have "(b - 1 - a mod b) div b = 0" using r by simp
  finally show ?thesis using False assms(1) by (simp add: sdiv_neg c)
qed

lemma DaysFromCivil_closed:
  assumes "1 \<le> m" "m \<le> 12" "1 \<le> d" "d \<le> 31"
  shows "DaysFromCivil y m d
       = year_start (y - (if m \<le> 2 then 1 else 0)) + month_start m + d - 1 - 719468"
proof -
  let ?y = "y - (if m \<le> 2 then 1 else 0)"
  define yoe where "yoe = ?y mod 400"
  have yoe: "0 \<le> yoe" "yoe < 400" by (simp_all add: yoe_def)
  have ms: "0 \<le> month_start m" "month_start m \<le> 337" using month_start_table assms(1,2) by simp_all
  have m: "u32 (u32 (153 * u32 (m + (if m > 2 then - 3 else 9)) + 2) div 5 + d - 1)
      = month_start m + d - 1"
    using assms ms by (simp add: u32_id month_start_def)
  have q: "0 \<le> yoe div 4" "yoe div 4 \<le> 99" "0 \<le> yoe div 100" "yoe div 100 \<le> 3" "yoe div 400 = 0"
    using yoe by (simp_all add: pos_imp_zdiv_nonneg_iff)
  have "u32 (yoe * 365 + yoe div 4 - yoe div 100 + (month_start m + d - 1))
      = year_start yoe + month_start m + d - 1"
    using yoe q ms assms by (simp add: u32_id year_start_def)
  moreover have "year_start ?y = year_start yoe + 146097 * (?y div 400)"
    using year_start_era [of yoe "?y div 400"] by (simp add: yoe_def)
  moreover have "?y - ?y div 400 * 400 = yoe" by (simp add: yoe_def minus_div_mult_eq_mod)
  moreover have "(if ?y \<ge> 0 then ?y else ?y - 399) sdiv 400 = ?y div 400"
    by (rule floor_sdiv) simp_all
  ultimately show ?thesis
    unfolding DaysFromCivil_def Let_def m using yoe by (simp add: u32_id)
qed

text \<open>The year an exact civil date has before the cast to \<^verbatim>\<open>int\<close>.\<close>

definition civil_year :: "int \<Rightarrow> int" where
  "civil_year z =
     (let D = z + 719468; y = yoe_num (D mod 146097) div 365
      in y + 400 * (D div 146097)
         + (if month_of (D mod 146097 - year_start y) \<le> 2 then 1 else 0))"

lemma CivilFromDays_spec:
  obtains Y doy where
    "z + 719468 = year_start Y + doy" "0 \<le> doy" "doy < (if leap (Y + 1) then 366 else 365)"
    "civil_year z = Y + (if month_of doy \<le> 2 then 1 else 0)"
    "CivilFromDays z = (s32 (civil_year z), month_of doy, doy - month_start (month_of doy) + 1)"
proof -
  define D where "D = z + 719468"
  define e where "e = D div 146097"
  define doe where "doe = D mod 146097"
  have doe: "0 \<le> doe" "doe \<le> 146096" by (simp_all add: doe_def)
  obtain y where y: "0 \<le> y" "y \<le> 399" "year_start y \<le> doe" "doe < year_start (y + 1)"
    "yoe_num doe div 365 = y" using yoe_bracket [OF doe] .
  define doy where "doy = doe - year_start y"
  have D: "D = year_start (y + 400 * e) + doy"
    by (simp add: year_start_era doy_def doe_def e_def)
  have leap400: "leap (y + 400 * e + 1) = leap (y + 1)"
    using year_start_succ [of "y + 400 * e"] year_start_succ [of y]
      year_start_era [of y e] year_start_era [of "y + 1" e] by (auto split: if_splits simp: add_ac)
  have doy: "0 \<le> doy" "doy < (if leap (y + 400 * e + 1) then 366 else 365)"
    using y(3,4) year_start_succ [of y] by (simp_all add: doy_def leap400 split: if_splits)
  then have "doy \<in> set [0..365]" by (auto split: if_splits)
  with month_table have ms: "month_start (month_of doy) = (153 * ((5 * doy + 2) div 153) + 2) div 5"
    by (simp add: Let_def)
  have era: "(if D \<ge> 0 then D else D - 146096) sdiv 146097 = e"
    unfolding e_def by (rule floor_sdiv) simp_all
  have sub: "D - e * 146097 = doe" by (simp add: e_def doe_def minus_div_mult_eq_mod)
  have ys: "365 * y + y div 4 - y div 100 = year_start y" using y(1,2) by (simp add: year_start_def)
  have cy: "civil_year z = y + 400 * e + (if month_of doy \<le> 2 then 1 else 0)"
    using y(5) by (simp add: civil_year_def D_def [symmetric] e_def doe_def doy_def)
  have u: "u32 doe = doe" using doe by (simp add: u32_id)
  have yoe: "(doe - doe div 1460 + doe div 36524 - doe div 146096) div 365 = y"
    using y(5) unfolding yoe_num_def .
  have doe_doy: "doe - (365 * y + y div 4 - y div 100) = doy" unfolding ys doy_def ..
  have mo: "(if (5 * doy + 2) div 153 < 10 then (5 * doy + 2) div 153 + 3
      else (5 * doy + 2) div 153 - 9) = month_of doy" unfolding month_of_def Let_def ..
  have "CivilFromDays z = (s32 (civil_year z), month_of doy, doy - month_start (month_of doy) + 1)"
    unfolding CivilFromDays_def D_def [symmetric] Let_def era sub u yoe doe_doy mo ms cy
    by (simp only: mult.commute)
  with that [of "y + 400 * e" doy] D doy cy show thesis by (simp add: D_def)
qed

lemma CivilFromDays_valid:
  assumes "INT32_MIN \<le> civil_year z" "civil_year z \<le> INT32_MAX"
  shows "valid_date (CivilFromDays z)
       \<and> (case CivilFromDays z of (y, m, d) \<Rightarrow> y = civil_year z \<and> DaysFromCivil y m d = z)"
proof -
  obtain Y doy where c: "z + 719468 = year_start Y + doy" "0 \<le> doy"
    "doy < (if leap (Y + 1) then 366 else 365)"
    "civil_year z = Y + (if month_of doy \<le> 2 then 1 else 0)"
    "CivilFromDays z = (s32 (civil_year z), month_of doy, doy - month_start (month_of doy) + 1)"
    by (rule CivilFromDays_spec)
  let ?m = "month_of doy" let ?d = "doy - month_start ?m + 1"
  have "doy \<in> set [0..365]" using c(2,3) by (auto split: if_splits)
  with month_table have t: "1 \<le> ?m" "?m \<le> 12" "1 \<le> ?d"
    "?d \<le> (if ?m = 2 then (if doy = 365 then 29 else 28)
           else if ?m = 4 \<or> ?m = 6 \<or> ?m = 9 \<or> ?m = 11 then 30 else 31)"
    by (simp_all add: Let_def)
  have "?d \<le> month_days (civil_year z) ?m"
    using t(4) c(2,3,4) by (auto simp: month_days_def split: if_splits)
  moreover have "?d \<le> 31" using t(4) by (auto split: if_splits)
  ultimately show ?thesis
    using t(1-3) c(1,4) assms by (simp add: c(5) valid_date_def s32_id DaysFromCivil_closed)
qed

lemma doy_range:
  assumes "valid_date (y, m, d)"
  shows "0 \<le> month_start m + d - 1"
    and "month_start m + d - 1 < (if leap (y - (if m \<le> 2 then 1 else 0) + 1) then 366 else 365)"
    and "month_of (month_start m + d - 1) = m"
proof -
  from assms have m: "m \<in> set [1..12]" and d: "1 \<le> d" "d \<le> month_days y m" "d \<in> set [1..31]"
    by (auto simp: valid_date_def month_days_def split: if_splits)
  note t = bspec [OF month_start_table m]
  show "0 \<le> month_start m + d - 1" using t d by simp
  show "month_start m + d - 1 < (if leap (y - (if m \<le> 2 then 1 else 0) + 1) then 366 else 365)"
    using t d by (cases "m = 2") (auto simp: month_days_def split: if_splits)
  show "month_of (month_start m + d - 1) = m"
    using t d by (cases "m = 2") (auto simp: month_days_def split: if_splits)
qed

lemma year_start_inj:
  assumes "year_start a + i = year_start b + j"
    and "0 \<le> i" "i < (if leap (a + 1) then 366 else 365)"
    and "0 \<le> j" "j < (if leap (b + 1) then 366 else 365)"
  shows "a = b \<and> i = j"
proof -
  have i: "year_start a + i < year_start (a + 1)" and j: "year_start b + j < year_start (b + 1)"
    using assms by (simp_all add: year_start_succ)
  consider "a + 1 \<le> b" | "b + 1 \<le> a" | "a = b" by linarith
  then show ?thesis
  proof cases
    case 1
    then show ?thesis using year_start_mono [OF 1] i assms by linarith
  next
    case 2
    then show ?thesis using year_start_mono [OF 2] j assms by linarith
  next
    case 3
    then show ?thesis using assms by simp
  qed
qed

lemma DaysFromCivil_inj:
  assumes "valid_date (y1, m1, d1)" "valid_date (y2, m2, d2)"
    and "DaysFromCivil y1 m1 d1 = DaysFromCivil y2 m2 d2"
  shows "y1 = y2 \<and> m1 = m2 \<and> d1 = d2"
proof -
  have b: "1 \<le> m \<and> m \<le> 12 \<and> 1 \<le> d \<and> d \<le> 31" if "valid_date (y, m, d)" for y m d
    using that by (auto simp: valid_date_def month_days_def split: if_splits)
  let ?y1 = "y1 - (if m1 \<le> 2 then 1 else 0)" and ?y2 = "y2 - (if m2 \<le> 2 then 1 else 0)"
  have "year_start ?y1 + (month_start m1 + d1 - 1) = year_start ?y2 + (month_start m2 + d2 - 1)"
    using assms(3) b [OF assms(1)] b [OF assms(2)] by (simp add: DaysFromCivil_closed)
  then have "?y1 = ?y2 \<and> month_start m1 + d1 - 1 = month_start m2 + d2 - 1"
    by (rule year_start_inj) (rule doy_range assms)+
  moreover from this have "m1 = m2" using doy_range(3) [OF assms(1)] doy_range(3) [OF assms(2)] by simp
  ultimately show ?thesis by simp
qed

text \<open>The year of a day number is monotone enough to bound it by the ends of an interval.\<close>

lemma civil_year_bounds:
  assumes "DaysFromCivil lo 1 1 \<le> z" "z \<le> DaysFromCivil hi 12 31"
  shows "lo \<le> civil_year z \<and> civil_year z \<le> hi"
proof -
  obtain Y doy where c: "z + 719468 = year_start Y + doy" "0 \<le> doy"
    "doy < (if leap (Y + 1) then 366 else 365)"
    "civil_year z = Y + (if month_of doy \<le> 2 then 1 else 0)"
    by (rule CivilFromDays_spec)
  have doy: "doy \<in> set [0..365]" using c(2,3) by (auto split: if_splits)
  have tab: "\<forall>x \<in> set [0..365]. (month_of x \<le> 2) = (306 \<le> x)" by code_simp
  have mo: "(month_of doy \<le> 2) = (306 \<le> doy)" using doy tab by blast
  have lo: "year_start (lo - 1) + 306 \<le> z + 719468"
    using assms(1) by (simp add: DaysFromCivil_closed month_start_def)
  have hi: "z + 719468 \<le> year_start hi + 305"
    using assms(2) by (simp add: DaysFromCivil_closed month_start_def)
  have up: "year_start Y + doy < year_start (Y + 1)" using c(3) by (simp add: year_start_succ)
  have "lo - 1 \<le> Y" using year_start_mono [of "Y + 1" "lo - 1"] up lo c(1) by linarith
  moreover have "lo - 1 = Y \<longrightarrow> 306 \<le> doy" using lo c(1) by auto
  moreover have "Y \<le> hi"
  proof (rule ccontr)
    assume "\<not> Y \<le> hi"
    then have "year_start (hi + 1) \<le> year_start Y" by (simp add: year_start_mono)
    moreover have "year_start hi + 365 \<le> year_start (hi + 1)" by (simp add: year_start_succ)
    ultimately show False using hi c(1,2) by linarith
  qed
  moreover have "Y = hi \<longrightarrow> doy < 306" using hi c(1) by auto
  ultimately show ?thesis using c(4) mo by (auto split: if_splits)
qed

lemma DaysFromCivil_next_day:
  assumes "valid_date (y, m, d)"
  shows "(case next_day (y, m, d) of (y', m', d') \<Rightarrow>
            valid_date (y', m', d') \<and> DaysFromCivil y' m' d' = DaysFromCivil y m d + 1)"
proof -
  from assms have m: "1 \<le> m" "m \<le> 12" and d: "1 \<le> d" "d \<le> month_days y m" "d \<le> 31"
    by (auto simp: valid_date_def month_days_def split: if_splits)
  show ?thesis
  proof (cases "d < month_days y m")
    case True
    then have "d + 1 \<le> 31" by (auto simp: month_days_def split: if_splits)
    with True m d show ?thesis by (simp add: next_day_def valid_date_def DaysFromCivil_closed)
  next
    case False
    then have d31: "d = month_days y m" using d by simp
    have "m = 1 \<or> m = 2 \<or> m = 3 \<or> m = 4 \<or> m = 5 \<or> m = 6 \<or> m = 7 \<or> m = 8 \<or> m = 9 \<or> m = 10 \<or> m = 11 \<or> m = 12"
      using m by presburger
    then show ?thesis
      using d31 year_start_succ [of "y - 1"]
      by (auto simp: next_day_def valid_date_def DaysFromCivil_closed month_days_def month_start_def)
  qed
qed

lemma date32_year:
  assumes "INT32_MIN \<le> z" "z \<le> INT32_MAX"
  shows "- 5877641 \<le> civil_year z \<and> civil_year z \<le> 5881580"
  using assms
  by (intro civil_year_bounds) (simp_all add: DaysFromCivil_closed month_start_def year_start_def)

lemma CivilFromDays_DaysFromCivil:
  assumes v: "valid_date (y, m, d)" and y: "INT32_MIN \<le> y" "y \<le> INT32_MAX"
  shows "CivilFromDays (DaysFromCivil y m d) = (y, m, d)"
proof -
  let ?z = "DaysFromCivil y m d" and ?y = "y - (if m \<le> 2 then 1 else 0)"
  have b: "1 \<le> m" "m \<le> 12" "1 \<le> d" "d \<le> 31"
    using v by (auto simp: valid_date_def month_days_def split: if_splits)
  obtain Y doy where c: "?z + 719468 = year_start Y + doy" "0 \<le> doy"
    "doy < (if leap (Y + 1) then 366 else 365)"
    "civil_year ?z = Y + (if month_of doy \<le> 2 then 1 else 0)"
    "CivilFromDays ?z = (s32 (civil_year ?z), month_of doy, doy - month_start (month_of doy) + 1)"
    by (rule CivilFromDays_spec)
  have "year_start ?y + (month_start m + d - 1) = year_start Y + doy"
    using c(1) b by (simp add: DaysFromCivil_closed)
  then have "?y = Y \<and> month_start m + d - 1 = doy"
    by (rule year_start_inj) (rule doy_range v c)+
  then have "Y = ?y" "doy = month_start m + d - 1" by simp_all
  moreover have "month_of doy = m" using doy_range(3) [OF v] calculation by simp
  ultimately show ?thesis using c(4) y by (simp add: c(5) s32_id)
qed

subsection \<open>Properties\<close>

text \<open>
  Every Arrow \<open>date32\<close> value survives the write path and the read path: the civil date
  \<open>CivilFromDays\<close> computes for it is a real calendar date, and \<open>DaysFromCivil\<close> of that date is
  the value again.
\<close>

theorem date32_roundtrip:
  assumes "INT32_MIN \<le> z" "z \<le> INT32_MAX"
  shows "valid_date (CivilFromDays z)
       \<and> (case CivilFromDays z of (y, m, d) \<Rightarrow> DaysFromCivil y m d = z)"
  using CivilFromDays_valid [of z] date32_year [OF assms] by (auto split: prod.splits)

theorem date32_roundtrip_witness:
  "valid_date (CivilFromDays 19782) \<and> CivilFromDays 19782 = (2024, 2, 29)
   \<and> (case CivilFromDays 19782 of (y, m, d) \<Rightarrow> DaysFromCivil y m d = 19782)"
proof -
  have "CivilFromDays 19782 = (2024, 2, 29)" by code_simp
  then show ?thesis using date32_roundtrip [of 19782] by simp
qed

text \<open>
  The read path is inverted by the write path: for every date of the proleptic Gregorian
  calendar whose year fits an \<^verbatim>\<open>int\<close>, \<open>CivilFromDays\<close> of \<open>DaysFromCivil\<close> is that date.
\<close>

theorem civil_roundtrip:
  assumes "valid_date (y, m, d)" "INT32_MIN \<le> y" "y \<le> INT32_MAX"
  shows "CivilFromDays (DaysFromCivil y m d) = (y, m, d)"
  using assms by (rule CivilFromDays_DaysFromCivil)

theorem civil_roundtrip_witness:
  "valid_date (1900, 2, 28) \<and> CivilFromDays (DaysFromCivil 1900 2 28) = (1900, 2, 28)"
proof -
  have "valid_date (1900, 2, 28)" by code_simp
  then show ?thesis using civil_roundtrip [of 1900 2 28] by simp
qed

text \<open>
  C16. \<open>CivilFromDays\<close> is the Gregorian calendar: day 0 is 1970-01-01 and the day after a day
  is the next calendar day, leap years and month ends included, over the whole \<open>date32\<close> range.
\<close>

theorem CivilFromDays_gregorian:
  assumes "INT32_MIN \<le> z" "z < INT32_MAX"
  shows "CivilFromDays 0 = (1970, 1, 1) \<and> CivilFromDays (z + 1) = next_day (CivilFromDays z)"
proof
  show "CivilFromDays 0 = (1970, 1, 1)" by code_simp
  obtain y m d where c: "CivilFromDays z = (y, m, d)" by (cases "CivilFromDays z")
  have yr: "- 5877641 \<le> civil_year z" "civil_year z \<le> 5881580" using date32_year [of z] assms by simp_all
  then have v: "valid_date (y, m, d)" "y = civil_year z" "DaysFromCivil y m d = z"
    using CivilFromDays_valid [of z] by (auto simp: c)
  obtain y' m' d' where n: "next_day (y, m, d) = (y', m', d')" by (cases "next_day (y, m, d)")
  have n': "valid_date (y', m', d')" "DaysFromCivil y' m' d' = z + 1"
    using DaysFromCivil_next_day [OF v(1)] v(3) by (simp_all add: n)
  have "y \<le> y'" "y' \<le> y + 1" using n by (auto simp: next_day_def split: if_splits)
  then have "CivilFromDays (DaysFromCivil y' m' d') = (y', m', d')"
    using yr v(2) by (intro CivilFromDays_DaysFromCivil n') simp_all
  then show "CivilFromDays (z + 1) = next_day (CivilFromDays z)" by (simp add: n' c n)
qed

theorem CivilFromDays_gregorian_witness:
  "CivilFromDays 0 = (1970, 1, 1) \<and> CivilFromDays 19783 = next_day (CivilFromDays 19782)"
  using CivilFromDays_gregorian [of 19782] by simp

end
