(* ===== verification/Times.thy ===== *)
theory Times
  imports Calendar
begin

text \<open>
  Times and timestamps, both ways.  The write path of \<^verbatim>\<open>src/odbc_bind.c\<close> turns an Arrow
  \<open>time32\<close>/\<open>time64\<close>/\<open>timestamp\<close> value into an ODBC struct or into text; the read path of
  \<^verbatim>\<open>src/odbc_reader.c\<close> turns an ODBC struct, or the text a driver returns, back into an Arrow
  value.  The scanners of the read path take a span and an index that only moves forward;
  the model passes the rest of the span instead of the index.
\<close>

subsection \<open>Units and sizes (odbc_bind.c)\<close>

fun FractionalDigits :: "time_unit \<Rightarrow> nat" where
  "FractionalDigits SECOND = 0"
| "FractionalDigits MILLI = 3"
| "FractionalDigits MICRO = 6"
| "FractionalDigits NANO = 7"

definition TimestampParamSize :: "time_unit \<Rightarrow> nat \<times> nat" where
  "TimestampParamSize unit =
     (let digits = FractionalDigits unit in (if digits \<noteq> 0 then 20 + digits else 19, digits))"

fun TicksPerSecond :: "time_unit \<Rightarrow> int" where
  "TicksPerSecond SECOND = 1"
| "TicksPerSecond MILLI = 1000"
| "TicksPerSecond MICRO = 1000000"
| "TicksPerSecond NANO = 1000000000"

definition TimeParamColumnSize :: "time_unit \<Rightarrow> nat" where
  "TimeParamColumnSize unit = (let digits = FractionalDigits unit in if digits \<noteq> 0 then 9 + digits else 8)"

definition TimestampTextColumnSize :: "time_unit \<Rightarrow> nat" where
  "TimestampTextColumnSize unit =
     (let digits = FractionalDigits unit in if digits \<noteq> 0 then 20 + digits else 19)"

subsection \<open>Arrow values to ODBC structs and text (odbc_bind.c)\<close>

record TIME_STRUCT =
  t_hour :: int
  t_minute :: int
  t_second :: int

record TIMESTAMP_STRUCT =
  year :: int
  month :: int
  day :: int
  hour :: int
  minute :: int
  second :: int
  fraction :: int

definition TimeOfDayFromArrow :: "int \<Rightarrow> time_unit \<Rightarrow> int \<times> int" where
  "TimeOfDayFromArrow v unit =
     (let per_sec = TicksPerSecond unit;
          s0 = v sdiv per_sec; f0 = v smod per_sec;
          f = (if f0 < 0 then f0 + per_sec else f0);
          s1 = (if f0 < 0 then s0 - 1 else s0);
          s2 = s1 smod 86400
      in (if s2 < 0 then s2 + 86400 else s2, f))"

definition TimeStructFromArrow :: "int \<Rightarrow> time_unit \<Rightarrow> TIME_STRUCT" where
  "TimeStructFromArrow v unit =
     (let (secs, frac) = TimeOfDayFromArrow v unit
      in \<lparr>t_hour = u16 (secs sdiv 3600), t_minute = u16 ((secs smod 3600) sdiv 60),
          t_second = u16 (secs smod 60)\<rparr>)"

definition TimeTextFromArrow :: "int \<Rightarrow> time_unit \<Rightarrow> nat \<Rightarrow> nat \<times> string" where
  "TimeTextFromArrow v unit out_size =
     (let (secs, frac) = TimeOfDayFromArrow v unit;
          hh = s32 (secs sdiv 3600); mm = s32 ((secs smod 3600) sdiv 60); ss = s32 (secs smod 60);
          digits = FractionalDigits unit;
          hms = fmt_0d 2 hh @ '':'' @ fmt_0d 2 mm @ '':'' @ fmt_0d 2 ss
      in if digits = 0 then snprintf out_size hms
         else let scale = 10 ^ digits; f = frac * scale sdiv TicksPerSecond unit
              in snprintf out_size (hms @ ''.'' @ fmt_0d digits f))"

fun TimestampUnits :: "time_unit \<Rightarrow> int \<times> int" where
  "TimestampUnits SECOND = (1, 1000000000)"
| "TimestampUnits MILLI = (1000, 1000000)"
| "TimestampUnits MICRO = (1000000, 1000)"
| "TimestampUnits NANO = (1000000000, 1)"

definition TimestampFromArrow :: "int \<Rightarrow> time_unit \<Rightarrow> TIMESTAMP_STRUCT" where
  "TimestampFromArrow v unit =
     (let (per_sec, frac_mul) = TimestampUnits unit;
          secs0 = v sdiv per_sec; frac0 = v smod per_sec;
          frac = (if frac0 < 0 then frac0 + per_sec else frac0);
          secs = (if frac0 < 0 then secs0 - 1 else secs0);
          days0 = secs sdiv 86400; sod0 = secs smod 86400;
          sod = (if sod0 < 0 then sod0 + 86400 else sod0);
          days = (if sod0 < 0 then days0 - 1 else days0);
          (y, m, d) = CivilFromDays days
      in \<lparr>year = s16 y, month = u16 m, day = u16 d,
          hour = u16 (sod sdiv 3600), minute = u16 ((sod smod 3600) sdiv 60),
          second = u16 (sod smod 60), fraction = u32 (frac * frac_mul)\<rparr>)"

definition TimestampTextFromStruct :: "TIMESTAMP_STRUCT \<Rightarrow> time_unit \<Rightarrow> nat \<Rightarrow> nat \<times> string" where
  "TimestampTextFromStruct ts unit out_size =
     (let digits = FractionalDigits unit;
          head = fmt_0d 4 (year ts) @ ''-'' @ fmt_0d 2 (month ts) @ ''-'' @ fmt_0d 2 (day ts) @ '' ''
                 @ fmt_0d 2 (hour ts) @ '':'' @ fmt_0d 2 (minute ts) @ '':'' @ fmt_0d 2 (second ts)
      in if digits = 0 then snprintf out_size head
         else let scale = 10 ^ (9 - digits)
              in snprintf out_size (head @ ''.'' @ fmt_0d digits (fraction ts sdiv scale)))"

subsection \<open>Text to Arrow values (odbc_reader.c)\<close>

fun scan_digits :: "nat \<Rightarrow> string \<Rightarrow> int \<Rightarrow> int \<times> string" where
  "scan_digits (Suc k) (c # cs) v =
     (if is_digit c then scan_digits k cs (v * 10 + int (digit_val c)) else (v, c # cs))"
| "scan_digits _ cs v = (v, cs)"

definition ScanUInt :: "nat \<Rightarrow> string \<Rightarrow> (int \<times> string) option" where
  "ScanUInt max_digits s =
     (let (v, r) = scan_digits max_digits s 0 in if length r = length s then None else Some (v, r))"

fun scan_frac :: "nat \<Rightarrow> nat \<Rightarrow> int \<Rightarrow> string \<Rightarrow> int \<times> nat \<times> string" where
  "scan_frac want digits out [] = (out, digits, [])"
| "scan_frac want digits out (c # cs) =
     (if is_digit c then
        (if digits < want then scan_frac want (Suc digits) (out * 10 + int (digit_val c)) cs
         else scan_frac want digits out cs)
      else (out, digits, c # cs))"

definition ScanFractionDigits :: "nat \<Rightarrow> string \<Rightarrow> int \<times> string" where
  "ScanFractionDigits want s =
     (case s of
        c # cs \<Rightarrow>
          if c = CHR ''.'' \<or> c = CHR '',''
          then let (out, digits, r) = scan_frac want 0 0 cs in (out * 10 ^ (want - digits), r)
          else (0, s)
      | [] \<Rightarrow> (0, s))"

definition SkipBlanks :: "string \<Rightarrow> string" where
  "SkipBlanks s = dropWhile (\<lambda>c. c = CHR '' '' \<or> c = CHR 0x09 \<or> c = CHR 0x00) s"

text \<open>\<^verbatim>\<open>if (p >= len || s[p] != c) return false; p++;\<close>\<close>

fun expect :: "char \<Rightarrow> string \<Rightarrow> string option" where
  "expect c [] = None"
| "expect c (x # xs) = (if x = c then Some xs else None)"

text \<open>\<^verbatim>\<open>if (p < len && s[p] == ':') { p++; if (!ScanUInt(..., 2, &out)) return false; }\<close>\<close>

definition OptColonUInt :: "string \<Rightarrow> (int \<times> string) option" where
  "OptColonUInt s = (case s of c # cs \<Rightarrow> if c = CHR '':'' then ScanUInt 2 cs else Some (0, s) | [] \<Rightarrow> Some (0, s))"

definition ParseTimeScaled :: "string \<Rightarrow> nat \<Rightarrow> int option" where
  "ParseTimeScaled s frac_digits =
     do { (h, r) \<leftarrow> ScanUInt 2 (SkipBlanks s);
          r \<leftarrow> expect CHR '':'' r;
          (m, r) \<leftarrow> ScanUInt 2 r;
          (sec, r) \<leftarrow> OptColonUInt r;
          (let (frac, r) = ScanFractionDigits frac_digits r
           in if SkipBlanks r \<noteq> [] then None
              else if h > 23 \<or> m > 59 \<or> sec > 59 then None
              else Some (((h * 60 + m) * 60 + sec) * 10 ^ frac_digits + frac)) }"

text \<open>The optional time part, then the optional zone part, of a timestamp.\<close>

definition ParseClock :: "nat \<Rightarrow> string \<Rightarrow> ((int \<times> int \<times> int \<times> int) \<times> string) option" where
  "ParseClock frac_digits s =
     (case s of
        c # cs \<Rightarrow>
          if c = CHR '' '' \<or> c = CHR ''T'' \<or> c = CHR ''t'' then
            do { (h, r) \<leftarrow> ScanUInt 2 (SkipBlanks cs);
                 r \<leftarrow> expect CHR '':'' r;
                 (mi, r) \<leftarrow> ScanUInt 2 r;
                 (sec, r) \<leftarrow> OptColonUInt r;
                 (let (frac, r) = ScanFractionDigits frac_digits r in Some ((h, mi, sec, frac), r)) }
          else Some ((0, 0, 0, 0), s)
      | [] \<Rightarrow> Some ((0, 0, 0, 0), s))"

definition ParseOffset :: "string \<Rightarrow> (int \<times> string) option" where
  "ParseOffset s =
     (case s of
        c # cs \<Rightarrow>
          if c = CHR ''Z'' \<or> c = CHR ''z'' then Some (0, cs)
          else if c = CHR ''+'' \<or> c = CHR ''-'' then
            do { (oh, r) \<leftarrow> ScanUInt 2 cs;
                 (om, r) \<leftarrow> (case r of
                     x # xs \<Rightarrow> if x = CHR '':'' then ScanUInt 2 xs
                                else if is_digit x then ScanUInt 2 r else Some (0, r)
                   | [] \<Rightarrow> Some (0, r));
                 (if oh > 23 \<or> om > 59 then None
                  else Some ((if c = CHR ''-'' then - 1 else 1) * (oh * 3600 + om * 60), r)) }
          else Some (0, s)
      | [] \<Rightarrow> Some (0, s))"

definition ParseTimestampUtcScaled :: "string \<Rightarrow> nat \<Rightarrow> int option" where
  "ParseTimestampUtcScaled s frac_digits =
     do { (y, r) \<leftarrow> ScanUInt 4 (SkipBlanks s);
          r \<leftarrow> expect CHR ''-'' r;
          (mo, r) \<leftarrow> ScanUInt 2 r;
          r \<leftarrow> expect CHR ''-'' r;
          (d, r) \<leftarrow> ScanUInt 2 r;
          ((h, mi, sec, frac), r) \<leftarrow> ParseClock frac_digits r;
          (offset_secs, r) \<leftarrow> ParseOffset (SkipBlanks r);
          (if SkipBlanks r \<noteq> [] then None
           else if mo < 1 \<or> mo > 12 \<or> d < 1 \<or> d > 31 \<or> h > 23 \<or> mi > 59 \<or> sec > 59 then None
           else let secs = DaysFromCivil y mo d * 86400 + h * 3600 + mi * 60 + sec
                in Some ((secs - offset_secs) * 10 ^ frac_digits + frac)) }"

fun UnitFractionDigits :: "time_unit \<Rightarrow> nat" where
  "UnitFractionDigits SECOND = 0"
| "UnitFractionDigits MILLI = 3"
| "UnitFractionDigits MICRO = 6"
| "UnitFractionDigits NANO = 9"

subsection \<open>ODBC structs to Arrow values (the struct cases of AppendValue, odbc_reader.c)\<close>

definition FetchTime :: "TIME_STRUCT \<Rightarrow> int" where
  "FetchTime t = t_hour t * 3600 + t_minute t * 60 + t_second t"

text \<open>
  \<^verbatim>\<open>secs * 1000000000LL + fraction\<close> is signed 64-bit arithmetic: \<^const>\<open>None\<close> is overflow, of the
  product or of the sum.
\<close>

definition FetchTimestamp :: "time_unit \<Rightarrow> TIMESTAMP_STRUCT \<Rightarrow> int option" where
  "FetchTimestamp unit t =
     (let secs = DaysFromCivil (year t) (month t) (day t) * 86400 + hour t * 3600
                 + minute t * 60 + second t
      in case unit of
           SECOND \<Rightarrow> Some secs
         | MILLI \<Rightarrow> checked_s64 (secs * 1000) \<bind> (\<lambda>x. checked_s64 (x + fraction t sdiv 1000000))
         | MICRO \<Rightarrow> checked_s64 (secs * 1000000) \<bind> (\<lambda>x. checked_s64 (x + fraction t sdiv 1000))
         | NANO \<Rightarrow> checked_s64 (secs * 1000000000) \<bind> (\<lambda>x. checked_s64 (x + fraction t)))"

subsection \<open>Splitting a value into seconds and ticks\<close>

lemma TicksPerSecond_pos [simp]: "0 < TicksPerSecond unit"
  by (cases unit) auto

lemma TimeOfDay_floor:
  "TimeOfDayFromArrow v unit = (v div TicksPerSecond unit mod 86400, v mod TicksPerSecond unit)"
  using trunc_floor [of "TicksPerSecond unit" v]
    trunc_floor [of 86400 "v div TicksPerSecond unit"]
  by (simp add: TimeOfDayFromArrow_def Let_def split: if_splits)

lemma TimestampUnits_Ticks:
  "TimestampUnits unit = (TicksPerSecond unit, 1000000000 div TicksPerSecond unit)"
  by (cases unit) auto

lemma hms_parts:
  assumes "0 \<le> (s::int)" "s < 86400"
  shows "s sdiv 3600 = s div 3600" "(s smod 3600) sdiv 60 = s mod 3600 div 60" "s smod 60 = s mod 60"
    and "0 \<le> s div 3600" "s div 3600 \<le> 23" "0 \<le> s mod 3600 div 60" "s mod 3600 div 60 \<le> 59"
    and "0 \<le> s mod 60" "s mod 60 \<le> 59"
    and "(s div 3600 * 60 + s mod 3600 div 60) * 60 + s mod 60 = s"
proof -
  have m: "0 \<le> s mod 3600" "s mod 3600 < 3600" by simp_all
  show "s sdiv 3600 = s div 3600" "(s smod 3600) sdiv 60 = s mod 3600 div 60" "s smod 60 = s mod 60"
    using assms m by (simp_all add: c_arith)
  show "0 \<le> s div 3600" "s div 3600 \<le> 23" "0 \<le> s mod 3600 div 60" "s mod 3600 div 60 \<le> 59"
    "0 \<le> s mod 60" "s mod 60 \<le> 59" using assms m by simp_all
  have "s mod 3600 mod 60 = s mod 60" by (simp add: mod_mod_cancel)
  then have "s mod 3600 div 60 * 60 + s mod 60 = s mod 3600"
    using div_mult_mod_eq [of "s mod 3600" 60] by simp
  moreover have "(a * 60 + b) * 60 + c = a * 3600 + (b * 60 + c)" for a b c :: int by simp
  ultimately show "(s div 3600 * 60 + s mod 3600 div 60) * 60 + s mod 60 = s"
    by (simp only: div_mult_mod_eq)
qed

subsection \<open>The scanners on text the driver wrote\<close>

lemma not_digit_table:
  "\<not> is_digit CHR '' ''" "\<not> is_digit CHR 0x09" "\<not> is_digit CHR 0x00" "\<not> is_digit CHR '':''"
  "\<not> is_digit CHR ''.''" "\<not> is_digit CHR '',''" "\<not> is_digit CHR ''-''" "\<not> is_digit CHR ''+''"
  "\<not> is_digit CHR ''Z''" "\<not> is_digit CHR ''z''"
  by code_simp+

lemma scan_digits_all:
  "list_all is_digit ds \<Longrightarrow> scan_digits (length ds) (ds @ r) v = (horner v ds, r)"
proof (induction ds arbitrary: v)
  case Nil
  show ?case by (cases r) auto
qed simp

lemma ScanUInt_ndigits [scan_simps]:
  assumes "n < 10 ^ w" "0 < w"
  shows "ScanUInt w (ndigits w n @ r) = Some (int n, r)"
proof -
  have "scan_digits w (ndigits w n @ r) 0 = (int n, r)"
    using scan_digits_all [OF digits_ndigits, of w n r 0] assms(1) by (simp add: horner_ndigits)
  with assms(2) show ?thesis by (simp add: ScanUInt_def)
qed

lemma SkipBlanks_ndigits [scan_simps]: "0 < w \<Longrightarrow> SkipBlanks (ndigits w n @ r) = ndigits w n @ r"
proof -
  assume "0 < w"
  then obtain c cs where c: "ndigits w n = c # cs" by (cases "ndigits w n") (auto dest: arg_cong [of _ _ length])
  then have "is_digit c" using digits_ndigits [of w n] by simp
  then have "c \<noteq> CHR '' ''" "c \<noteq> CHR 0x09" "c \<noteq> CHR 0x00" using not_digit_table by auto
  then show ?thesis by (simp add: c SkipBlanks_def)
qed

lemma scan_frac_all:
  assumes "list_all is_digit ds" and "\<not> (\<exists>c cs. r = c # cs \<and> is_digit c)" and "k \<le> want"
  shows "scan_frac want k v (ds @ r) = (horner v (take (want - k) ds), min want (k + length ds), r)"
  using assms
proof (induction ds arbitrary: k v)
  case Nil
  then show ?case by (cases r) auto
next
  case (Cons c ds)
  show ?case
  proof (cases "k < want")
    case True
    then have "want - k = Suc (want - Suc k)" by simp
    with True Cons show ?thesis by simp
  next
    case False
    with Cons show ?thesis by simp
  qed
qed

lemma ScanFraction_all [scan_simps]:
  assumes "list_all is_digit ds" and "\<not> (\<exists>c cs. r = c # cs \<and> is_digit c)"
  shows "ScanFractionDigits want (CHR ''.'' # ds @ r)
       = (horner 0 (take want ds) * 10 ^ (want - length ds), r)"
proof -
  have "want - min want (length ds) = want - length ds" by simp
  with scan_frac_all [OF assms, of 0 want 0] show ?thesis by (simp add: ScanFractionDigits_def)
qed

lemma ScanFraction_none [scan_simps]:
  "\<not> (\<exists>c cs. s = c # cs \<and> (c = CHR ''.'' \<or> c = CHR '','')) \<Longrightarrow> ScanFractionDigits want s = (0, s)"
  by (cases s) (auto simp: ScanFractionDigits_def)

lemma take_ndigits: "k \<le> w \<Longrightarrow> take k (ndigits w n) = ndigits k (n div 10 ^ (w - k))"
proof (induction w arbitrary: n)
  case (Suc w)
  show ?case
  proof (cases "k = Suc w")
    case False
    with Suc.prems have "k \<le> w" by simp
    moreover from this have "n div 10 div 10 ^ (w - k) = n div 10 ^ (Suc w - k)"
      by (simp add: div_mult2_eq Suc_diff_le)
    ultimately show ?thesis using Suc.IH [of "n div 10"] by simp
  qed simp
qed simp

text \<open>What may follow a fraction: the end of the text, or a zone.\<close>

definition zone_tail :: "string \<Rightarrow> bool" where
  "zone_tail r \<longleftrightarrow> (case r of [] \<Rightarrow> True | c # _ \<Rightarrow> c = CHR ''Z'' \<or> c = CHR ''+'' \<or> c = CHR ''-'')"

lemma zone_tail_not:
  assumes "zone_tail r"
  shows "\<not> (\<exists>c cs. r = c # cs \<and> is_digit c)"
    and "\<not> (\<exists>c cs. r = c # cs \<and> (c = CHR ''.'' \<or> c = CHR '',''))"
    and "SkipBlanks r = r"
  using assms not_digit_table by (auto simp: zone_tail_def SkipBlanks_def split: list.splits)

lemma ScanFraction_ndigits [scan_simps]:
  assumes "n < 10 ^ w" and "zone_tail r"
  shows "ScanFractionDigits want (CHR ''.'' # ndigits w n @ r)
       = (int (if want \<le> w then n div 10 ^ (w - want) else n * 10 ^ (want - w)), r)"
proof -
  have "ScanFractionDigits want (CHR ''.'' # ndigits w n @ r)
      = (horner 0 (take want (ndigits w n)) * 10 ^ (want - w), r)"
    using zone_tail_not [OF assms(2)] by (subst ScanFraction_all) (simp_all add: digits_ndigits)
  moreover have "horner 0 (take want (ndigits w n)) * 10 ^ (want - w)
      = int (if want \<le> w then n div 10 ^ (w - want) else n * 10 ^ (want - w))"
  proof (cases "want \<le> w")
    case True
    have "n div 10 ^ (w - want) < 10 ^ want"
      using assms(1) True by (simp add: less_mult_imp_div_less power_add [symmetric])
    with True show ?thesis by (simp add: take_ndigits horner_ndigits)
  next
    case False
    with assms(1) show ?thesis by (simp add: horner_ndigits)
  qed
  ultimately show ?thesis by simp
qed

lemma OptColon_ndigits [scan_simps]:
  "n < 100 \<Longrightarrow> OptColonUInt (CHR '':'' # ndigits 2 n @ r) = Some (int n, r)"
  using ScanUInt_ndigits [of n 2 r] by (simp add: OptColonUInt_def)

lemma SkipBlanks_Nil [scan_simps]: "SkipBlanks [] = []"
  by (simp add: SkipBlanks_def)

subsection \<open>Times of day\<close>

lemma int_div_less:
  assumes "0 < (t::int)" "a < p * t"
  shows "a div t < p"
proof (rule ccontr)
  assume "\<not> a div t < p"
  then have "p * t \<le> a div t * t" using assms(1) by (simp add: mult_right_mono)
  also have "\<dots> \<le> a" using div_mult_mod_eq [of a t] pos_mod_sign [OF assms(1), of a] by linarith
  finally show False using assms(2) by simp
qed

lemma scaled_fraction:
  assumes "0 \<le> f" "f < (t::int)" "0 < p"
  shows "0 \<le> f * p div t" "f * p div t < p"
  using assms by (auto intro!: int_div_less simp: pos_imp_zdiv_nonneg_iff mult.commute [of f])

lemma two_digits: "0 \<le> x \<Longrightarrow> x \<le> 99 \<Longrightarrow> fmt_0d 2 x = ndigits 2 (nat x)"
  by (simp add: fmt_0d_ndigits)

lemma two_digits_s32: "0 \<le> x \<Longrightarrow> x \<le> 99 \<Longrightarrow> fmt_0d 2 (s32 x) = ndigits 2 (nat x)"
  by (simp add: s32_id two_digits)

lemma TimeText_eq:
  assumes "64 \<le> out_size"
  shows "TimeTextFromArrow v unit out_size =
     (let s = v div TicksPerSecond unit mod 86400; digits = FractionalDigits unit;
          text = ndigits 2 (nat (s div 3600)) @ '':'' @ ndigits 2 (nat (s mod 3600 div 60)) @ '':''
            @ ndigits 2 (nat (s mod 60))
            @ (if digits = 0 then [] else CHR ''.'' #
                 ndigits digits (nat (v mod TicksPerSecond unit * 10 ^ digits div TicksPerSecond unit)))
      in (length text, text))"
proof -
  let ?t = "TicksPerSecond unit" and ?d = "FractionalDigits unit"
  define s where "s = v div ?t mod 86400"
  define f where "f = v mod ?t"
  have s: "0 \<le> s" "s < 86400" by (simp_all add: s_def)
  note h = hms_parts [OF s]
  have f: "0 \<le> f" "f < ?t" by (simp_all add: f_def)
  have fd: "f * 10 ^ ?d sdiv ?t = f * 10 ^ ?d div ?t" using f by (simp add: sdiv_nonneg)
  have F: "?d \<noteq> 0 \<Longrightarrow> fmt_0d ?d (f * 10 ^ ?d div ?t) = ndigits ?d (nat (f * 10 ^ ?d div ?t))"
    using scaled_fraction [OF f, of "10 ^ ?d"] by (simp add: fmt_0d_ndigits)
  have hms: "fmt_0d 2 (s32 (s sdiv 3600)) = ndigits 2 (nat (s div 3600))"
    "fmt_0d 2 (s32 ((s smod 3600) sdiv 60)) = ndigits 2 (nat (s mod 3600 div 60))"
    "fmt_0d 2 (s32 (s smod 60)) = ndigits 2 (nat (s mod 60))"
    unfolding h(1-3) by (rule two_digits_s32; use h(4-9) in linarith)+
  have "?d \<le> 7" by (cases unit) auto
  then show ?thesis
    unfolding TimeTextFromArrow_def TimeOfDay_floor s_def [symmetric] f_def [symmetric] Let_def
    using assms by (simp add: hms fd F snprintf_def)
qed

definition frac_text :: "nat \<Rightarrow> nat \<Rightarrow> string" where
  "frac_text w F = (if w = 0 then [] else CHR ''.'' # ndigits w F)"

definition rescale :: "nat \<Rightarrow> nat \<Rightarrow> nat \<Rightarrow> nat" where
  "rescale w want F = (if want \<le> w then F div 10 ^ (w - want) else F * 10 ^ (want - w))"

lemma ScanFraction_text:
  assumes "F < 10 ^ w" and "zone_tail r"
  shows "ScanFractionDigits want (frac_text w F @ r) = (int (rescale w want F), r)"
  using assms zone_tail_not [OF assms(2)]
  by (cases "w = 0") (simp_all add: frac_text_def rescale_def ScanFraction_ndigits ScanFraction_none)

lemmas ScanFraction_text_end = ScanFraction_text [of _ _ "[]", simplified zone_tail_def, simplified]

lemma ParseTime_written:
  assumes "h < 24" "m < 60" "sec < 60" "F < 10 ^ w"
  shows "ParseTimeScaled (ndigits 2 h @ CHR '':'' # ndigits 2 m @ CHR '':'' # ndigits 2 sec @ frac_text w F) fd
       = Some (((int h * 60 + int m) * 60 + int sec) * 10 ^ fd + int (rescale w fd F))"
  using assms by (simp add: ParseTimeScaled_def scan_simps ScanFraction_text_end)

lemma time_scale:
  assumes "0 \<le> f" "f < TicksPerSecond unit"
  defines "F \<equiv> nat (f * 10 ^ FractionalDigits unit div TicksPerSecond unit)"
  shows "s * 10 ^ UnitFractionDigits unit +
      int (rescale (FractionalDigits unit) (UnitFractionDigits unit) F)
    = (let t = s * TicksPerSecond unit + f in if unit = NANO then t div 100 * 100 else t)"
proof (cases unit)
  case NANO
  have "f * 10000000 div 1000000000 = f div 100"
    using div_mult_mult2 [of 10000000 f 100] by simp
  then have "int F = f div 100" using NANO assms(1) by (simp add: F_def pos_imp_zdiv_nonneg_iff)
  moreover have "(s * 1000000000 + f) div 100 = s * 10000000 + f div 100"
    using div_mult_self3 [of 100 "s * 10000000" f] by simp
  ultimately show ?thesis using NANO by (simp add: Let_def rescale_def)
qed (use assms(1,2) in \<open>simp_all add: F_def rescale_def\<close>)

text \<open>
  A sub-second time of day bound as text reads back as itself: the text \<open>TimeTextFromArrow\<close>
  writes into the 64-byte slot is never cut, has exactly the declared column size, and
  \<open>ParseTimeScaled\<close> returns the time of day it came from (wrapped into one day, as the write
  path does; nanoseconds keep the seven digits the text carries).
\<close>

theorem time_text_roundtrip:
  "fst (TimeTextFromArrow v unit 64) = TimeParamColumnSize unit
   \<and> length (snd (TimeTextFromArrow v unit 64)) = TimeParamColumnSize unit
   \<and> ParseTimeScaled (snd (TimeTextFromArrow v unit 64)) (UnitFractionDigits unit)
     = Some (let t = v mod (86400 * TicksPerSecond unit) in if unit = NANO then t div 100 * 100 else t)"
proof -
  let ?t = "TicksPerSecond unit" and ?d = "FractionalDigits unit"
  define s where "s = v div ?t mod 86400"
  define f where "f = v mod ?t"
  have s: "0 \<le> s" "s < 86400" by (simp_all add: s_def)
  note h = hms_parts [OF s]
  have f: "0 \<le> f" "f < ?t" by (simp_all add: f_def)
  define F where "F = nat (f * 10 ^ ?d div ?t)"
  have F: "F < 10 ^ ?d"
    using scaled_fraction [OF f, of "10 ^ ?d"] by (simp add: F_def nat_less_iff)
  have split: "v mod (86400 * ?t) = s * ?t + f"
    by (simp add: s_def f_def mult.commute [of 86400] zmod_zmult2_eq)
  have val: "s * 10 ^ UnitFractionDigits unit + int (rescale ?d (UnitFractionDigits unit) F)
    = (let t = s * ?t + f in if unit = NANO then t div 100 * 100 else t)"
    unfolding F_def by (rule time_scale [OF f])
  define hh mm ss where "hh = nat (s div 3600)" and "mm = nat (s mod 3600 div 60)" and "ss = nat (s mod 60)"
  have b: "hh < 24" "mm < 60" "ss < 60"
    unfolding hh_def mm_def ss_def using h(4-9) by linarith+
  have s': "(int hh * 60 + int mm) * 60 + int ss = s"
    unfolding hh_def mm_def ss_def using h(4,6,8,10) by simp
  have written: "TimeTextFromArrow v unit 64 =
      (let text = ndigits 2 hh @ CHR '':'' # ndigits 2 mm @ CHR '':'' # ndigits 2 ss @ frac_text ?d F
       in (length text, text))"
    unfolding TimeText_eq [OF order_refl] s_def [symmetric] f_def [symmetric]
    by (simp add: Let_def hh_def mm_def ss_def F_def frac_text_def)
  have "length (frac_text ?d F) = (if ?d = 0 then 0 else Suc ?d)" by (simp add: frac_text_def)
  then show ?thesis
    unfolding written Let_def fst_conv snd_conv ParseTime_written [OF b F] s' split
    using val by (simp add: TimeParamColumnSize_def Let_def)
qed

subsection \<open>Timestamps\<close>

lemma TimestampFromArrow_floor:
  "TimestampFromArrow v unit =
     (let secs = v div TicksPerSecond unit; sod = secs mod 86400;
          (y, m, d) = CivilFromDays (secs div 86400)
      in \<lparr>year = s16 y, month = u16 m, day = u16 d,
          hour = u16 (sod sdiv 3600), minute = u16 ((sod smod 3600) sdiv 60),
          second = u16 (sod smod 60),
          fraction = u32 (v mod TicksPerSecond unit * (1000000000 div TicksPerSecond unit))\<rparr>)"
  using trunc_floor [of "TicksPerSecond unit" v]
    trunc_floor [of 86400 "v div TicksPerSecond unit"]
  by (simp add: TimestampFromArrow_def TimestampUnits_Ticks Let_def split: if_splits)

lemma ns_fraction:
  assumes "0 \<le> f" "f < TicksPerSecond unit"
  shows "0 \<le> f * (1000000000 div TicksPerSecond unit)"
    and "f * (1000000000 div TicksPerSecond unit) < 1000000000"
  using assms by (cases unit; simp)+

text \<open>The civil day of a timestamp, and its year before any narrowing cast.\<close>

definition ts_day :: "int \<Rightarrow> time_unit \<Rightarrow> int" where
  "ts_day v unit = v div TicksPerSecond unit div 86400"

definition ts_year :: "int \<Rightarrow> time_unit \<Rightarrow> int" where
  "ts_year v unit = civil_year (ts_day v unit)"

lemma TimestampFromArrow_fields:
  assumes "INT16_MIN \<le> ts_year v unit" "ts_year v unit \<le> INT16_MAX"
  obtains m d where
    "TimestampFromArrow v unit =
       (let sod = v div TicksPerSecond unit mod 86400
        in \<lparr>year = ts_year v unit, month = m, day = d, hour = sod div 3600,
            minute = sod mod 3600 div 60, second = sod mod 60,
            fraction = v mod TicksPerSecond unit * (1000000000 div TicksPerSecond unit)\<rparr>)"
    "DaysFromCivil (ts_year v unit) m d = ts_day v unit" "1 \<le> m" "m \<le> 12" "1 \<le> d" "d \<le> 31"
proof -
  obtain y m d where c: "CivilFromDays (ts_day v unit) = (y, m, d)"
    by (cases "CivilFromDays (ts_day v unit)")
  have v: "valid_date (y, m, d)" "y = ts_year v unit" "DaysFromCivil y m d = ts_day v unit"
    using CivilFromDays_valid [of "ts_day v unit"] assms by (auto simp: c ts_year_def)
  have b: "1 \<le> m" "m \<le> 12" "1 \<le> d" "d \<le> 31"
    using v(1) by (auto simp: valid_date_def month_days_def split: if_splits)
  define sod where "sod = v div TicksPerSecond unit mod 86400"
  have sod: "0 \<le> sod" "sod < 86400" by (simp_all add: sod_def)
  note h = hms_parts [OF sod]
  have u: "u16 (sod div 3600) = sod div 3600" "u16 (sod mod 3600 div 60) = sod mod 3600 div 60"
    "u16 (sod mod 60) = sod mod 60" "u16 m = m" "u16 d = d" "s16 y = y"
    by (rule u16_id s16_id; use h(4-9) b v(2) assms in linarith)+
  have f: "0 \<le> v mod TicksPerSecond unit" "v mod TicksPerSecond unit < TicksPerSecond unit"
    by simp_all
  have "u32 (v mod TicksPerSecond unit * (1000000000 div TicksPerSecond unit))
      = v mod TicksPerSecond unit * (1000000000 div TicksPerSecond unit)"
    using ns_fraction [OF f] by (simp add: u32_id)
  then have "TimestampFromArrow v unit =
       (let sod = v div TicksPerSecond unit mod 86400
        in \<lparr>year = ts_year v unit, month = m, day = d, hour = sod div 3600,
            minute = sod mod 3600 div 60, second = sod mod 60,
            fraction = v mod TicksPerSecond unit * (1000000000 div TicksPerSecond unit)\<rparr>)"
    unfolding TimestampFromArrow_floor ts_day_def [symmetric] c Let_def sod_def [symmetric] h(1-3)
    using u v(2) by simp
  then show thesis using that v(2,3) b by simp
qed

lemma secs_of_fields:
  assumes "DaysFromCivil y m d = ts_day v unit" "sod = v div TicksPerSecond unit mod 86400"
  shows "DaysFromCivil y m d * 86400 + sod div 3600 * 3600 + sod mod 3600 div 60 * 60 + sod mod 60
       = v div TicksPerSecond unit"
proof -
  have s: "0 \<le> sod" "sod < 86400" by (simp_all add: assms(2))
  have "sod div 3600 * 3600 + sod mod 3600 div 60 * 60 + sod mod 60 = sod"
    using hms_parts(10) [OF s] by (simp add: algebra_simps)
  moreover have "ts_day v unit * 86400 + sod = v div TicksPerSecond unit"
    unfolding ts_day_def assms(2) by (rule div_mult_mod_eq)
  ultimately show ?thesis using assms(1) by (simp add: algebra_simps)
qed

text \<open>
  C27. A timestamp bound as an ODBC struct and fetched back through an ODBC struct is the same
  Arrow value, in every unit, negative values (before 1970) included, as long as its year fits
  the struct's 16-bit field and the whole seconds of the value do not overflow \<open>int64_t\<close>.
\<close>

theorem timestamp_struct_roundtrip:
  assumes "is_s64 v" "is_s64 (v - v mod TicksPerSecond unit)"
    and "INT16_MIN \<le> ts_year v unit" "ts_year v unit \<le> INT16_MAX"
  shows "FetchTimestamp unit (TimestampFromArrow v unit) = Some v"
proof -
  let ?t = "TicksPerSecond unit"
  obtain m d where ts: "TimestampFromArrow v unit =
       (let sod = v div ?t mod 86400
        in \<lparr>year = ts_year v unit, month = m, day = d, hour = sod div 3600,
            minute = sod mod 3600 div 60, second = sod mod 60,
            fraction = v mod ?t * (1000000000 div ?t)\<rparr>)"
    and day: "DaysFromCivil (ts_year v unit) m d = ts_day v unit"
    by (rule TimestampFromArrow_fields [OF assms(3,4)])
  note secs = secs_of_fields [OF day refl]
  have w: "v div ?t * ?t = v - v mod ?t" by (simp add: minus_mod_eq_div_mult)
  have f: "0 \<le> v mod ?t" by simp
  have q: "is_s64 (v div ?t * ?t)" "v div ?t * ?t + v mod ?t = v" using assms(2) by (simp_all add: w)
  show ?thesis
    unfolding ts Let_def FetchTimestamp_def TIMESTAMP_STRUCT.simps secs
    using q assms(1) f by (cases unit) (simp_all add: checked_s64_def sdiv_nonneg)
qed

theorem timestamp_struct_roundtrip_witness:
  "ts_year (- 1) MICRO = 1969
   \<and> FetchTimestamp MICRO (TimestampFromArrow (- 1) MICRO) = Some (- 1)"
proof -
  have y: "ts_year (- 1) MICRO = 1969" by code_simp
  show ?thesis using timestamp_struct_roundtrip [of "- 1" MICRO] y by (simp add: is_s64_def)
qed

subsection \<open>Timestamps as text\<close>

definition stamp_text :: "nat \<Rightarrow> nat \<Rightarrow> nat \<Rightarrow> nat \<Rightarrow> nat \<Rightarrow> nat \<Rightarrow> nat \<Rightarrow> nat \<Rightarrow> string" where
  "stamp_text y mo d h mi sec w F =
     ndigits 4 y @ CHR ''-'' # ndigits 2 mo @ CHR ''-'' # ndigits 2 d @ CHR '' '' #
     ndigits 2 h @ CHR '':'' # ndigits 2 mi @ CHR '':'' # ndigits 2 sec @ frac_text w F"

lemma ParseClock_written [scan_simps]:
  assumes "h < 100" "mi < 100" "sec < 100" "F < 10 ^ w" "zone_tail z"
  shows "ParseClock fd (CHR '' '' # ndigits 2 h @ CHR '':'' # ndigits 2 mi @ CHR '':'' # ndigits 2 sec
           @ frac_text w F @ z) = Some ((int h, int mi, int sec, int (rescale w fd F)), z)"
  using assms by (simp add: ParseClock_def scan_simps ScanFraction_text)

lemma ParseTimestamp_written:
  assumes "y < 10000" "1 \<le> mo" "mo \<le> 12" "1 \<le> d" "d \<le> 31" "h < 24" "mi < 60" "sec < 60" "F < 10 ^ w"
    and "zone_tail z" "ParseOffset z = Some (off, [])"
  shows "ParseTimestampUtcScaled (stamp_text y mo d h mi sec w F @ z) fd
       = Some ((DaysFromCivil (int y) (int mo) (int d) * 86400 + int h * 3600 + int mi * 60 + int sec - off)
               * 10 ^ fd + int (rescale w fd F))"
  using assms zone_tail_not(3) [OF assms(10)]
  by (simp add: ParseTimestampUtcScaled_def stamp_text_def scan_simps Let_def)

lemma ParseOffset_Nil [scan_simps]: "ParseOffset [] = Some (0, [])"
  by (simp add: ParseOffset_def)

lemma TimestampText_eq:
  fixes ts :: TIMESTAMP_STRUCT and unit :: time_unit
  assumes "0 \<le> year ts" "year ts \<le> 9999" "1 \<le> month ts" "month ts \<le> 12" "1 \<le> day ts" "day ts \<le> 31"
    "0 \<le> hour ts" "hour ts \<le> 23" "0 \<le> minute ts" "minute ts \<le> 59" "0 \<le> second ts" "second ts \<le> 59"
    "0 \<le> fraction ts" "fraction ts < 1000000000" "64 \<le> out_size"
  defines "w \<equiv> FractionalDigits unit"
  shows "TimestampTextFromStruct ts unit out_size =
     (TimestampTextColumnSize unit,
      stamp_text (nat (year ts)) (nat (month ts)) (nat (day ts)) (nat (hour ts)) (nat (minute ts))
        (nat (second ts)) w (nat (fraction ts div 10 ^ (9 - w))))"
proof -
  have y: "fmt_0d 4 (year ts) = ndigits 4 (nat (year ts))" using assms by (simp add: fmt_0d_ndigits)
  have two: "fmt_0d 2 (month ts) = ndigits 2 (nat (month ts))" "fmt_0d 2 (day ts) = ndigits 2 (nat (day ts))"
    "fmt_0d 2 (hour ts) = ndigits 2 (nat (hour ts))" "fmt_0d 2 (minute ts) = ndigits 2 (nat (minute ts))"
    "fmt_0d 2 (second ts) = ndigits 2 (nat (second ts))"
    using assms by (auto intro!: two_digits)
  have q: "fraction ts sdiv 10 ^ (9 - w) = fraction ts div 10 ^ (9 - w)"
    "0 \<le> fraction ts div 10 ^ (9 - w)"
    using assms(13) by (simp_all add: sdiv_nonneg pos_imp_zdiv_nonneg_iff)
  have "fraction ts div 10 ^ (9 - w) < 10 ^ w"
    using assms(14) unfolding w_def by (intro int_div_less; cases unit) simp_all
  then have f: "w \<noteq> 0 \<Longrightarrow> fmt_0d w (fraction ts div 10 ^ (9 - w)) = ndigits w (nat (fraction ts div 10 ^ (9 - w)))"
    using q(2) by (simp add: fmt_0d_ndigits)
  have w7: "w \<le> 7" unfolding w_def by (cases unit) auto
  show ?thesis
    unfolding TimestampTextFromStruct_def Let_def w_def [symmetric] y two q(1) TimestampTextColumnSize_def
    using f w7 assms(15) by (simp add: snprintf_def stamp_text_def frac_text_def)
qed

lemmas TimestampText_fields =
  TimestampText_eq [of "\<lparr>year = y, month = mo, day = d, hour = h, minute = mi, second = sec, fraction = f\<rparr>"
    for y mo d h mi sec f, unfolded TIMESTAMP_STRUCT.select_convs]

lemma micro_of_unit:
  assumes "0 \<le> f" "f < TicksPerSecond unit"
  defines "w \<equiv> FractionalDigits unit"
  shows "s * 1000000 + int (rescale w 6 (nat (f * (1000000000 div TicksPerSecond unit) div 10 ^ (9 - w))))
       = (s * TicksPerSecond unit + f) * 1000000 div TicksPerSecond unit"
proof (cases unit)
  case MILLI
  then show ?thesis using assms(1) by (simp add: w_def rescale_def algebra_simps)
next
  case NANO
  have "nat (f div 100) div 10 = nat (f div 1000)"
    using assms(1) by (simp add: nat_div_distrib [symmetric] pos_imp_zdiv_nonneg_iff zdiv_zmult2_eq [symmetric])
  moreover have "(s * 1000000000 + f) * 1000000 div 1000000000 = s * 1000000 + f div 1000"
    using div_mult_mult2 [of 1000000 "s * 1000000000 + f" 1000] div_mult_self3 [of 1000 "s * 1000000" f]
    by simp
  ultimately show ?thesis using NANO assms(1) by (simp add: w_def rescale_def pos_imp_zdiv_nonneg_iff)
qed (use assms in \<open>simp_all add: rescale_def\<close>)

text \<open>
  C28. A timestamp sent as text (the quirks for drivers with no timestamp struct) and read back
  from that text, as the reader does for such a driver (always in microseconds), is the value it
  started as, to the microsecond: exact for seconds, milliseconds and microseconds, and rounded
  down for nanoseconds.  Years 0 to 9999; the text is never cut and has the declared size.
\<close>

theorem timestamp_text_roundtrip:
  assumes "0 \<le> ts_year v unit" "ts_year v unit \<le> 9999"
  defines "out \<equiv> TimestampTextFromStruct (TimestampFromArrow v unit) unit 64"
  shows "fst out = TimestampTextColumnSize unit \<and> length (snd out) = TimestampTextColumnSize unit
       \<and> ParseTimestampUtcScaled (snd out) (UnitFractionDigits MICRO)
         = Some (v * 1000000 div TicksPerSecond unit)"
proof -
  let ?t = "TicksPerSecond unit" let ?w = "FractionalDigits unit"
  have yr: "INT16_MIN \<le> ts_year v unit" "ts_year v unit \<le> INT16_MAX" using assms(1,2) by simp_all
  obtain m d where ts: "TimestampFromArrow v unit =
       (let sod = v div ?t mod 86400
        in \<lparr>year = ts_year v unit, month = m, day = d, hour = sod div 3600,
            minute = sod mod 3600 div 60, second = sod mod 60,
            fraction = v mod ?t * (1000000000 div ?t)\<rparr>)"
    and day: "DaysFromCivil (ts_year v unit) m d = ts_day v unit" "1 \<le> m" "m \<le> 12" "1 \<le> d" "d \<le> 31"
    by (rule TimestampFromArrow_fields [OF yr])
  define sod where "sod = v div ?t mod 86400"
  have sod: "0 \<le> sod" "sod < 86400" by (simp_all add: sod_def)
  note h = hms_parts(4-9) [OF sod]
  have f: "0 \<le> v mod ?t" "v mod ?t < ?t" by simp_all
  note nf = ns_fraction [OF f]
  define hh mi ss F where "hh = nat (sod div 3600)" and "mi = nat (sod mod 3600 div 60)"
    and "ss = nat (sod mod 60)" and "F = nat (v mod ?t * (1000000000 div ?t) div 10 ^ (9 - ?w))"
  have out: "out = (TimestampTextColumnSize unit,
      stamp_text (nat (ts_year v unit)) (nat m) (nat d) hh mi ss ?w F)"
    unfolding out_def hh_def mi_def ss_def F_def ts Let_def sod_def [symmetric]
    by (rule TimestampText_fields [OF assms(1,2) day(2-5) h nf order_refl])
  have F: "F < 10 ^ ?w"
  proof -
    have "v mod ?t * (1000000000 div ?t) div 10 ^ (9 - ?w) < 10 ^ ?w"
      using nf by (intro int_div_less; cases unit) simp_all
    then show ?thesis by (simp add: F_def nat_less_iff)
  qed
  have b: "hh < 24" "mi < 60" "ss < 60" unfolding hh_def mi_def ss_def using h by linarith+
  have hms: "int hh = sod div 3600" "int mi = sod mod 3600 div 60" "int ss = sod mod 60"
    unfolding hh_def mi_def ss_def using h by simp_all
  have zt: "zone_tail []" "ParseOffset [] = Some (0, [])" by (simp_all add: zone_tail_def scan_simps)
  have parse: "ParseTimestampUtcScaled (stamp_text (nat (ts_year v unit)) (nat m) (nat d) hh mi ss ?w F @ []) 6
      = Some ((DaysFromCivil (ts_year v unit) m d * 86400 + sod div 3600 * 3600
               + sod mod 3600 div 60 * 60 + sod mod 60 - 0) * 10 ^ 6 + int (rescale ?w 6 F))"
    using assms(1,2) day(2-5) by (subst ParseTimestamp_written [OF _ _ _ _ _ b F zt]) (simp_all add: hms)
  have len: "length (stamp_text (nat (ts_year v unit)) (nat m) (nat d) hh mi ss ?w F)
      = TimestampTextColumnSize unit"
    by (simp add: stamp_text_def frac_text_def TimestampTextColumnSize_def Let_def)
  have "v div ?t * 1000000 + int (rescale ?w 6 F) = v * 1000000 div ?t"
    using micro_of_unit [OF f, of "v div ?t"] unfolding F_def [symmetric] div_mult_mod_eq .
  moreover have "(10::int) ^ 6 = 1000000" "UnitFractionDigits MICRO = 6" by simp_all
  ultimately have "ParseTimestampUtcScaled (stamp_text (nat (ts_year v unit)) (nat m) (nat d) hh mi ss ?w F)
      (UnitFractionDigits MICRO) = Some (v * 1000000 div ?t)"
    using parse unfolding append_Nil2 diff_0_right secs_of_fields [OF day(1) sod_def] by metis
  then show ?thesis unfolding out fst_conv snd_conv using len by blast
qed

theorem timestamp_text_roundtrip_witness:
  "ts_year 1709214310123456789 NANO = 2024
   \<and> ParseTimestampUtcScaled (snd (TimestampTextFromStruct (TimestampFromArrow 1709214310123456789 NANO) NANO 64))
       (UnitFractionDigits MICRO) = Some 1709214310123456"
proof -
  have y: "ts_year 1709214310123456789 NANO = 2024" by code_simp
  show ?thesis using timestamp_text_roundtrip [of 1709214310123456789 NANO] y by simp
qed

text \<open>
  A zone offset is applied, and applied with the right sign: for every well-formed date, time
  and offset, the text with \<open>+HH:MM\<close> (or \<open>-HH:MM\<close>) appended reads as the instant of the text
  without it minus (plus) that offset; without an offset the text is taken as UTC.
\<close>

theorem timestamp_zone_offset:
  assumes "y < 10000" "1 \<le> mo" "mo \<le> 12" "1 \<le> d" "d \<le> 31" "h < 24" "mi < 60" "sec < 60"
    and "F < 10 ^ w" and "oh < 24" "om < 60" and "sign = CHR ''+'' \<or> sign = CHR ''-''"
  defines "base \<equiv> stamp_text y mo d h mi sec w F"
    and "local \<equiv> DaysFromCivil (int y) (int mo) (int d) * 86400 + int h * 3600 + int mi * 60 + int sec"
    and "off \<equiv> (if sign = CHR ''-'' then - 1 else 1) * (int oh * 3600 + int om * 60)"
  shows "ParseTimestampUtcScaled base fd = Some (local * 10 ^ fd + int (rescale w fd F))
       \<and> ParseTimestampUtcScaled (base @ ''Z'') fd = Some (local * 10 ^ fd + int (rescale w fd F))
       \<and> ParseTimestampUtcScaled (base @ sign # ndigits 2 oh @ CHR '':'' # ndigits 2 om) fd
         = Some ((local - off) * 10 ^ fd + int (rescale w fd F))"
proof (intro conjI)
  note written = ParseTimestamp_written [OF assms(1-9)]
  show "ParseTimestampUtcScaled base fd = Some (local * 10 ^ fd + int (rescale w fd F))"
    using written [of "[]" 0 fd] by (simp add: base_def local_def zone_tail_def scan_simps)
  show "ParseTimestampUtcScaled (base @ ''Z'') fd = Some (local * 10 ^ fd + int (rescale w fd F))"
    using written [of "''Z''" 0 fd] by (simp add: base_def local_def zone_tail_def ParseOffset_def)
  have "ParseOffset (sign # ndigits 2 oh @ CHR '':'' # ndigits 2 om) = Some (off, [])"
    using assms(10-12) ScanUInt_ndigits [of om 2 "[]"]
    by (auto simp: ParseOffset_def scan_simps off_def)
  moreover have "zone_tail (sign # ndigits 2 oh @ CHR '':'' # ndigits 2 om)"
    using assms(12) by (auto simp: zone_tail_def)
  ultimately show "ParseTimestampUtcScaled (base @ sign # ndigits 2 oh @ CHR '':'' # ndigits 2 om) fd
         = Some ((local - off) * 10 ^ fd + int (rescale w fd F))"
    unfolding base_def local_def by (intro written)
qed

theorem timestamp_zone_offset_witness:
  "ParseTimestampUtcScaled ''2024-02-29 13:45:10.5+05:30'' 3 = Some 1709194510500"
proof -
  have t: "stamp_text 2024 2 29 13 45 10 1 5 @ CHR ''+'' # ndigits 2 5 @ CHR '':'' # ndigits 2 30
      = ''2024-02-29 13:45:10.5+05:30''" by code_simp
  have v: "(DaysFromCivil 2024 2 29 * 86400 + 13 * 3600 + 45 * 60 + 10 - (5 * 3600 + 30 * 60)) * 10 ^ 3
      + int (rescale 1 3 5) = 1709194510500" by code_simp
  show ?thesis
    using timestamp_zone_offset [of 2024 2 29 13 45 10 5 1 5 30 "CHR ''+''" 3] v
    unfolding t by simp
qed

subsection \<open>The range of nanosecond timestamps\<close>

lemma DaysFromCivil_year_mono:
  assumes "valid_date (y, m, d)" "y1 \<le> y" "y \<le> y2"
  shows "DaysFromCivil y1 1 1 \<le> DaysFromCivil y m d" "DaysFromCivil y m d \<le> DaysFromCivil y2 12 31"
proof -
  have b: "1 \<le> m" "m \<le> 12" "1 \<le> d" "d \<le> 31"
    using assms(1) by (auto simp: valid_date_def month_days_def split: if_splits)
  let ?y = "y - (if m \<le> 2 then 1 else 0)"
  note dr = doy_range [OF assms(1)]
  have m2: "(m \<le> 2) = (306 \<le> month_start m)"
  proof -
    have "\<forall>m \<in> set [1..12]. (m \<le> 2) = (306 \<le> month_start m)" by code_simp
    then show ?thesis using b by simp
  qed
  have l305: "m > 2 \<Longrightarrow> month_start m + d - 1 \<le> 305"
  proof -
    assume "m > 2"
    moreover have "\<forall>x \<in> set [0..365]. (month_of x \<le> 2) = (306 \<le> x)" by code_simp
    moreover have "month_start m + d - 1 \<in> set [0..365]" using dr(1,2) by (auto split: if_splits)
    ultimately have "(month_of (month_start m + d - 1) \<le> 2) = (306 \<le> month_start m + d - 1)"
      by (blast dest: bspec)
    with dr(3) \<open>m > 2\<close> show ?thesis by simp
  qed
  have ms0: "0 \<le> month_start m" using month_start_table b(1,2) by simp
  have D: "DaysFromCivil y m d = year_start ?y + month_start m + d - 1 - 719468"
    using b by (simp add: DaysFromCivil_closed)
  have Y: "year_start (y1 - 1) \<le> year_start (y - 1)" "year_start y \<le> year_start y2"
    using assms by (simp_all add: year_start_mono)
  have step: "year_start y = year_start (y - 1) + (if leap y then 366 else 365)"
    using year_start_succ [of "y - 1"] by simp
  show "DaysFromCivil y1 1 1 \<le> DaysFromCivil y m d"
    unfolding D using Y b m2 ms0 step by (simp add: DaysFromCivil_closed month_start_def split: if_splits)
  show "DaysFromCivil y m d \<le> DaysFromCivil y2 12 31"
    unfolding D using Y b dr(2) l305 step
    by (cases "m \<le> 2") (simp_all add: DaysFromCivil_closed month_start_def split: if_splits)
qed

text \<open>
  Which nanosecond timestamps can be read at all.  For a real calendar date and time, the
  nanosecond arm of the fetch is exact in the years 1678 to 2261, and from 2263 on its 64-bit
  product overflows: a \<^verbatim>\<open>TIMESTAMP(9)\<close> column holding the customary 9999-12-31 is not reported as
  an error, it is undefined behaviour.
\<close>

theorem timestamp_nano_range:
  assumes "valid_date (year t, month t, day t)"
    and "0 \<le> hour t" "hour t \<le> 23" "0 \<le> minute t" "minute t \<le> 59" "0 \<le> second t" "second t \<le> 59"
    and "0 \<le> fraction t" "fraction t < 1000000000"
  defines "secs \<equiv> DaysFromCivil (year t) (month t) (day t) * 86400 + hour t * 3600 + minute t * 60 + second t"
  shows "(1678 \<le> year t \<and> year t \<le> 2261
            \<longrightarrow> FetchTimestamp NANO t = Some (secs * 1000000000 + fraction t))
       \<and> (2263 \<le> year t \<longrightarrow> FetchTimestamp NANO t = None)"
proof (intro conjI impI)
  have sod: "0 \<le> hour t * 3600 + minute t * 60 + second t" "hour t * 3600 + minute t * 60 + second t < 86400"
    using assms(2-7) by linarith+
  {
    assume y: "1678 \<le> year t \<and> year t \<le> 2261"
    have "DaysFromCivil 1678 1 1 = - 106650" "DaysFromCivil 2261 12 31 = 106650" by code_simp+
    then have "- 106650 \<le> DaysFromCivil (year t) (month t) (day t)"
      "DaysFromCivil (year t) (month t) (day t) \<le> 106650"
      using DaysFromCivil_year_mono [OF assms(1), of 1678 2261] y by simp_all
    then show "FetchTimestamp NANO t = Some (secs * 1000000000 + fraction t)"
      unfolding FetchTimestamp_def Let_def secs_def [symmetric]
      using sod assms(8,9) by (simp add: checked_s64_def is_s64_def secs_def)
  next
    assume y: "2263 \<le> year t"
    have "DaysFromCivil 2263 1 1 = 107016" by code_simp
    then have "107016 \<le> DaysFromCivil (year t) (month t) (day t)"
      using DaysFromCivil_year_mono [OF assms(1), of 2263 "year t"] y by simp
    then show "FetchTimestamp NANO t = None"
      unfolding FetchTimestamp_def Let_def secs_def [symmetric]
      using sod by (simp add: checked_s64_def is_s64_def secs_def)
  }
qed

theorem timestamp_nano_range_witness:
  "FetchTimestamp NANO \<lparr>year = 9999, month = 12, day = 31, hour = 0, minute = 0, second = 0, fraction = 0\<rparr> = None"
proof -
  have "valid_date (9999, 12, 31)" by code_simp
  then show ?thesis
    using timestamp_nano_range [of "\<lparr>year = 9999, month = 12, day = 31, hour = 0, minute = 0,
      second = 0, fraction = 0\<rparr>"] by simp
qed

end
