(* ===== verification/Utf.thy ===== *)
theory Utf
  imports Prelude
begin

unbundle bit_operations_syntax

text \<open>
  The transcoders between UTF-8, which ADBC speaks, and the driver manager's wide characters:
  \<open>OdbcUtf8ToUtf16Into\<close> and \<open>Utf16Units\<close> of \<^verbatim>\<open>src/odbc_bind.c\<close>, \<open>Utf16ToUtf8\<close> of \<^verbatim>\<open>src/odbc_reader.c\<close>,
  and the second pair \<open>Utf8ToUtf16\<close>, \<open>FromW\<close> of \<^verbatim>\<open>src/odbc_text.c\<close>.  Bytes and units are naturals;
  \<open>wsize\<close> is \<^verbatim>\<open>sizeof(SQLWCHAR)\<close>, 2 on unixODBC and Windows and 4 on iODBC.  A loop over an index
  is recursion on the text that is left; a read behind the bound is the test the code makes.
\<close>

subsection \<open>UTF-8 to wide characters\<close>

text \<open>The decoding chain both scanners share: the code point at the head and the bytes it takes.\<close>

definition decode_head :: "nat \<Rightarrow> nat list \<Rightarrow> nat \<times> nat" where
  "decode_head b s =
     (if b < 0x80 then (b, 1)
      else if b AND 0xE0 = 0xC0 \<and> 1 \<le> length s
        then (push_bit 6 (b AND 0x1F) OR (s ! 0 AND 0x3F), 2)
      else if b AND 0xF0 = 0xE0 \<and> 2 \<le> length s
        then (push_bit 12 (b AND 0x0F) OR push_bit 6 (s ! 0 AND 0x3F) OR (s ! 1 AND 0x3F), 3)
      else if b AND 0xF8 = 0xF0 \<and> 3 \<le> length s
        then (push_bit 18 (b AND 0x07) OR push_bit 12 (s ! 0 AND 0x3F) OR push_bit 6 (s ! 1 AND 0x3F)
              OR (s ! 2 AND 0x3F), 4)
      else (0xFFFD, 1))"

definition wchar :: "nat \<Rightarrow> nat \<Rightarrow> nat" where
  "wchar wsize c = c mod 2 ^ (8 * wsize)"

fun OdbcUtf8ToUtf16Into :: "nat \<Rightarrow> bool \<Rightarrow> nat list \<Rightarrow> nat list" where
  "OdbcUtf8ToUtf16Into wsize utf16_pairs [] = []"
| "OdbcUtf8ToUtf16Into wsize utf16_pairs (b # s) =
     (let pairs = (wsize < 4 \<or> utf16_pairs);
          (cp, len) = decode_head b s
      in (if cp \<ge> 0x10000 \<and> pairs
          then (let cp = cp - 0x10000
                in [wchar wsize (0xD800 + drop_bit 10 cp), wchar wsize (0xDC00 + (cp AND 0x3FF))])
          else [wchar wsize cp])
         @ OdbcUtf8ToUtf16Into wsize utf16_pairs (drop (len - 1) s))"

fun Utf16Units :: "nat \<Rightarrow> bool \<Rightarrow> nat list \<Rightarrow> nat" where
  "Utf16Units wsize utf16_pairs [] = 0"
| "Utf16Units wsize utf16_pairs (c # s) =
     (let pairs = (wsize < 4 \<or> utf16_pairs);
          (len, pair) =
            (if c < 0x80 then (1, False)
             else if c AND 0xE0 = 0xC0 \<and> 1 \<le> length s then (2, False)
             else if c AND 0xF0 = 0xE0 \<and> 2 \<le> length s then (3, False)
             else if c AND 0xF8 = 0xF0 \<and> 3 \<le> length s then (4, True)
             else (1, False))
      in (if pair \<and> pairs then 2 else 1) + Utf16Units wsize utf16_pairs (drop (len - 1) s))"

text \<open>\<open>Utf8ToUtf16\<close> of \<^verbatim>\<open>src/odbc_text.c\<close>, and \<open>ToW\<close>, which calls it and appends the terminator.\<close>

fun Utf8ToUtf16 :: "nat \<Rightarrow> nat list \<Rightarrow> nat list" where
  "Utf8ToUtf16 wsize [] = []"
| "Utf8ToUtf16 wsize (b # s) =
     (let (c, k) = decode_head b s
      in (if c \<ge> 0x10000 \<and> wsize < 4
          then (let c = c - 0x10000
                in [wchar wsize (0xD800 + drop_bit 10 c), wchar wsize (0xDC00 + (c AND 0x3FF))])
          else [wchar wsize c])
         @ Utf8ToUtf16 wsize (drop (k - 1) s))"

definition ToW :: "nat \<Rightarrow> nat list option \<Rightarrow> nat list option \<times> int" where
  "ToW wsize s =
     (case s of
        None \<Rightarrow> (None, 0)
      | Some bytes \<Rightarrow> (let w = Utf8ToUtf16 wsize bytes in (Some (w @ [0]), s16 (int (length w)))))"

text \<open>\<open>Utf8ToUtf16\<close> of \<^verbatim>\<open>src/odbc_bind.c\<close>: the buffer reserved, in bytes, and the units written.\<close>

definition BindUtf8ToUtf16 :: "nat \<Rightarrow> bool \<Rightarrow> nat list \<Rightarrow> nat \<times> nat list" where
  "BindUtf8ToUtf16 wsize utf16_pairs s = ((length s + 1) * wsize, OdbcUtf8ToUtf16Into wsize utf16_pairs s)"

subsection \<open>Wide characters to UTF-8\<close>

definition byte :: "nat \<Rightarrow> nat" where
  "byte x = x mod 256"

definition encode_cp :: "nat \<Rightarrow> nat list" where
  "encode_cp cp =
     (if cp < 0x80 then [byte cp]
      else if cp < 0x800 then [byte (0xC0 OR drop_bit 6 cp), byte (0x80 OR (cp AND 0x3F))]
      else if cp < 0x10000
        then [byte (0xE0 OR drop_bit 12 cp), byte (0x80 OR (drop_bit 6 cp AND 0x3F)), byte (0x80 OR (cp AND 0x3F))]
      else [byte (0xF0 OR drop_bit 18 cp), byte (0x80 OR (drop_bit 12 cp AND 0x3F)),
            byte (0x80 OR (drop_bit 6 cp AND 0x3F)), byte (0x80 OR (cp AND 0x3F))])"

definition wide_cp :: "nat \<Rightarrow> nat \<Rightarrow> nat" where
  "wide_cp wsize w = (if wsize < 4 then w mod 2 ^ 16 else w mod 2 ^ 32)"

text \<open>The code point at the head of a wide text, and how many further units it takes.\<close>

definition Utf16Head :: "nat \<Rightarrow> nat \<Rightarrow> nat list \<Rightarrow> nat \<times> nat" where
  "Utf16Head wsize w ws =
     (let cp = wide_cp wsize w in
      if wsize \<ge> 4 \<and> cp > 0x10FFFF then (0xFFFD, 0)
      else if cp \<ge> 0xD800 \<and> cp \<le> 0xDBFF then
        (let lo = (case ws of [] \<Rightarrow> 0 | w2 # _ \<Rightarrow> wide_cp wsize w2)
         in if lo \<ge> 0xDC00 \<and> lo \<le> 0xDFFF then (0x10000 + push_bit 10 (cp - 0xD800) + (lo - 0xDC00), 1)
            else (0xFFFD, 0))
      else if cp \<ge> 0xDC00 \<and> cp \<le> 0xDFFF then (0xFFFD, 0)
      else (cp, 0))"

fun Utf16ToUtf8 :: "nat \<Rightarrow> nat list \<Rightarrow> nat list" where
  "Utf16ToUtf8 wsize [] = []"
| "Utf16ToUtf8 wsize (w # ws) =
     (let (cp, i) = Utf16Head wsize w ws in encode_cp cp @ Utf16ToUtf8 wsize (drop i ws))"

definition Utf16Utf8MaxBytes :: "nat \<Rightarrow> nat \<Rightarrow> nat" where
  "Utf16Utf8MaxBytes wsize units = units * (if wsize < 4 then 3 else 4)"

definition AppendUtf16 :: "nat \<Rightarrow> nat list \<Rightarrow> nat \<times> nat list" where
  "AppendUtf16 wsize w = (Utf16Utf8MaxBytes wsize (length w) + 1, Utf16ToUtf8 wsize w)"

text \<open>
  The loop of \<open>FromW\<close>: \<open>o\<close> is the text written so far and \<open>full\<close> the length it would have.  A
  character that does not fit is left out, and the loop goes on.
\<close>

definition FromWHead :: "nat \<Rightarrow> nat \<Rightarrow> nat list \<Rightarrow> nat \<times> nat" where
  "FromWHead wsize w ws =
     (let c = wide_cp wsize w in
      if wsize \<ge> 4 \<and> c > 0x10FFFF then (0xFFFD, 0)
      else if c \<ge> 0xD800 \<and> c \<le> 0xDBFF \<and> ws \<noteq> [] \<and> hd ws \<ge> 0xDC00 \<and> hd ws \<le> 0xDFFF
        then (0x10000 + push_bit 10 (c - 0xD800) + (hd ws - 0xDC00), 1)
      else if c \<ge> 0xD800 \<and> c \<le> 0xDFFF then (0xFFFD, 0)
      else (c, 0))"

fun FromWLoop :: "nat \<Rightarrow> nat \<Rightarrow> nat list \<Rightarrow> nat list \<Rightarrow> nat \<Rightarrow> nat list \<times> nat" where
  "FromWLoop wsize cap [] o' full = (o', full)"
| "FromWLoop wsize cap (w # ws) o' full =
     (let (c, i) = FromWHead wsize w ws; b = encode_cp c
      in FromWLoop wsize cap (drop i ws) (if length o' + length b < cap then o' @ b else o') (full + length b))"

definition FromW :: "nat \<Rightarrow> nat list \<Rightarrow> nat \<Rightarrow> nat list \<times> nat" where
  "FromW wsize w cap =
     (let (o', full) = FromWLoop wsize cap w [] 0 in (o', if full > 32000 then 32000 else full))"

section \<open>The Unicode encodings, independently\<close>

definition scalar :: "nat \<Rightarrow> bool" where
  "scalar cp \<longleftrightarrow> cp < 0xD800 \<or> 0xE000 \<le> cp \<and> cp < 0x110000"

definition utf8 :: "nat \<Rightarrow> nat list" where
  "utf8 cp =
     (if cp < 0x80 then [cp]
      else if cp < 0x800 then [0xC0 + cp div 64, 0x80 + cp mod 64]
      else if cp < 0x10000 then [0xE0 + cp div 4096, 0x80 + cp div 64 mod 64, 0x80 + cp mod 64]
      else [0xF0 + cp div 262144, 0x80 + cp div 4096 mod 64, 0x80 + cp div 64 mod 64, 0x80 + cp mod 64])"

definition utf16 :: "nat \<Rightarrow> nat list" where
  "utf16 cp =
     (if cp < 0x10000 then [cp]
      else [0xD800 + (cp - 0x10000) div 1024, 0xDC00 + (cp - 0x10000) mod 1024])"

text \<open>What the driver manager expects: UTF-16 units, or one code point per unit.\<close>

definition wide_text :: "nat \<Rightarrow> bool \<Rightarrow> nat \<Rightarrow> nat list" where
  "wide_text wsize utf16_pairs cp = (if wsize < 4 \<or> utf16_pairs then utf16 cp else [cp])"

subsection \<open>Bit operations as arithmetic\<close>

lemma and_mask [simp]:
  "x AND 0x3F = x mod 64" "x AND 0x1F = x mod 32" "x AND 0x0F = x mod 16" "x AND 0x07 = x mod 8" "x AND 0x3FF = x mod 1024"
  for x :: nat
proof -
  have m: "x AND mask n = x mod 2 ^ n" for n by (simp add: take_bit_eq_mask [symmetric] take_bit_eq_mod)
  show "x AND 0x3F = x mod 64" "x AND 0x1F = x mod 32" "x AND 0x0F = x mod 16" "x AND 0x07 = x mod 8"
    "x AND 0x3FF = x mod 1024"
    using m [of 6] m [of 5] m [of 4] m [of 3] m [of 10] by (simp_all add: mask_eq_exp_minus_1)
qed

lemma and_high: "b AND push_bit n (mask m) = b div 2 ^ n mod 2 ^ m * 2 ^ n" for b :: nat
proof -
  have "b AND push_bit n (mask m) = push_bit n (take_bit m (drop_bit n b))"
    by (rule bit_eqI) (auto simp: bit_simps)
  then show ?thesis by (simp add: push_bit_eq_mult take_bit_eq_mod drop_bit_eq_div)
qed

lemma block_iff:
  assumes "0 < (k::nat)"
  shows "(b div k * k = m * k) = (m * k \<le> b \<and> b < (m + 1) * k)"
proof
  assume "b div k * k = m * k"
  then show "m * k \<le> b \<and> b < (m + 1) * k"
    using div_times_less_eq_dividend [of b k] dividend_less_div_times [OF assms, of b] by simp
next
  assume "m * k \<le> b \<and> b < (m + 1) * k"
  then have "b div k = m" by (intro div_nat_eqI) (simp_all add: mult.commute)
  then show "b div k * k = m * k" by simp
qed

lemma lead:
  assumes "b < (256::nat)"
  shows "(b AND 0xE0 = 0xC0) = (192 \<le> b \<and> b < 224)" "(b AND 0xF0 = 0xE0) = (224 \<le> b \<and> b < 240)"
    "(b AND 0xF8 = 0xF0) = (240 \<le> b \<and> b < 248)"
proof -
  have "b AND 0xE0 = b div 32 mod 8 * 32" "b AND 0xF0 = b div 16 mod 16 * 16" "b AND 0xF8 = b div 8 mod 32 * 8"
    using and_high [of b 5 3] and_high [of b 4 4] and_high [of b 3 5]
    by (simp_all add: mask_eq_exp_minus_1 push_bit_eq_mult)
  moreover have "b div 32 < 8" "b div 16 < 16" "b div 8 < 32" using assms by (simp_all add: div_less_iff_less_mult)
  ultimately have e: "b AND 0xE0 = b div 32 * 32" "b AND 0xF0 = b div 16 * 16" "b AND 0xF8 = b div 8 * 8" by simp_all
  show "(b AND 0xE0 = 0xC0) = (192 \<le> b \<and> b < 224)" "(b AND 0xF0 = 0xE0) = (224 \<le> b \<and> b < 240)"
    "(b AND 0xF8 = 0xF0) = (240 \<le> b \<and> b < 248)"
    unfolding e using block_iff [of 32 b 6] block_iff [of 16 b 14] block_iff [of 8 b 30] by simp_all
qed

lemma or_disjoint: "y < 2 ^ n \<Longrightarrow> push_bit n x OR y = x * 2 ^ n + (y::nat)"
proof -
  assume "y < 2 ^ n"
  then have y: "take_bit n y = y" by (simp add: take_bit_nat_eq_self)
  have "push_bit n x + y = push_bit n x OR y"
  proof (rule disjunctive_add)
    fix k
    show "\<not> bit (push_bit n x) k \<or> \<not> bit y k"
      by (metis bit_push_bit_iff bit_take_bit_iff not_le y)
  qed
  then show ?thesis by (simp add: push_bit_eq_mult)
qed

lemma or_high:
  "x < 64 \<Longrightarrow> 0x80 OR x = 0x80 + x" "x < 32 \<Longrightarrow> 0xC0 OR x = 0xC0 + x"
  "x < 16 \<Longrightarrow> 0xE0 OR x = 0xE0 + x" "x < 8 \<Longrightarrow> 0xF0 OR x = 0xF0 + x" for x :: nat
  using or_disjoint [of x 6 2] or_disjoint [of x 5 6] or_disjoint [of x 4 14] or_disjoint [of x 3 30]
  by (simp_all add: push_bit_eq_mult)

lemma encode_cp_utf8: "cp < 0x110000 \<Longrightarrow> encode_cp cp = utf8 cp"
proof -
  assume c: "cp < 0x110000"
  have d: "cp < 0x800 \<Longrightarrow> cp div 64 < 32" "cp < 0x10000 \<Longrightarrow> cp div 4096 < 16" "cp div 262144 < 8"
    using c by (simp_all add: div_less_iff_less_mult)
  show ?thesis
    unfolding encode_cp_def utf8_def byte_def drop_bit_eq_div
    using d by (auto simp: or_high)
qed

lemma low_bits:
  "x < 32 \<Longrightarrow> (0xC0 + x) mod 32 = x" "x < 16 \<Longrightarrow> (0xE0 + x) mod 16 = x"
  "x < 8 \<Longrightarrow> (0xF0 + x) mod 8 = x" "x < 64 \<Longrightarrow> (0x80 + x) mod 64 = x" for x :: nat
  using mod_mult_self4 [of 32 6 x] mod_mult_self4 [of 16 14 x] mod_mult_self4 [of 8 30 x] mod_mult_self4 [of 64 2 x]
  by simp_all

lemma decode_2: "x < 32 \<Longrightarrow> y < 64 \<Longrightarrow> decode_head (0xC0 + x) ((0x80 + y) # s) = (x * 64 + y, 2)"
  using or_disjoint [of y 6 x] by (simp add: decode_head_def lead low_bits)

lemma decode_3:
  "x < 16 \<Longrightarrow> y < 64 \<Longrightarrow> z < 64 \<Longrightarrow>
   decode_head (0xE0 + x) ((0x80 + y) # (0x80 + z) # s) = (x * 4096 + y * 64 + z, 3)"
  using or_disjoint [of z 6 y] or_disjoint [of "y * 64 + z" 12 x] by (simp add: decode_head_def lead low_bits)

lemma decode_4:
  "x < 8 \<Longrightarrow> y < 64 \<Longrightarrow> z < 64 \<Longrightarrow> w < 64 \<Longrightarrow>
   decode_head (0xF0 + x) ((0x80 + y) # (0x80 + z) # (0x80 + w) # s) = (x * 262144 + y * 4096 + z * 64 + w, 4)"
  using or_disjoint [of w 6 z] or_disjoint [of "z * 64 + w" 12 y] or_disjoint [of "y * 4096 + (z * 64 + w)" 18 x]
  by (simp add: decode_head_def lead low_bits)

lemma split64: "(cp::nat) div 64 * 64 + cp mod 64 = cp"
  "cp div 4096 * 4096 + cp div 64 mod 64 * 64 + cp mod 64 = cp"
  "cp div 262144 * 262144 + cp div 4096 mod 64 * 4096 + cp div 64 mod 64 * 64 + cp mod 64 = cp"
proof -
  have a: "x div 64 * 64 + x mod 64 = x" for x :: nat by (rule div_mult_mod_eq)
  have b: "cp div 4096 = cp div 64 div 64" "cp div 262144 = cp div 64 div 64 div 64" "cp div 4096 mod 64 = cp div 64 div 64 mod 64"
    by (simp_all add: div_mult2_eq [symmetric])
  show "cp div 64 * 64 + cp mod 64 = cp" by (rule a)
  show "cp div 4096 * 4096 + cp div 64 mod 64 * 64 + cp mod 64 = cp"
    using a [of cp] a [of "cp div 64"] unfolding b by linarith
  show "cp div 262144 * 262144 + cp div 4096 mod 64 * 4096 + cp div 64 mod 64 * 64 + cp mod 64 = cp"
    using a [of cp] a [of "cp div 64"] a [of "cp div 64 div 64"] unfolding b by linarith
qed

text \<open>Decoding a well-formed sequence gives back its code point and its length.\<close>

lemma decode_utf8:
  assumes "cp < 0x110000"
  obtains b r where "utf8 cp = b # r" "\<And>s. decode_head b (r @ s) = (cp, length (utf8 cp))"
proof -
  have d: "cp < 0x800 \<Longrightarrow> cp div 64 < 32" "cp < 0x10000 \<Longrightarrow> cp div 4096 < 16" "cp div 262144 < 8"
    using assms by (simp_all add: div_less_iff_less_mult)
  consider "cp < 0x80" | "0x80 \<le> cp" "cp < 0x800" | "0x800 \<le> cp" "cp < 0x10000" | "0x10000 \<le> cp" by linarith
  then show thesis
  proof cases
    case 1
    then show thesis by (intro that [of cp "[]"]) (simp_all add: utf8_def decode_head_def)
  next
    case 2
    then show thesis using decode_2 [of "cp div 64" "cp mod 64"] d split64(1) [of cp]
      by (intro that [of "0xC0 + cp div 64" "[0x80 + cp mod 64]"]) (simp_all add: utf8_def)
  next
    case 3
    then show thesis using decode_3 [of "cp div 4096" "cp div 64 mod 64" "cp mod 64"] d split64(2) [of cp]
      by (intro that [of "0xE0 + cp div 4096" "[0x80 + cp div 64 mod 64, 0x80 + cp mod 64]"]) (simp_all add: utf8_def)
  next
    case 4
    then show thesis
      using decode_4 [of "cp div 262144" "cp div 4096 mod 64" "cp div 64 mod 64" "cp mod 64"] d split64(3) [of cp]
      by (intro that [of "0xF0 + cp div 262144" "[0x80 + cp div 4096 mod 64, 0x80 + cp div 64 mod 64, 0x80 + cp mod 64]"])
         (simp_all add: utf8_def)
  qed
qed

section \<open>Correctness of the transcoders\<close>

text \<open>
  The contract of a transcoding loop: on the encoding of a character followed by anything it
  writes that character's output and goes on behind it.  Then it maps texts character by
  character.
\<close>

locale transcoder =
  fixes loop :: "'b list \<Rightarrow> 'c list" and enc :: "'a \<Rightarrow> 'b list" and out :: "'a \<Rightarrow> 'c list" and valid :: "'a \<Rightarrow> bool"
  assumes loop_nil: "loop [] = []"
    and loop_step: "valid a \<Longrightarrow> loop (enc a @ s) = out a @ loop s"
begin

lemma loop_text: "list_all valid xs \<Longrightarrow> loop (concat (map enc xs)) = concat (map out xs)"
  by (induction xs) (simp_all add: loop_nil loop_step)

end

abbreviation wide_ok :: "nat \<Rightarrow> nat \<Rightarrow> bool" where
  "wide_ok wsize cp \<equiv> (wsize = 2 \<or> wsize = 4) \<and> scalar cp"

lemma scalar_bound: "scalar cp \<Longrightarrow> cp < 0x110000"
  by (auto simp: scalar_def)

lemma wchar_id: "wsize = 2 \<Longrightarrow> c < 0x10000 \<Longrightarrow> wchar wsize c = c" "wsize = 4 \<Longrightarrow> c < 0x110000 \<Longrightarrow> wchar wsize c = c"
  by (simp_all add: wchar_def)

lemma pair_bounds:
  "scalar cp \<Longrightarrow> (cp - 0x10000) div 1024 < 1024" "(cp - 0x10000) mod 1024 < 1024"
  by (auto simp: scalar_def div_less_iff_less_mult)

lemma wide_units:
  assumes "wide_ok wsize cp"
  shows "(if cp \<ge> 0x10000 \<and> (wsize < 4 \<or> p)
      then [wchar wsize (0xD800 + drop_bit 10 (cp - 0x10000)), wchar wsize (0xDC00 + ((cp - 0x10000) AND 0x3FF))]
      else [wchar wsize cp]) = wide_text wsize p cp"
  using assms scalar_bound [of cp] pair_bounds [of cp]
  by (auto simp: wide_text_def utf16_def wchar_def drop_bit_eq_div)

lemma Into_step:
  assumes "wide_ok wsize cp"
  shows "OdbcUtf8ToUtf16Into wsize p (utf8 cp @ s) = wide_text wsize p cp @ OdbcUtf8ToUtf16Into wsize p s"
proof -
  obtain b r where u: "utf8 cp = b # r" and d: "\<And>s. decode_head b (r @ s) = (cp, length (utf8 cp))"
    using decode_utf8 scalar_bound assms by metis
  show ?thesis
    unfolding wide_units [OF assms, of p, symmetric] u append_Cons OdbcUtf8ToUtf16Into.simps d Let_def prod.case
    by (simp add: u)
qed

interpretation into: transcoder "OdbcUtf8ToUtf16Into wsize p" utf8 "wide_text wsize p" "wide_ok wsize" for wsize p
  by unfold_locales (simp, rule Into_step)

text \<open>The second scanner computes the same units as the first one without the pair quirk.\<close>

lemma Utf8ToUtf16_eq: "Utf8ToUtf16 wsize s = OdbcUtf8ToUtf16Into wsize False s"
  by (induction wsize s rule: Utf8ToUtf16.induct) (auto simp: Let_def split: prod.splits)

lemma Utf16Head_utf16:
  assumes "wide_ok wsize cp"
  obtains w r where "wide_text wsize p cp = w # r" "\<And>s. Utf16Head wsize w (r @ s) = (cp, length r)"
proof (cases "cp \<ge> 0x10000 \<and> (wsize < 4 \<or> p)")
  case True
  let ?hi = "0xD800 + (cp - 0x10000) div 1024" and ?lo = "0xDC00 + (cp - 0x10000) mod 1024"
  have b: "(cp - 0x10000) div 1024 < 1024" "(cp - 0x10000) mod 1024 < 1024" using pair_bounds assms by auto
  then have w: "wide_cp wsize ?hi = ?hi" "wide_cp wsize ?lo = ?lo" by (simp_all add: wide_cp_def)
  have "0x10000 + ((cp - 0x10000) div 1024 * 1024 + (cp - 0x10000) mod 1024) = cp"
    using True unfolding div_mult_mod_eq by simp
  then have "Utf16Head wsize ?hi ([?lo] @ s) = (cp, 1)" for s
    unfolding Utf16Head_def w Let_def using b by (simp add: w push_bit_eq_mult algebra_simps)
  then show thesis using True by (intro that [of ?hi "[?lo]"]) (auto simp: wide_text_def utf16_def)
next
  case False
  have "wide_cp wsize cp = cp" using False assms scalar_bound [of cp] by (auto simp: wide_cp_def)
  then show thesis using False assms
    by (intro that [of cp "[]"]) (auto simp: wide_text_def utf16_def Utf16Head_def scalar_def Let_def)
qed

lemma Utf16ToUtf8_step:
  assumes "wide_ok wsize cp"
  shows "Utf16ToUtf8 wsize (wide_text wsize p cp @ s) = utf8 cp @ Utf16ToUtf8 wsize s"
proof -
  obtain w r where u: "wide_text wsize p cp = w # r" and d: "\<And>s. Utf16Head wsize w (r @ s) = (cp, length r)"
    using Utf16Head_utf16 [OF assms] by metis
  show ?thesis using encode_cp_utf8 [of cp] scalar_bound [of cp] assms unfolding u by (simp add: d)
qed

interpretation narrow: transcoder "Utf16ToUtf8 wsize" "wide_text wsize p" utf8 "wide_ok wsize" for wsize p
  by unfold_locales (simp, rule Utf16ToUtf8_step)

text \<open>
  C12. Text survives the trip to the driver manager and back.  For every sequence of Unicode scalar
  values, whatever the width of \<^verbatim>\<open>SQLWCHAR\<close> and with or without the surrogate-pair quirk: its UTF-8
  is transcoded to exactly its UTF-16 (or UTF-32) units, and those transcode back to the same UTF-8.
\<close>

theorem utf_roundtrip:
  assumes "list_all scalar cps" "wsize = 2 \<or> wsize = 4"
  defines "text8 \<equiv> concat (map utf8 cps)"
  shows "OdbcUtf8ToUtf16Into wsize p text8 = concat (map (wide_text wsize p) cps)
       \<and> Utf16ToUtf8 wsize (OdbcUtf8ToUtf16Into wsize p text8) = text8"
proof -
  have v: "list_all (wide_ok wsize) cps" using assms(1,2) by (simp add: list_all_iff)
  show ?thesis unfolding text8_def into.loop_text [OF v] narrow.loop_text [OF v] by simp
qed

theorem utf_roundtrip_witness:
  "Utf16ToUtf8 2 (OdbcUtf8ToUtf16Into 2 False [0x61, 0xC3, 0xA9, 0xF0, 0x9F, 0x98, 0x80])
     = [0x61, 0xC3, 0xA9, 0xF0, 0x9F, 0x98, 0x80]"
proof -
  have "list_all scalar [0x61, 0xE9, 0x1F600]"
    "concat (map utf8 [0x61, 0xE9, 0x1F600]) = [0x61, 0xC3, 0xA9, 0xF0, 0x9F, 0x98, 0x80]"
    by (simp_all add: scalar_def utf8_def)
  then show ?thesis using utf_roundtrip [of "[0x61, 0xE9, 0x1F600]" 2 False] by metis
qed

text \<open>Only a four-byte sequence decodes beyond the basic plane, and its length is the flag \<open>pair\<close>.\<close>

lemma decode_head_len:
  "1 \<le> snd (decode_head b s)" "snd (decode_head b s) \<le> length s + 1"
  "snd (decode_head b s) \<noteq> 4 \<Longrightarrow> fst (decode_head b s) < 0x10000"
proof -
  show "1 \<le> snd (decode_head b s)" "snd (decode_head b s) \<le> length s + 1" by (auto simp: decode_head_def)
  have m: "x mod 64 < 64" "x mod 32 < 32" "x mod 16 < 16" for x :: nat by simp_all
  have two: "push_bit 6 (x mod 32) OR y mod 64 < 0x10000" for x y :: nat
    using m(1) [of y] m(2) [of x] by (subst or_disjoint) auto
  have "push_bit 12 (x mod 16) OR push_bit 6 (y mod 64) OR z mod 64 < 0x10000" for x y z :: nat
  proof -
    have yz: "push_bit 6 (y mod 64) OR z mod 64 = y mod 64 * 64 + z mod 64" by (subst or_disjoint) auto
    have "y mod 64 * 64 + z mod 64 < 4096" using m(1) [of y] m(1) [of z] by linarith
    then show ?thesis unfolding yz using m(3) [of x] by (subst or_disjoint) auto
  qed
  then show "snd (decode_head b s) \<noteq> 4 \<Longrightarrow> fst (decode_head b s) < 0x10000"
    using two by (auto simp: decode_head_def split: if_splits)
qed

lemma Utf16Units_cons:
  "Utf16Units wsize p (b # s) = (if snd (decode_head b s) = 4 \<and> (wsize < 4 \<or> p) then 2 else 1)
     + Utf16Units wsize p (drop (snd (decode_head b s) - 1) s)"
  by (auto simp: decode_head_def Let_def)

lemma Into_cons:
  "length (OdbcUtf8ToUtf16Into wsize p (b # s)) = (if fst (decode_head b s) \<ge> 0x10000 \<and> (wsize < 4 \<or> p) then 2 else 1)
     + length (OdbcUtf8ToUtf16Into wsize p (drop (snd (decode_head b s) - 1) s))"
  by (auto simp: Let_def split: prod.splits)

lemma Into_le_Units: "length (OdbcUtf8ToUtf16Into wsize p s) \<le> Utf16Units wsize p s"
proof (induction "length s" arbitrary: s rule: less_induct)
  case less
  show ?case
  proof (cases s)
    case (Cons b t)
    have "length (drop (snd (decode_head b t) - 1) t) < length s" using Cons by simp
    from less [OF this] show ?thesis
      unfolding Cons Into_cons Utf16Units_cons using decode_head_len(3) [of b t] by (auto simp: not_le)
  qed simp
qed

lemma Units_le_length: "Utf16Units wsize p s \<le> length s"
proof (induction "length s" arbitrary: s rule: less_induct)
  case less
  show ?case
  proof (cases s)
    case (Cons b t)
    have "length (drop (snd (decode_head b t) - 1) t) < length s" using Cons by simp
    from less [OF this] show ?thesis
      unfolding Cons Utf16Units_cons using decode_head_len(1,2) [of b t] by auto
  qed simp
qed

lemma Units_step:
  assumes "wide_ok wsize cp"
  shows "Utf16Units wsize p (utf8 cp @ s) = length (wide_text wsize p cp) + Utf16Units wsize p s"
proof -
  obtain b r where u: "utf8 cp = b # r" and d: "\<And>s. decode_head b (r @ s) = (cp, length (utf8 cp))"
    using decode_utf8 scalar_bound assms by metis
  have "length (utf8 cp) = 4 \<longleftrightarrow> 0x10000 \<le> cp" by (auto simp: utf8_def)
  then show ?thesis
    unfolding u append_Cons Utf16Units_cons d fst_conv snd_conv using assms
    by (auto simp: u wide_text_def utf16_def)
qed

interpretation units: transcoder "\<lambda>s. replicate (Utf16Units wsize p s) ()" utf8
    "\<lambda>cp. replicate (length (wide_text wsize p cp)) ()" "wide_ok wsize" for wsize p
  by unfold_locales (simp_all add: Units_step replicate_add)

text \<open>
  Buffer sizes of the write path.  On any bytes at all, well-formed or not, the transcoder never
  writes more units than \<open>Utf16Units\<close> announces, which is never more than the number of bytes: the
  array slots and the reserved buffer always hold the text and its terminator.  On well-formed text
  the announced number is exact.
\<close>

theorem utf16_units_bound:
  "length (OdbcUtf8ToUtf16Into wsize p s) \<le> Utf16Units wsize p s \<and> Utf16Units wsize p s \<le> length s
   \<and> (length (snd (BindUtf8ToUtf16 wsize p s)) + 1) * wsize \<le> fst (BindUtf8ToUtf16 wsize p s)
   \<and> (wsize = 2 \<or> wsize = 4 \<longrightarrow> (\<forall>cps. list_all scalar cps \<and> s = concat (map utf8 cps) \<longrightarrow>
        Utf16Units wsize p s = length (OdbcUtf8ToUtf16Into wsize p s)))"
proof (intro conjI impI allI)
  show le: "length (OdbcUtf8ToUtf16Into wsize p s) \<le> Utf16Units wsize p s" "Utf16Units wsize p s \<le> length s"
    by (rule Into_le_Units Units_le_length)+
  show "(length (snd (BindUtf8ToUtf16 wsize p s)) + 1) * wsize \<le> fst (BindUtf8ToUtf16 wsize p s)"
    unfolding BindUtf8ToUtf16_def fst_conv snd_conv using le by (intro mult_le_mono1) simp
next
  fix cps
  assume w: "wsize = 2 \<or> wsize = 4" and c: "list_all scalar cps \<and> s = concat (map utf8 cps)"
  then have v: "list_all (wide_ok wsize) cps" by (simp add: list_all_iff)
  have "Utf16Units wsize p s = length (concat (map (\<lambda>cp. replicate (length (wide_text wsize p cp)) ()) cps))"
    using arg_cong [OF units.loop_text [OF v], of length] c by simp
  also have "\<dots> = length (concat (map (wide_text wsize p) cps))" by (simp add: length_concat comp_def)
  finally show "Utf16Units wsize p s = length (OdbcUtf8ToUtf16Into wsize p s)"
    using c into.loop_text [OF v] by simp
qed

theorem utf16_units_bound_witness:
  "length (OdbcUtf8ToUtf16Into 2 False [0xF0, 0x80, 0x80, 0x80, 0xC3]) \<le> 3
   \<and> Utf16Units 2 False [0x61, 0xF0, 0x9F, 0x98, 0x80] = length (OdbcUtf8ToUtf16Into 2 False [0x61, 0xF0, 0x9F, 0x98, 0x80])"
proof -
  have "Utf16Units 2 False [0xF0, 0x80, 0x80, 0x80, 0xC3] = 3" by (simp add: lead)
  moreover have "list_all scalar [0x61, 0x1F600]" "concat (map utf8 [0x61, 0x1F600]) = [0x61, 0xF0, 0x9F, 0x98, 0x80]"
    by (simp_all add: scalar_def utf8_def)
  ultimately show ?thesis
    using utf16_units_bound [of 2 False "[0xF0, 0x80, 0x80, 0x80, 0xC3]"]
      utf16_units_bound [of 2 False "[0x61, 0xF0, 0x9F, 0x98, 0x80]"] by metis
qed

lemma Utf16Head_props:
  assumes "wsize = 2 \<or> wsize = 4"
  shows "scalar (fst (Utf16Head wsize w ws))" "snd (Utf16Head wsize w ws) \<le> length ws"
    "length (utf8 (fst (Utf16Head wsize w ws))) \<le> (if wsize < 4 then 3 else 4) * (1 + snd (Utf16Head wsize w ws))"
proof -
  have "wsize = 2 \<Longrightarrow> wide_cp wsize w < 0x10000" by (simp add: wide_cp_def)
  moreover have "55296 \<le> c \<Longrightarrow> c \<le> 56319 \<Longrightarrow> 56320 \<le> l \<Longrightarrow> l \<le> 57343 \<Longrightarrow> scalar (0x10000 + push_bit 10 (c - 0xD800) + (l - 0xDC00))"
    for c l by (auto simp: scalar_def push_bit_eq_mult)
  moreover have "length (utf8 cp) \<le> 4" "cp < 0x10000 \<Longrightarrow> length (utf8 cp) \<le> 3" for cp by (auto simp: utf8_def)
  ultimately show "scalar (fst (Utf16Head wsize w ws))" "snd (Utf16Head wsize w ws) \<le> length ws"
    "length (utf8 (fst (Utf16Head wsize w ws))) \<le> (if wsize < 4 then 3 else 4) * (1 + snd (Utf16Head wsize w ws))"
    using assms by (auto simp: Utf16Head_def Let_def scalar_def le_trans [of _ 4 6] le_trans [of _ 4 8]
        split: list.splits)
qed

lemma utf8_output_bound:
  assumes "wsize = 2 \<or> wsize = 4"
  shows "(\<exists>cps. list_all scalar cps \<and> Utf16ToUtf8 wsize ws = concat (map utf8 cps))
       \<and> length (Utf16ToUtf8 wsize ws) \<le> Utf16Utf8MaxBytes wsize (length ws)"
proof (induction "length ws" arbitrary: ws rule: less_induct)
  case less
  show ?case
  proof (cases ws)
    case Nil
    then show ?thesis by (auto simp: Utf16Utf8MaxBytes_def intro!: exI [of _ "[]"])
  next
    case (Cons w r)
    obtain cp i where h: "Utf16Head wsize w r = (cp, i)" by force
    note p = Utf16Head_props [OF assms, of w r, unfolded h fst_conv snd_conv]
    have "length (drop i r) < length ws" using Cons by simp
    from less [OF this] obtain cps where ih: "list_all scalar cps" "Utf16ToUtf8 wsize (drop i r) = concat (map utf8 cps)"
      "length (Utf16ToUtf8 wsize (drop i r)) \<le> Utf16Utf8MaxBytes wsize (length r - i)" by auto
    have e: "Utf16ToUtf8 wsize ws = utf8 cp @ Utf16ToUtf8 wsize (drop i r)"
      using Cons h encode_cp_utf8 [OF scalar_bound [OF p(1)]] by simp
    let ?f = "if wsize < 4 then 3 else (4::nat)"
    have "?f * (1 + i) + (length r - i) * ?f = length ws * ?f"
      using Cons p(2) by (simp add: algebra_simps diff_mult_distrib2 [symmetric])
    then have "length (Utf16ToUtf8 wsize ws) \<le> Utf16Utf8MaxBytes wsize (length ws)"
      using p(3) ih(3) unfolding e Utf16Utf8MaxBytes_def by simp
    moreover have "list_all scalar (cp # cps)" "Utf16ToUtf8 wsize ws = concat (map utf8 (cp # cps))"
      using p(1) ih e by simp_all
    ultimately show ?thesis by blast
  qed
qed

text \<open>
  Whatever units a driver returns, unpaired surrogates and garbage included, the reader's output
  is well-formed UTF-8, the encoding of a sequence of Unicode scalar values, and it fits the buffer
  sized for it.
\<close>

theorem utf8_output_valid:
  assumes "wsize = 2 \<or> wsize = 4"
  shows "(\<exists>cps. list_all scalar cps \<and> Utf16ToUtf8 wsize ws = concat (map utf8 cps))
       \<and> length (Utf16ToUtf8 wsize ws) \<le> Utf16Utf8MaxBytes wsize (length ws)"
  using assms by (rule utf8_output_bound)

theorem utf8_output_valid_witness:
  "length (Utf16ToUtf8 2 [0xD83D, 0x61, 0xDE00]) \<le> 9"
  using utf8_output_valid [of 2 "[0xD83D, 0x61, 0xDE00]"] by (simp add: Utf16Utf8MaxBytes_def)

subsection \<open>The second pair of transcoders\<close>

lemma FromWHead_eq:
  assumes "wsize = 2 \<or> wsize = 4" "list_all (\<lambda>u. u < 2 ^ (8 * wsize)) ws"
  shows "FromWHead wsize w ws = Utf16Head wsize w ws"
proof (cases ws)
  case Nil
  then show ?thesis by (auto simp: FromWHead_def Utf16Head_def Let_def)
next
  case (Cons u r)
  then have "wide_cp wsize u = u" using assms by (auto simp: wide_cp_def)
  then show ?thesis using Cons by (auto simp: FromWHead_def Utf16Head_def Let_def)
qed

text \<open>Where nothing has to be cut, the loop appends what \<open>Utf16ToUtf8\<close> writes.\<close>

lemma FromWLoop_all:
  assumes "wsize = 2 \<or> wsize = 4" "list_all (\<lambda>u. u < 2 ^ (8 * wsize)) ws" "length o' + length (Utf16ToUtf8 wsize ws) < cap"
  shows "FromWLoop wsize cap ws o' full = (o' @ Utf16ToUtf8 wsize ws, full + length (Utf16ToUtf8 wsize ws))"
  using assms(2,3)
proof (induction "length ws" arbitrary: ws o' full rule: less_induct)
  case less
  show ?case
  proof (cases ws)
    case (Cons w r)
    obtain c i where h: "Utf16Head wsize w r = (c, i)" by force
    have h': "FromWHead wsize w r = (c, i)" using FromWHead_eq [OF assms(1)] less.prems(1) Cons h by simp
    have "list_all (\<lambda>u. u < 2 ^ (8 * wsize)) (drop i r)" using less.prems(1) Cons
      by (auto simp: list_all_iff dest: in_set_dropD)
    with less.hyps [of "drop i r" "o' @ encode_cp c" "full + length (encode_cp c)"] less.prems(2)
    show ?thesis unfolding Cons by (simp add: h h' Let_def)
  qed simp
qed

lemma FromWLoop_length: "length o' < cap \<Longrightarrow> length (fst (FromWLoop wsize cap ws o' full)) < cap"
  by (induction wsize cap ws o' full rule: FromWLoop.induct) (simp_all add: Let_def split: prod.splits)

text \<open>
  C24. The two pairs of transcoders agree: on every byte string \<open>Utf8ToUtf16\<close> of \<^verbatim>\<open>odbc_text.c\<close> writes
  what \<open>OdbcUtf8ToUtf16Into\<close> of \<^verbatim>\<open>odbc_bind.c\<close> writes without the pair quirk, and on every wide string
  \<open>FromW\<close> writes what \<open>Utf16ToUtf8\<close> of \<^verbatim>\<open>odbc_reader.c\<close> writes and reports its length (capped at
  32000), provided the buffer has room for it; it never overruns the buffer in any case.
\<close>

theorem transcoders_agree:
  assumes "wsize = 2 \<or> wsize = 4" "list_all (\<lambda>u. u < 2 ^ (8 * wsize)) ws" "0 < cap"
  shows "Utf8ToUtf16 wsize s = OdbcUtf8ToUtf16Into wsize False s
       \<and> (length (Utf16ToUtf8 wsize ws) < cap \<longrightarrow>
            FromW wsize ws cap = (Utf16ToUtf8 wsize ws, min 32000 (length (Utf16ToUtf8 wsize ws))))
       \<and> length (fst (FromW wsize ws cap)) < cap"
  using Utf8ToUtf16_eq [of wsize s] FromWLoop_all [OF assms(1,2), of "[]" cap 0]
    FromWLoop_length [of "[]" cap wsize ws 0] assms(3)
  by (auto simp: FromW_def Let_def split: prod.splits)

theorem transcoders_agree_witness:
  "FromW 2 [0x61, 0xE9] 8 = ([0x61, 0xC3, 0xA9], 3)"
proof -
  have "Utf16ToUtf8 2 [0x61, 0xE9] = [0x61, 0xC3, 0xA9]"
    by (simp add: Utf16Head_def wide_cp_def encode_cp_utf8 utf8_def)
  then show ?thesis using transcoders_agree [of 2 "[0x61, 0xE9]" 8 "[]"] by simp
qed

text \<open>
  Two ways in which the transcoders differ from their comments.  A buffer that is too small does
  not hold a truncated text: \<open>FromW\<close> leaves out the character that does not fit and goes on with the
  next one that does.  And a lead byte whose continuation is missing does not become U+FFFD when
  another byte stands there: the byte is swallowed into a made-up character.
\<close>

theorem transcoder_defects:
  "FromW 2 [0xE9, 0x20AC, 0x61] 4 = ([0xC3, 0xA9, 0x61], 6)
   \<and> Utf16ToUtf8 2 [0xE9, 0x20AC, 0x61] = [0xC3, 0xA9, 0xE2, 0x82, 0xAC, 0x61]
   \<and> Utf8ToUtf16 2 [0xC3, 0x41] = [0xC1]"
proof (intro conjI)
  show "FromW 2 [0xE9, 0x20AC, 0x61] 4 = ([0xC3, 0xA9, 0x61], 6)"
    by (simp add: FromW_def FromWHead_def wide_cp_def encode_cp_utf8 utf8_def)
  show "Utf16ToUtf8 2 [0xE9, 0x20AC, 0x61] = [0xC3, 0xA9, 0xE2, 0x82, 0xAC, 0x61]"
    by (simp add: Utf16Head_def wide_cp_def encode_cp_utf8 utf8_def)
  have "decode_head 0xC3 [0x41] = (0xC1, 2)"
    using or_disjoint [of 1 6 3] by (simp add: decode_head_def lead push_bit_eq_mult)
  then show "Utf8ToUtf16 2 [0xC3, 0x41] = [0xC1]" by (simp add: wchar_def)
qed

end
