(* ===== verification/Columns.thy ===== *)
theory Columns
  imports Times "HOL-Library.Sublist"
begin

text \<open>
  How a result column is read, \<^verbatim>\<open>src/odbc_reader.c\<close>: from what the driver says about a column
  (\<^verbatim>\<open>SQLDescribeCol\<close>, \<^verbatim>\<open>SQLColAttribute\<close>) to the fetch kind, the C type and the width of the bound
  buffer, the rule which columns are bound at all, and the Arrow schema; and the parameter schema.

  The statement handle is what it answers: \<open>None\<close> stands for \<^verbatim>\<open>NULL\<close>, with which a parameter is
  classified.  \<open>win32\<close> and \<open>wsize\<close> are the platform: \<^verbatim>\<open>_WIN32\<close> and \<^verbatim>\<open>sizeof(SQLWCHAR)\<close>.
\<close>

subsection \<open>Type codes, fetch kinds and options\<close>

abbreviation (input) SQL_CHAR :: int where "SQL_CHAR \<equiv> 1"
abbreviation (input) SQL_NUMERIC :: int where "SQL_NUMERIC \<equiv> 2"
abbreviation (input) SQL_DECIMAL :: int where "SQL_DECIMAL \<equiv> 3"
abbreviation (input) SQL_INTEGER :: int where "SQL_INTEGER \<equiv> 4"
abbreviation (input) SQL_SMALLINT :: int where "SQL_SMALLINT \<equiv> 5"
abbreviation (input) SQL_FLOAT :: int where "SQL_FLOAT \<equiv> 6"
abbreviation (input) SQL_REAL :: int where "SQL_REAL \<equiv> 7"
abbreviation (input) SQL_DOUBLE :: int where "SQL_DOUBLE \<equiv> 8"
abbreviation (input) SQL_DATE :: int where "SQL_DATE \<equiv> 9"
abbreviation (input) SQL_TIME :: int where "SQL_TIME \<equiv> 10"
abbreviation (input) SQL_TIMESTAMP :: int where "SQL_TIMESTAMP \<equiv> 11"
abbreviation (input) SQL_VARCHAR :: int where "SQL_VARCHAR \<equiv> 12"
abbreviation (input) SQL_TYPE_DATE :: int where "SQL_TYPE_DATE \<equiv> 91"
abbreviation (input) SQL_TYPE_TIME :: int where "SQL_TYPE_TIME \<equiv> 92"
abbreviation (input) SQL_TYPE_TIMESTAMP :: int where "SQL_TYPE_TIMESTAMP \<equiv> 93"
abbreviation (input) SQL_TYPE_TIME_WITH_TIMEZONE :: int where "SQL_TYPE_TIME_WITH_TIMEZONE \<equiv> 94"
abbreviation (input) SQL_TYPE_TIMESTAMP_WITH_TIMEZONE :: int where "SQL_TYPE_TIMESTAMP_WITH_TIMEZONE \<equiv> 95"
abbreviation (input) SQL_INTERVAL_YEAR :: int where "SQL_INTERVAL_YEAR \<equiv> 101"
abbreviation (input) SQL_INTERVAL_MINUTE_TO_SECOND :: int where "SQL_INTERVAL_MINUTE_TO_SECOND \<equiv> 113"
abbreviation (input) SQL_LONGVARCHAR :: int where "SQL_LONGVARCHAR \<equiv> - 1"
abbreviation (input) SQL_BINARY :: int where "SQL_BINARY \<equiv> - 2"
abbreviation (input) SQL_VARBINARY :: int where "SQL_VARBINARY \<equiv> - 3"
abbreviation (input) SQL_LONGVARBINARY :: int where "SQL_LONGVARBINARY \<equiv> - 4"
abbreviation (input) SQL_BIGINT :: int where "SQL_BIGINT \<equiv> - 5"
abbreviation (input) SQL_TINYINT :: int where "SQL_TINYINT \<equiv> - 6"
abbreviation (input) SQL_BIT :: int where "SQL_BIT \<equiv> - 7"
abbreviation (input) SQL_WCHAR :: int where "SQL_WCHAR \<equiv> - 8"
abbreviation (input) SQL_WVARCHAR :: int where "SQL_WVARCHAR \<equiv> - 9"
abbreviation (input) SQL_WLONGVARCHAR :: int where "SQL_WLONGVARCHAR \<equiv> - 10"
abbreviation (input) SQL_GUID :: int where "SQL_GUID \<equiv> - 11"
abbreviation (input) SQL_SS_TIME2 :: int where "SQL_SS_TIME2 \<equiv> - 154"
abbreviation (input) SQL_SS_TIMESTAMPOFFSET :: int where "SQL_SS_TIMESTAMPOFFSET \<equiv> - 155"
abbreviation (input) ODBC_SQL_BLOB_IBM :: int where "ODBC_SQL_BLOB_IBM \<equiv> - 98"
abbreviation (input) ODBC_SQL_BLOB_ALTIBASE :: int where "ODBC_SQL_BLOB_ALTIBASE \<equiv> 30"
abbreviation (input) ODBC_SQL_BYTE_ALTIBASE :: int where "ODBC_SQL_BYTE_ALTIBASE \<equiv> 20001"
abbreviation (input) ODBC_SQL_VARBYTE_ALTIBASE :: int where "ODBC_SQL_VARBYTE_ALTIBASE \<equiv> 20003"
abbreviation (input) SQL_NO_NULLS :: int where "SQL_NO_NULLS \<equiv> 0"
abbreviation (input) SQL_NULLABLE :: int where "SQL_NULLABLE \<equiv> 1"
abbreviation (input) SQL_UNKNOWN_TYPE :: int where "SQL_UNKNOWN_TYPE \<equiv> 0"

datatype OdbcFetchKind =
    FETCH_BOOL | FETCH_I8 | FETCH_I16 | FETCH_I32 | FETCH_I64
  | FETCH_U8 | FETCH_U16 | FETCH_U32 | FETCH_U64 | FETCH_F32 | FETCH_F64
  | FETCH_CHAR | FETCH_WCHAR | FETCH_BINARY | FETCH_DATE | FETCH_TIME | FETCH_TIME_MS | FETCH_TIME64
  | FETCH_TIMESTAMP | FETCH_TIMESTAMP_TZ | FETCH_TIMESTAMP_TEXT | FETCH_DECIMAL | FETCH_BOOL_STR

datatype c_type =
    SQL_C_BIT | SQL_C_UTINYINT | SQL_C_STINYINT | SQL_C_USHORT | SQL_C_SSHORT | SQL_C_ULONG | SQL_C_SLONG
  | SQL_C_UBIGINT | SQL_C_SBIGINT | SQL_C_FLOAT | SQL_C_DOUBLE | SQL_C_CHAR | SQL_C_WCHAR | SQL_C_BINARY
  | SQL_C_TYPE_DATE | SQL_C_TYPE_TIME | SQL_C_TYPE_TIMESTAMP

text \<open>The fields of \<^verbatim>\<open>struct OdbcReaderOptions\<close> that decide how a result set is read.\<close>

record OdbcReaderOptions =
  batch_size :: int
  rowset_bytes :: int
  min_buffer_rows :: int
  prefetch :: int
  ind_stride_32bit :: bool
  sqllen_32bit :: bool
  getdata_bound :: bool
  getdata_repair :: bool
  refetch_repair :: bool
  fixed_rowset :: bool
  max_bind_bytes :: int
  long_bind_bytes :: int
  decimal_as_string :: bool
  decimal_fixed_precision :: int
  decimal_fixed_scale :: int
  timestamp_scale_zero_trusted :: bool
  timestamp_as_text :: bool
  text_as_binary :: bool
  wchar_as_utf8 :: bool
  no_describe_param :: bool

text \<open>
  A column of the reader.  \<open>unit\<close> is \<open>c_unit\<close>; a freshly allocated column is all zero, so its unit
  is \<^verbatim>\<open>NANOARROW_TIME_UNIT_SECOND\<close> and its kind the first one.
\<close>

record OdbcColumn =
  c_name :: string
  sql_type :: int
  column_size :: int
  decimal_digits :: int
  nullable :: int
  kind :: OdbcFetchKind
  ctype :: c_type
  elem_size :: int
  bound :: bool
  clipped :: bool
  trunc_bytes :: int
  c_unit :: time_unit
  precision :: int
  scale :: int

text \<open>What a statement handle answers about column \<open>i\<close>: the raw \<^verbatim>\<open>SQL_DESC_UNSIGNED\<close> word, the type name.\<close>

record hstmt =
  desc_unsigned :: "nat \<Rightarrow> int option"
  desc_type_name :: "nat \<Rightarrow> string option"

subsection \<open>The code\<close>

text \<open>
  A \<^verbatim>\<open>SQLLEN\<close> the driver wrote into a zeroed variable: a driver with 32-bit \<^verbatim>\<open>SQLLEN\<close> writes only
  its low half.
\<close>

definition OdbcReadLen :: "int \<Rightarrow> bool \<Rightarrow> int" where
  "OdbcReadLen p quirk = (if \<not> quirk then p else s32 p)"

definition OdbcReadULen :: "int \<Rightarrow> bool \<Rightarrow> int" where
  "OdbcReadULen p quirk = (if \<not> quirk then p else u32 p)"

definition IsUnsigned :: "hstmt option \<Rightarrow> nat \<Rightarrow> bool \<Rightarrow> bool" where
  "IsUnsigned hs col quirk =
     (case hs of
        None \<Rightarrow> False
      | Some h \<Rightarrow> (case desc_unsigned h col of None \<Rightarrow> False | Some v \<Rightarrow> OdbcReadLen v quirk = 1))"

definition TypeNameIsBool :: "hstmt option \<Rightarrow> nat \<Rightarrow> bool" where
  "TypeNameIsBool hs col =
     (case hs of
        None \<Rightarrow> False
      | Some h \<Rightarrow> (case desc_type_name h col of
          None \<Rightarrow> False
        | Some full \<Rightarrow>
            (let name = map to_lower (take 63 full) in name = ''bool'' \<or> name = ''boolean'')))"

fun MatchFold :: "string \<Rightarrow> string \<Rightarrow> bool" where
  "MatchFold p [] = True"
| "MatchFold [] (n # ns) = False"
| "MatchFold (c # p) (n # ns) = (if to_lower c \<noteq> n then False else MatchFold p ns)"

fun ContainsFoldFrom :: "string \<Rightarrow> string \<Rightarrow> bool" where
  "ContainsFoldFrom [] needle = False"
| "ContainsFoldFrom (c # hay) needle = (MatchFold (c # hay) needle \<or> ContainsFoldFrom hay needle)"

definition ContainsFold :: "string \<Rightarrow> string \<Rightarrow> bool" where
  "ContainsFold hay needle = (if needle = [] then True else ContainsFoldFrom hay needle)"

definition IsTimestampWithTimezone :: "hstmt option \<Rightarrow> nat \<Rightarrow> bool" where
  "IsTimestampWithTimezone hs col =
     (case hs of
        None \<Rightarrow> False
      | Some h \<Rightarrow> (case desc_type_name h col of
          None \<Rightarrow> False
        | Some full \<Rightarrow>
            (let name = take 127 full in
             ContainsFold name ''with time zone'' \<or> ContainsFold name ''timestamptz''
             \<or> ContainsFold name ''timestampoffset'')))"

definition TruncationRepairable :: "OdbcReaderOptions \<Rightarrow> bool" where
  "TruncationRepairable opts =
     (getdata_bound opts \<and> (getdata_repair opts \<or> (refetch_repair opts \<and> \<not> fixed_rowset opts)))"

definition ApplyBindWidth :: "OdbcColumn \<Rightarrow> OdbcReaderOptions \<Rightarrow> OdbcColumn" where
  "ApplyBindWidth c opts =
     (let no_declared_length = (sql_type c = SQL_LONGVARCHAR \<or> sql_type c = SQL_WLONGVARCHAR
            \<or> sql_type c = SQL_LONGVARBINARY \<or> sql_type c = ODBC_SQL_BLOB_IBM \<or> sql_type c = ODBC_SQL_BLOB_ALTIBASE);
          repairable = (TruncationRepairable opts \<and> long_bind_bytes opts > 0)
      in if column_size c = 0 \<and> (\<not> no_declared_length \<or> \<not> repairable) then c\<lparr>bound := False\<rparr>
      else if column_size c \<noteq> 0 \<and> no_declared_length \<and> \<not> repairable then c\<lparr>bound := False\<rparr>
      else let
        c = (if no_declared_length then c\<lparr>clipped := True\<rparr> else c);
        c = (if no_declared_length \<and> repairable \<and> elem_size c < long_bind_bytes opts
             then c\<lparr>elem_size := long_bind_bytes opts\<rparr> else c)
      in if elem_size c > max_bind_bytes opts then
           (if \<not> repairable then c\<lparr>bound := False\<rparr>
            else c\<lparr>elem_size := long_bind_bytes opts, clipped := True\<rparr>)
         else c)"

definition UseTextBuffer :: "OdbcColumn \<Rightarrow> OdbcReaderOptions \<Rightarrow> int \<Rightarrow> OdbcColumn" where
  "UseTextBuffer c opts minimum =
     (let c = c\<lparr>ctype := SQL_C_CHAR, elem_size := s64 (column_size c) + 8\<rparr>;
          c = (if elem_size c < minimum then c\<lparr>elem_size := minimum\<rparr> else c)
      in if elem_size c > max_bind_bytes opts then c\<lparr>bound := False\<rparr> else c)"

definition TimestampUnitForColumn :: "int \<Rightarrow> int \<Rightarrow> bool \<Rightarrow> time_unit" where
  "TimestampUnitForColumn digits0 csize scale_zero_trusted =
     (if digits0 \<le> 0 \<and> \<not> (csize > 20 \<and> csize \<le> 29) then
        (if scale_zero_trusted \<and> csize = 19 then SECOND else MICRO)
      else let digits = (if digits0 \<le> 0 then csize - 20 else digits0) in
        if digits \<le> 0 then SECOND
        else if digits \<le> 3 then MILLI
        else if digits \<le> 6 then MICRO
        else NANO)"

definition ZonedTimestampUnitForColumn :: "int \<Rightarrow> int \<Rightarrow> bool \<Rightarrow> time_unit" where
  "ZonedTimestampUnitForColumn digits csize scale_zero_trusted =
     (if digits > 0 then (if digits \<le> 3 then MILLI else MICRO)
      else if scale_zero_trusted \<and> csize = 19 then SECOND
      else MICRO)"

text \<open>
  \<open>ClassifyColumn\<close>, one definition per group of cases of its \<^verbatim>\<open>switch\<close>.  The structs' sizes are those of
  \<^verbatim>\<open>sql.h\<close>: \<^verbatim>\<open>DATE_STRUCT\<close> and \<^verbatim>\<open>TIME_STRUCT\<close> 6 bytes, \<^verbatim>\<open>TIMESTAMP_STRUCT\<close> 16.
\<close>

definition ClassifyInteger :: "bool \<Rightarrow> OdbcFetchKind \<times> c_type \<Rightarrow> OdbcFetchKind \<times> c_type \<Rightarrow> int \<Rightarrow> OdbcColumn \<Rightarrow> OdbcColumn" where
  "ClassifyInteger uns u s width c =
     (if uns then c\<lparr>kind := fst u, ctype := snd u, elem_size := width\<rparr>
      else c\<lparr>kind := fst s, ctype := snd s, elem_size := width\<rparr>)"

definition ClassifyDecimal :: "OdbcColumn \<Rightarrow> OdbcReaderOptions \<Rightarrow> OdbcColumn" where
  "ClassifyDecimal c opts =
     (let c = c\<lparr>precision := s32 (column_size c), scale := decimal_digits c\<rparr>;
          c = (if decimal_fixed_precision opts > 0
               then c\<lparr>precision := decimal_fixed_precision opts, scale := decimal_fixed_scale opts\<rparr> else c);
          c = (if \<not> decimal_as_string opts \<and> precision c > 0 \<and> precision c \<le> 38 \<and> scale c \<ge> 0 \<and> scale c \<le> precision c
               then c\<lparr>kind := FETCH_DECIMAL\<rparr> else c\<lparr>kind := FETCH_CHAR\<rparr>);
          c = c\<lparr>ctype := SQL_C_CHAR, elem_size := s64 (column_size c) + 4\<rparr>
      in if elem_size c < 48 then c\<lparr>elem_size := 48\<rparr> else c)"

definition ClassifyTime :: "OdbcColumn \<Rightarrow> OdbcReaderOptions \<Rightarrow> OdbcColumn" where
  "ClassifyTime c opts =
     (if decimal_digits c > 0 \<and> decimal_digits c \<le> 3
        then UseTextBuffer (c\<lparr>kind := FETCH_TIME_MS, c_unit := MILLI\<rparr>) opts 40
      else if decimal_digits c > 0
        then UseTextBuffer (c\<lparr>kind := FETCH_TIME64, c_unit := if decimal_digits c > 6 then NANO else MICRO\<rparr>) opts 40
      else c\<lparr>kind := FETCH_TIME, ctype := SQL_C_TYPE_TIME, elem_size := 6\<rparr>)"

definition ClassifyZoned :: "OdbcColumn \<Rightarrow> OdbcReaderOptions \<Rightarrow> OdbcColumn" where
  "ClassifyZoned c opts =
     UseTextBuffer (c\<lparr>kind := FETCH_TIMESTAMP_TZ,
       c_unit := ZonedTimestampUnitForColumn (decimal_digits c) (column_size c) (timestamp_scale_zero_trusted opts)\<rparr>) opts 80"

definition ClassifyTimestamp :: "hstmt option \<Rightarrow> nat \<Rightarrow> OdbcColumn \<Rightarrow> OdbcReaderOptions \<Rightarrow> OdbcColumn" where
  "ClassifyTimestamp hs icol c opts =
     (if IsTimestampWithTimezone hs icol then ClassifyZoned c opts
      else if timestamp_as_text opts
        then UseTextBuffer (c\<lparr>kind := FETCH_TIMESTAMP_TEXT, c_unit := MICRO\<rparr>) opts 80
      else c\<lparr>kind := FETCH_TIMESTAMP, ctype := SQL_C_TYPE_TIMESTAMP, elem_size := 16,
             c_unit := TimestampUnitForColumn (decimal_digits c) (column_size c) (timestamp_scale_zero_trusted opts)\<rparr>)"

definition ClassifyWide :: "int \<Rightarrow> OdbcColumn \<Rightarrow> OdbcReaderOptions \<Rightarrow> OdbcColumn" where
  "ClassifyWide wsize c opts =
     (if text_as_binary opts then
        ApplyBindWidth (c\<lparr>kind := FETCH_CHAR, ctype := SQL_C_BINARY, elem_size := s64 (column_size c) * 4 + 1\<rparr>) opts
      else if wchar_as_utf8 opts then
        ApplyBindWidth (c\<lparr>kind := FETCH_CHAR, ctype := SQL_C_CHAR, elem_size := s64 (column_size c) * 4 + 1\<rparr>) opts
      else let c = ApplyBindWidth (c\<lparr>kind := FETCH_WCHAR, ctype := SQL_C_WCHAR,
                                     elem_size := (s64 (column_size c) + 1) * wsize\<rparr>) opts
           in c\<lparr>elem_size := elem_size c - elem_size c smod wsize\<rparr>)"

definition ClassifyColumn :: "bool \<Rightarrow> int \<Rightarrow> hstmt option \<Rightarrow> nat \<Rightarrow> OdbcColumn \<Rightarrow> OdbcReaderOptions \<Rightarrow> OdbcColumn" where
  "ClassifyColumn win32 wsize hs icol c0 opts =
     (let c = c0\<lparr>bound := True\<rparr>; t = sql_type c; uns = IsUnsigned hs icol (sqllen_32bit opts) in
      if (t = SQL_CHAR \<or> t = SQL_VARCHAR \<or> t = SQL_WCHAR \<or> t = SQL_WVARCHAR) \<and> column_size c \<le> 8
         \<and> TypeNameIsBool hs icol
        then c\<lparr>kind := FETCH_BOOL_STR, ctype := SQL_C_CHAR, elem_size := 16\<rparr>
      else if t = SQL_BIT then c\<lparr>kind := FETCH_BOOL, ctype := SQL_C_BIT, elem_size := 1\<rparr>
      else if t = SQL_TINYINT then ClassifyInteger uns (FETCH_U8, SQL_C_UTINYINT) (FETCH_I8, SQL_C_STINYINT) 1 c
      else if t = SQL_SMALLINT then ClassifyInteger uns (FETCH_U16, SQL_C_USHORT) (FETCH_I16, SQL_C_SSHORT) 2 c
      else if t = SQL_INTEGER then ClassifyInteger uns (FETCH_U32, SQL_C_ULONG) (FETCH_I32, SQL_C_SLONG) 4 c
      else if t = SQL_BIGINT then ClassifyInteger uns (FETCH_U64, SQL_C_UBIGINT) (FETCH_I64, SQL_C_SBIGINT) 8 c
      else if t = SQL_REAL then c\<lparr>kind := FETCH_F32, ctype := SQL_C_FLOAT, elem_size := 4\<rparr>
      else if t = SQL_FLOAT \<or> t = SQL_DOUBLE then c\<lparr>kind := FETCH_F64, ctype := SQL_C_DOUBLE, elem_size := 8\<rparr>
      else if t = SQL_DECIMAL \<or> t = SQL_NUMERIC then ClassifyDecimal c opts
      else if t = SQL_TYPE_DATE \<or> t = SQL_DATE then c\<lparr>kind := FETCH_DATE, ctype := SQL_C_TYPE_DATE, elem_size := 6\<rparr>
      else if t = SQL_TYPE_TIME \<or> t = SQL_TIME \<or> t = SQL_SS_TIME2 then ClassifyTime c opts
      else if t = SQL_TYPE_TIME_WITH_TIMEZONE then UseTextBuffer (c\<lparr>kind := FETCH_CHAR\<rparr>) opts 40
      else if t = SQL_SS_TIMESTAMPOFFSET \<or> t = SQL_TYPE_TIMESTAMP_WITH_TIMEZONE then ClassifyZoned c opts
      else if t = SQL_TYPE_TIMESTAMP \<or> t = SQL_TIMESTAMP then ClassifyTimestamp hs icol c opts
      else if t = SQL_GUID \<or> (SQL_INTERVAL_YEAR \<le> t \<and> t \<le> SQL_INTERVAL_MINUTE_TO_SECOND)
        then UseTextBuffer (c\<lparr>kind := FETCH_CHAR\<rparr>) opts 64
      else if t = SQL_BINARY \<or> t = SQL_VARBINARY \<or> t = SQL_LONGVARBINARY \<or> t = ODBC_SQL_BLOB_IBM
           \<or> t = ODBC_SQL_BLOB_ALTIBASE \<or> t = ODBC_SQL_BYTE_ALTIBASE \<or> t = ODBC_SQL_VARBYTE_ALTIBASE
        then ApplyBindWidth (c\<lparr>kind := FETCH_BINARY, ctype := SQL_C_BINARY, elem_size := s64 (column_size c)\<rparr>) opts
      else if win32 \<or> t = SQL_WCHAR \<or> t = SQL_WVARCHAR \<or> t = SQL_WLONGVARCHAR then ClassifyWide wsize c opts
      else ApplyBindWidth (c\<lparr>kind := FETCH_CHAR, ctype := SQL_C_CHAR, elem_size := s64 (column_size c) * 4 + 1\<rparr>) opts)"

subsection \<open>Describing a result set and its parameters\<close>

text \<open>What \<^verbatim>\<open>SQLDescribeCol\<close> or \<^verbatim>\<open>SQLDescribeParam\<close> writes for one column.\<close>

record col_desc =
  d_name :: string
  d_type :: int
  d_size :: int
  d_digits :: int
  d_nullable :: int

text \<open>A zeroed \<^verbatim>\<open>struct OdbcColumn\<close> with the described fields filled in.\<close>

definition column_of :: "string \<Rightarrow> col_desc \<Rightarrow> OdbcColumn" where
  "column_of name d =
     \<lparr>c_name = name, sql_type = d_type d, column_size = d_size d, decimal_digits = d_digits d, nullable = d_nullable d,
      kind = FETCH_BOOL, ctype = SQL_C_CHAR, elem_size = 0, bound = False, clipped = False, trunc_bytes = 0,
      c_unit = SECOND, precision = 0, scale = 0\<rparr>"

definition DescribeName :: "nat \<Rightarrow> string \<Rightarrow> string" where
  "DescribeName i name = (if name = [] then ''column'' @ fmt_d (int i) else take 1023 name)"

text \<open>The final pass: everything after the first unbound column is unbound too.\<close>

fun UnbindAfter :: "bool \<Rightarrow> OdbcColumn list \<Rightarrow> OdbcColumn list" where
  "UnbindAfter seen_unbound [] = []"
| "UnbindAfter seen_unbound (c # cs) =
     (if \<not> bound c then c # UnbindAfter True cs
      else if seen_unbound then c\<lparr>bound := False\<rparr> # UnbindAfter seen_unbound cs
      else c # UnbindAfter seen_unbound cs)"

text \<open>
  \<open>describe i\<close> is \<^verbatim>\<open>SQLDescribeCol\<close> on column \<open>i + 1\<close>: the description, or the status its diagnostics
  map to.
\<close>

fun DescribeLoop :: "(nat \<Rightarrow> OdbcColumn \<Rightarrow> OdbcColumn) \<Rightarrow> bool \<Rightarrow> (nat \<Rightarrow> status + col_desc) \<Rightarrow> nat list
    \<Rightarrow> status + OdbcColumn list" where
  "DescribeLoop classify quirk describe [] = Inr []"
| "DescribeLoop classify quirk describe (i # is) =
     (case describe i of
        Inl e \<Rightarrow> Inl e
      | Inr d \<Rightarrow>
          (let c = column_of (DescribeName i (d_name d)) d;
               c = c\<lparr>column_size := OdbcReadULen (column_size c) quirk\<rparr>
           in case DescribeLoop classify quirk describe is of
                Inl e \<Rightarrow> Inl e
              | Inr cs \<Rightarrow> Inr (classify i c # cs)))"

definition DescribeColumns :: "bool \<Rightarrow> int \<Rightarrow> hstmt \<Rightarrow> OdbcReaderOptions \<Rightarrow> status + nat \<Rightarrow> (nat \<Rightarrow> status + col_desc)
    \<Rightarrow> status + OdbcColumn list" where
  "DescribeColumns win32 wsize h opts num_cols describe =
     (case num_cols of
        Inl e \<Rightarrow> Inl e
      | Inr n \<Rightarrow> (case DescribeLoop (\<lambda>i c. ClassifyColumn win32 wsize (Some h) (i + 1) c opts) (sqllen_32bit opts) describe [0..<n] of
          Inl e \<Rightarrow> Inl e
        | Inr cs \<Rightarrow> Inr (UnbindAfter False cs)))"

datatype arrow_type =
    BOOL_TYPE | INT_TYPE nat | UINT_TYPE nat | FLOAT_TYPE | DOUBLE_TYPE | STRING_TYPE | BINARY_TYPE | DATE32_TYPE
  | TIME32_TYPE time_unit | TIME64_TYPE time_unit | TIMESTAMP_TYPE time_unit "string option" | DECIMAL128_TYPE int int

record arrow_field =
  f_name :: string
  f_type :: arrow_type
  f_nullable :: bool

fun SchemaType :: "OdbcFetchKind \<Rightarrow> time_unit \<Rightarrow> int \<Rightarrow> int \<Rightarrow> arrow_type" where
  "SchemaType FETCH_BOOL u p s = BOOL_TYPE"
| "SchemaType FETCH_BOOL_STR u p s = BOOL_TYPE"
| "SchemaType FETCH_I8 u p s = INT_TYPE 8"
| "SchemaType FETCH_I16 u p s = INT_TYPE 16"
| "SchemaType FETCH_I32 u p s = INT_TYPE 32"
| "SchemaType FETCH_I64 u p s = INT_TYPE 64"
| "SchemaType FETCH_U8 u p s = UINT_TYPE 8"
| "SchemaType FETCH_U16 u p s = UINT_TYPE 16"
| "SchemaType FETCH_U32 u p s = UINT_TYPE 32"
| "SchemaType FETCH_U64 u p s = UINT_TYPE 64"
| "SchemaType FETCH_F32 u p s = FLOAT_TYPE"
| "SchemaType FETCH_F64 u p s = DOUBLE_TYPE"
| "SchemaType FETCH_CHAR u p s = STRING_TYPE"
| "SchemaType FETCH_WCHAR u p s = STRING_TYPE"
| "SchemaType FETCH_BINARY u p s = BINARY_TYPE"
| "SchemaType FETCH_DATE u p s = DATE32_TYPE"
| "SchemaType FETCH_TIME u p s = TIME32_TYPE SECOND"
| "SchemaType FETCH_TIME_MS u p s = TIME32_TYPE MILLI"
| "SchemaType FETCH_TIME64 u p s = TIME64_TYPE u"
| "SchemaType FETCH_TIMESTAMP u p s = TIMESTAMP_TYPE u None"
| "SchemaType FETCH_TIMESTAMP_TEXT u p s = TIMESTAMP_TYPE u None"
| "SchemaType FETCH_TIMESTAMP_TZ u p s = TIMESTAMP_TYPE u (Some ''UTC'')"
| "SchemaType FETCH_DECIMAL u p s = DECIMAL128_TYPE p s"

definition BuildSchema :: "OdbcColumn list \<Rightarrow> arrow_field list" where
  "BuildSchema cols =
     map (\<lambda>c. \<lparr>f_name = c_name c, f_type = SchemaType (kind c) (c_unit c) (precision c) (scale c),
              f_nullable = (nullable c \<noteq> SQL_NO_NULLS)\<rparr>) cols"

definition OdbcDescribeResultSchema :: "bool \<Rightarrow> int \<Rightarrow> hstmt \<Rightarrow> OdbcReaderOptions \<Rightarrow> status + nat
    \<Rightarrow> (nat \<Rightarrow> status + col_desc) \<Rightarrow> status + arrow_field list" where
  "OdbcDescribeResultSchema win32 wsize h opts num_cols describe =
     (case DescribeColumns win32 wsize h opts num_cols describe of Inl e \<Rightarrow> Inl e | Inr cs \<Rightarrow> Inr (BuildSchema cs))"

text \<open>
  The parameter loop: the columns filled in so far and the flag \<open>described\<close>.  \<open>describe i\<close> is
  \<^verbatim>\<open>SQLDescribeParam\<close>, \<^const>\<open>None\<close> when it fails; a column it is not asked about stays zeroed.
\<close>

definition blank_desc :: col_desc where
  "blank_desc = \<lparr>d_name = [], d_type = 0, d_size = 0, d_digits = 0, d_nullable = 0\<rparr>"

fun ParamLoop :: "(OdbcColumn \<Rightarrow> OdbcColumn) \<Rightarrow> bool \<Rightarrow> (nat \<Rightarrow> col_desc option) \<Rightarrow> nat list \<Rightarrow> bool \<Rightarrow> bool \<times> OdbcColumn list" where
  "ParamLoop classify no_describe describe [] described = (described, [])"
| "ParamLoop classify no_describe describe (i # is) described =
     (let name = fmt_d (int i);
          (d', c) =
            (if \<not> described \<or> no_describe then (False, column_of name blank_desc)
             else case describe i of
               None \<Rightarrow> (False, column_of name blank_desc)
             | Some d \<Rightarrow> if d_type d = SQL_UNKNOWN_TYPE then (False, column_of name d)
                         else (True, classify (column_of name d)));
          (r, cs) = ParamLoop classify no_describe describe is d'
      in (r, c # cs))"

definition OdbcDescribeParameterSchema :: "bool \<Rightarrow> int \<Rightarrow> OdbcReaderOptions \<Rightarrow> status + int
    \<Rightarrow> (nat \<Rightarrow> col_desc option) \<Rightarrow> status + arrow_field list" where
  "OdbcDescribeParameterSchema win32 wsize opts num_params describe =
     (case num_params of
        Inl e \<Rightarrow> Inl e
      | Inr n \<Rightarrow>
          (let (described, cols) = ParamLoop (\<lambda>c. ClassifyColumn win32 wsize None 0 c opts) (no_describe_param opts)
                 describe [0..<nat n] True;
               cols = (if described then cols else map (\<lambda>c. c\<lparr>kind := FETCH_CHAR, nullable := SQL_NULLABLE\<rparr>) cols)
           in Inr (BuildSchema cols)))"

section \<open>What the classification guarantees\<close>

lemma MatchFold_prefix: "list_all (\<lambda>c. to_lower c = c) needle \<Longrightarrow> MatchFold hay needle = prefix needle (map to_lower hay)"
  by (induction hay needle rule: MatchFold.induct) auto

text \<open>
  \<open>ContainsFold\<close> finds a lower-case needle exactly when the lower-cased text contains it, and it
  never reads beyond the terminator.
\<close>

theorem ContainsFold_sublist:
  assumes "list_all (\<lambda>c. to_lower c = c) needle"
  shows "ContainsFold hay needle = sublist needle (map to_lower hay)"
proof -
  have "ContainsFoldFrom hay needle = sublist needle (map to_lower hay)" if "needle \<noteq> []"
    using that by (induction hay) (auto simp: MatchFold_prefix [OF assms] sublist_Cons_right)
  then show ?thesis by (simp add: ContainsFold_def)
qed

theorem ContainsFold_sublist_witness:
  "ContainsFold ''TIMESTAMP(6) WITH TIME ZONE'' ''with time zone''
     = sublist ''with time zone'' (map to_lower ''TIMESTAMP(6) WITH TIME ZONE'')"
proof -
  have "list_all (\<lambda>c. to_lower c = c) ''with time zone''" by code_simp
  then show ?thesis by (rule ContainsFold_sublist)
qed

subsection \<open>Buffer widths\<close>

text \<open>The width of the kinds that have one of their own.\<close>

fun fixed_width :: "OdbcFetchKind \<Rightarrow> int option" where
  "fixed_width FETCH_BOOL = Some 1"
| "fixed_width FETCH_I8 = Some 1"
| "fixed_width FETCH_U8 = Some 1"
| "fixed_width FETCH_I16 = Some 2"
| "fixed_width FETCH_U16 = Some 2"
| "fixed_width FETCH_I32 = Some 4"
| "fixed_width FETCH_U32 = Some 4"
| "fixed_width FETCH_F32 = Some 4"
| "fixed_width FETCH_I64 = Some 8"
| "fixed_width FETCH_U64 = Some 8"
| "fixed_width FETCH_F64 = Some 8"
| "fixed_width FETCH_DATE = Some 6"
| "fixed_width FETCH_TIME = Some 6"
| "fixed_width FETCH_TIMESTAMP = Some 16"
| "fixed_width _ = None"

definition is_char_type :: "int \<Rightarrow> bool" where
  "is_char_type t \<longleftrightarrow> t = SQL_CHAR \<or> t = SQL_VARCHAR \<or> t = SQL_LONGVARCHAR \<or> t = SQL_WCHAR \<or> t = SQL_WVARCHAR \<or> t = SQL_WLONGVARCHAR"

text \<open>
  The bytes a value of the declared size \<open>n\<close> can need: four per character and a terminator for text,
  \<open>n\<close> for bytes, \<open>n\<close> digits with sign, point and terminator for a decimal.
\<close>

definition declared_bytes :: "int \<Rightarrow> OdbcColumn \<Rightarrow> int" where
  "declared_bytes wsize c =
     (if kind c = FETCH_WCHAR then (column_size c + 1) * wsize
      else if kind c = FETCH_BINARY then column_size c
      else if kind c = FETCH_CHAR \<and> is_char_type (sql_type c) then column_size c * 4 + 1
      else if fixed_width (kind c) = None then column_size c + 4
      else 0)"

definition width_ok :: "int \<Rightarrow> OdbcReaderOptions \<Rightarrow> OdbcColumn \<Rightarrow> bool" where
  "width_ok wsize opts c \<longleftrightarrow> (bound c \<longrightarrow>
     (clipped c \<longrightarrow> TruncationRepairable opts \<and> 0 < long_bind_bytes opts)
   \<and> (\<not> clipped c \<longrightarrow> declared_bytes wsize c \<le> elem_size c)
   \<and> (kind c = FETCH_WCHAR \<longrightarrow> elem_size c mod wsize = 0)
   \<and> (\<forall>w. fixed_width (kind c) = Some w \<longrightarrow> elem_size c = w))"

lemma if_both: "(b \<Longrightarrow> P x) \<Longrightarrow> (\<not> b \<Longrightarrow> P y) \<Longrightarrow> P (if b then x else y)"
  by simp

lemma ApplyBindWidth_fields [simp]:
  "sql_type (ApplyBindWidth c opts) = sql_type c" "kind (ApplyBindWidth c opts) = kind c"
  "column_size (ApplyBindWidth c opts) = column_size c"
  by (simp_all add: ApplyBindWidth_def Let_def)

lemma ApplyBindWidth_safe:
  assumes "bound (ApplyBindWidth c opts)"
  shows "clipped (ApplyBindWidth c opts) \<Longrightarrow> clipped c \<or> TruncationRepairable opts \<and> 0 < long_bind_bytes opts"
    and "\<not> clipped (ApplyBindWidth c opts) \<Longrightarrow> elem_size (ApplyBindWidth c opts) = elem_size c \<and> column_size c \<noteq> 0"
proof -
  define nd where "nd = (sql_type c = SQL_LONGVARCHAR \<or> sql_type c = SQL_WLONGVARCHAR
    \<or> sql_type c = SQL_LONGVARBINARY \<or> sql_type c = ODBC_SQL_BLOB_IBM \<or> sql_type c = ODBC_SQL_BLOB_ALTIBASE)"
  define rp where "rp = (TruncationRepairable opts \<and> long_bind_bytes opts > 0)"
  note d = ApplyBindWidth_def [of c opts, folded nd_def rp_def, unfolded Let_def]
  show "clipped (ApplyBindWidth c opts) \<Longrightarrow> clipped c \<or> TruncationRepairable opts \<and> 0 < long_bind_bytes opts"
    using assms unfolding d by (cases nd; cases rp) (simp_all add: rp_def split: if_splits)
  show "\<not> clipped (ApplyBindWidth c opts) \<Longrightarrow> elem_size (ApplyBindWidth c opts) = elem_size c \<and> column_size c \<noteq> 0"
    using assms unfolding d by (cases nd; cases rp) (simp_all split: if_splits)
qed

lemma width_ok_apply:
  assumes "\<not> clipped c" "fixed_width (kind c) = None" "kind c \<noteq> FETCH_WCHAR"
    and "column_size c \<noteq> 0 \<Longrightarrow> declared_bytes wsize c \<le> elem_size c"
  shows "width_ok wsize opts (ApplyBindWidth c opts)"
  using assms ApplyBindWidth_safe [of c opts] by (auto simp: width_ok_def declared_bytes_def)

lemma width_ok_text:
  assumes "\<not> clipped c" "fixed_width (kind c) = None" "kind c \<noteq> FETCH_WCHAR" "\<not> is_char_type (sql_type c)" "0 \<le> column_size c"
    "column_size c \<le> INT64_MAX"
  shows "width_ok wsize opts (UseTextBuffer c opts m)"
  using assms unfolding UseTextBuffer_def Let_def width_ok_def declared_bytes_def
  by (auto simp: s64_id)

lemma width_ok_fixed:
  "fixed_width (kind c) = Some (elem_size c) \<Longrightarrow> \<not> clipped c \<Longrightarrow> width_ok wsize opts c"
  by (cases "kind c") (simp_all add: width_ok_def declared_bytes_def)

lemma width_ok_integer:
  assumes "\<not> clipped c" "fixed_width (fst u) = Some w" "fixed_width (fst s) = Some w"
  shows "width_ok wsize opts (ClassifyInteger b u s w c)"
  using assms by (auto simp: ClassifyInteger_def intro!: width_ok_fixed)

lemma width_ok_decimal:
  assumes "\<not> clipped c" "0 \<le> column_size c" "column_size c \<le> INT64_MAX" "\<not> is_char_type (sql_type c)"
  shows "width_ok wsize opts (ClassifyDecimal c opts)"
  using assms unfolding ClassifyDecimal_def Let_def width_ok_def declared_bytes_def
  by (auto simp: s64_id)

lemma width_ok_wide:
  assumes "\<not> clipped c" "0 \<le> column_size c" "column_size c \<le> INT64_MAX" "0 < wsize" "0 \<le> long_bind_bytes opts"
  shows "width_ok wsize opts (ClassifyWide wsize c opts)"
proof -
  define d where "d = c\<lparr>kind := FETCH_WCHAR, ctype := SQL_C_WCHAR, elem_size := (s64 (column_size c) + 1) * wsize\<rparr>"
  define r where "r = ApplyBindWidth d opts"
  have d: "\<not> clipped d" "kind d = FETCH_WCHAR" "column_size d = column_size c" "elem_size d = (column_size c + 1) * wsize"
    using assms by (simp_all add: d_def s64_id)
  note s = ApplyBindWidth_safe [of d opts, folded r_def]
  have e: "0 \<le> elem_size r" if "bound r"
    using that assms(2,4,5) d unfolding r_def ApplyBindWidth_def Let_def by (auto split: if_splits)
  have "width_ok wsize opts (r\<lparr>elem_size := elem_size r - elem_size r smod wsize\<rparr>)"
  proof -
    have sm: "elem_size r smod wsize = elem_size r mod wsize" if "bound r" using e [OF that] assms(4) by (simp add: smod_nonneg)
    have "(x - x mod wsize) mod wsize = 0" for x by (simp add: minus_mod_eq_mult_div)
    then show ?thesis using sm s d by (auto simp: width_ok_def declared_bytes_def r_def)
  qed
  moreover have "width_ok wsize opts (ApplyBindWidth (c\<lparr>kind := FETCH_CHAR, ctype := t, elem_size := s64 (column_size c) * 4 + 1\<rparr>) opts)" for t
    using assms by (intro width_ok_apply) (auto simp: declared_bytes_def s64_id)
  ultimately show ?thesis unfolding ClassifyWide_def Let_def d_def [symmetric] r_def [symmetric] by simp
qed

lemma ClassifyColumn_width_lemma:
  assumes "\<not> clipped c" "0 \<le> column_size c" "column_size c \<le> INT64_MAX" "0 < wsize" "0 \<le> long_bind_bytes opts"
  shows "width_ok wsize opts (ClassifyColumn win32 wsize hs icol c opts)"
proof -
  let ?c = "c\<lparr>bound := True\<rparr>"
  have c: "\<not> clipped ?c" "0 \<le> column_size ?c" "column_size ?c \<le> INT64_MAX" using assms by simp_all
  have tx: "width_ok wsize opts (UseTextBuffer (?c\<lparr>kind := k\<rparr>) opts m)"
    if "fixed_width k = None" "k \<noteq> FETCH_WCHAR" "\<not> is_char_type (sql_type c)" for k m
    using width_ok_text [of "?c\<lparr>kind := k\<rparr>" wsize opts m] that assms by simp
  have un: "width_ok wsize opts (UseTextBuffer (?c\<lparr>kind := k, c_unit := u\<rparr>) opts m)"
    if "fixed_width k = None" "k \<noteq> FETCH_WCHAR" "\<not> is_char_type (sql_type c)" for k u m
    using width_ok_text [of "?c\<lparr>kind := k, c_unit := u\<rparr>" wsize opts m] that assms by simp
  have fixed: "width_ok wsize opts (?c\<lparr>kind := k, ctype := t, elem_size := e\<rparr>)" if "fixed_width k = Some e" for k t e
    using that assms(1) by (intro width_ok_fixed) simp_all
  have zoned: "\<not> is_char_type (sql_type c) \<Longrightarrow> width_ok wsize opts (ClassifyZoned ?c opts)"
    unfolding ClassifyZoned_def by (intro un) simp_all
  have stamp: "\<not> is_char_type (sql_type c) \<Longrightarrow> width_ok wsize opts (ClassifyTimestamp hs icol ?c opts)"
    unfolding ClassifyTimestamp_def using zoned un assms(1) by (auto intro!: width_ok_fixed)
  have time: "\<not> is_char_type (sql_type c) \<Longrightarrow> width_ok wsize opts (ClassifyTime ?c opts)"
    unfolding ClassifyTime_def using un fixed by simp
  have ap: "width_ok wsize opts (ApplyBindWidth (?c\<lparr>kind := FETCH_CHAR, ctype := SQL_C_CHAR,
      elem_size := s64 (column_size ?c) * 4 + 1\<rparr>) opts)"
    "width_ok wsize opts (ApplyBindWidth (?c\<lparr>kind := FETCH_BINARY, ctype := SQL_C_BINARY, elem_size := s64 (column_size ?c)\<rparr>) opts)"
    using assms by (intro width_ok_apply; auto simp: declared_bytes_def s64_id)+
  have bs: "width_ok wsize opts (?c\<lparr>kind := FETCH_BOOL_STR, ctype := SQL_C_CHAR, elem_size := 16\<rparr>)" if "column_size ?c \<le> 8"
    using that assms(1) by (simp add: width_ok_def declared_bytes_def)
  have ct: "\<not> is_char_type t" if "t \<in> {3, 2, 92, 10, -154, 94, -155, 95, 93, 11, -11} \<or> 101 \<le> t \<and> t \<le> 113" for t :: int
    using that by (auto simp: is_char_type_def)
  have sq: "sql_type ?c = sql_type c" by simp
  let ?P = "width_ok wsize opts"
  note branch = if_both [where P = ?P]
  note int = width_ok_integer [OF c(1)]
  show ?thesis
    unfolding ClassifyColumn_def Let_def sq
    apply (rule branch, rule bs, blast)
    apply (rule branch, rule fixed, simp)
    apply (rule branch, rule int, simp, simp)
    apply (rule branch, rule int, simp, simp)
    apply (rule branch, rule int, simp, simp)
    apply (rule branch, rule int, simp, simp)
    apply (rule branch, rule fixed, simp)
    apply (rule branch, rule fixed, simp)
    apply (rule branch, rule width_ok_decimal [OF c], unfold sq, rule ct, blast)
    apply (rule branch, rule fixed, simp)
    apply (rule branch, rule time, rule ct, blast)
    apply (rule branch, rule tx, simp, simp, rule ct, blast)
    apply (rule branch, rule zoned, rule ct, blast)
    apply (rule branch, rule stamp, rule ct, blast)
    apply (rule branch, rule tx, simp, simp, rule ct, blast)
    apply (rule branch, rule ap(2))
    apply (rule branch, rule width_ok_wide [OF c assms(4,5)], rule ap(1))
    done
qed


definition demo_opts :: OdbcReaderOptions where
  "demo_opts = \<lparr>batch_size = 1024, rowset_bytes = 16777216, min_buffer_rows = 0, prefetch = 0, ind_stride_32bit = False,
     sqllen_32bit = False, getdata_bound = True, getdata_repair = True, refetch_repair = False, fixed_rowset = False,
     max_bind_bytes = 4096, long_bind_bytes = 1024, decimal_as_string = False, decimal_fixed_precision = 0, decimal_fixed_scale = 0,
     timestamp_scale_zero_trusted = False, timestamp_as_text = False, text_as_binary = False, wchar_as_utf8 = False,
     no_describe_param = False\<rparr>"


subsection \<open>The result set as a whole\<close>

lemma UnbindAfter_length [simp]: "length (UnbindAfter s cs) = length cs"
  by (induction s cs rule: UnbindAfter.induct) auto

lemma UnbindAfter_seen: "c \<in> set (UnbindAfter True cs) \<Longrightarrow> \<not> bound c"
  by (induction cs) (auto split: if_splits)

lemma UnbindAfter_prefix:
  "i \<le> j \<Longrightarrow> j < length cs \<Longrightarrow> bound (UnbindAfter False cs ! j) \<Longrightarrow> bound (UnbindAfter False cs ! i)"
proof (induction cs arbitrary: i j)
  case (Cons c cs)
  show ?case
  proof (cases "bound c")
    case True
    then show ?thesis using Cons by (cases i; cases j) auto
  next
    case False
    have "\<not> bound (UnbindAfter False (c # cs) ! j)"
      using False Cons.prems(2) UnbindAfter_seen [of _ cs] by (cases j) auto
    then show ?thesis using Cons.prems(3) by blast
  qed
qed simp

lemma width_ok_unbind: "width_ok wsize opts (c\<lparr>bound := False\<rparr>)"
  by (simp add: width_ok_def)

lemma UnbindAfter_width: "list_all (width_ok wsize opts) cs \<Longrightarrow> list_all (width_ok wsize opts) (UnbindAfter s cs)"
  by (induction s cs rule: UnbindAfter.induct) (auto simp: width_ok_unbind)

lemma DescribeLoop_all:
  assumes "DescribeLoop f quirk describe is = Inr cs"
  shows "length cs = length is \<and> (\<forall>k<length is. \<exists>d. describe (is ! k) = Inr d
     \<and> cs ! k = f (is ! k) ((column_of (DescribeName (is ! k) (d_name d)) d)\<lparr>column_size := OdbcReadULen (d_size d) quirk\<rparr>))"
  using assms
proof (induction "is" arbitrary: cs)
  case (Cons i "is")
  from Cons.prems obtain d cs' where d: "describe i = Inr d" "DescribeLoop f quirk describe is = Inr cs'"
    "cs = f i ((column_of (DescribeName i (d_name d)) d)\<lparr>column_size := OdbcReadULen (d_size d) quirk\<rparr>) # cs'"
    by (auto simp: Let_def column_of_def split: sum.splits)
  from Cons.IH [OF d(2)] d show ?case by (auto simp: nth_Cons split: nat.splits)
qed simp


definition demo_hstmt :: hstmt where
  "demo_hstmt = \<lparr>desc_unsigned = (\<lambda>_. None), desc_type_name = (\<lambda>_. None)\<rparr>"


text \<open>
  A timestamp column never loses digits the driver announced.  With a reported scale of 1 to 9
  the Arrow unit has at least that many fractional digits; with no scale the announced column size
  decides; seconds are used only where a scale of zero is trusted.  A zoned column stops at six digits.
\<close>

theorem timestamp_unit_keeps_digits:
  assumes "0 \<le> dd" "dd \<le> 9"
  shows "int (UnitFractionDigits (TimestampUnitForColumn dd csize trusted)) \<ge> (if 0 < dd then dd else if 20 < csize \<and> csize \<le> 29 then csize - 20 else 0)
       \<and> (TimestampUnitForColumn dd csize trusted = SECOND \<longrightarrow> dd = 0 \<and> trusted \<and> csize = 19)
       \<and> int (UnitFractionDigits (ZonedTimestampUnitForColumn dd csize trusted)) \<ge> min dd 6
       \<and> (ZonedTimestampUnitForColumn dd csize trusted = SECOND \<longrightarrow> dd = 0 \<and> trusted \<and> csize = 19)"
  using assms by (auto simp: TimestampUnitForColumn_def ZonedTimestampUnitForColumn_def Let_def)

theorem timestamp_unit_keeps_digits_witness:
  "int (UnitFractionDigits (TimestampUnitForColumn 6 26 False)) \<ge> 6"
  using timestamp_unit_keeps_digits [of 6 26 False] by simp

lemma ParamLoop_all:
  "ParamLoop f nd describe is b = (r, cs) \<Longrightarrow>
   length cs = length is \<and> (r \<longrightarrow> b \<and> (\<forall>i \<in> set is. \<not> nd \<and> (\<exists>d. describe i = Some d \<and> d_type d \<noteq> 0)))"
proof (induction "is" arbitrary: b r cs)
  case (Cons i "is")
  obtain d' c cs' where cs': "ParamLoop f nd describe is d' = (r, cs')" "cs = c # cs'"
    and d': "d' \<Longrightarrow> b \<and> \<not> nd \<and> (\<exists>d. describe i = Some d \<and> d_type d \<noteq> 0)"
    using Cons.prems by (fastforce simp: Let_def split: prod.splits if_splits option.splits)
  from Cons.IH [OF cs'(1)] d' show ?case unfolding cs'(2) by auto
qed simp

text \<open>
  The parameter schema is all or nothing: one field per parameter, and either the driver
  described every one of them, or every field is a nullable string.
\<close>

theorem parameter_schema_all_or_nothing:
  assumes "OdbcDescribeParameterSchema win32 wsize opts (Inr n) describe = Inr fs"
  shows "length fs = nat n
       \<and> ((\<forall>i<nat n. \<exists>d. describe i = Some d \<and> d_type d \<noteq> 0 \<and> \<not> no_describe_param opts)
          \<or> (\<forall>f \<in> set fs. f_type f = STRING_TYPE \<and> f_nullable f))"
proof -
  obtain r cs where p: "ParamLoop (\<lambda>c. ClassifyColumn win32 wsize None 0 c opts) (no_describe_param opts) describe [0..<nat n] True = (r, cs)"
    by (metis surj_pair)
  note all = ParamLoop_all [OF p]
  have fs: "fs = BuildSchema (if r then cs else map (\<lambda>c. c\<lparr>kind := FETCH_CHAR, nullable := SQL_NULLABLE\<rparr>) cs)"
    using assms by (simp add: OdbcDescribeParameterSchema_def p Let_def)
  show ?thesis using all by (cases r) (auto simp: fs BuildSchema_def)
qed

theorem parameter_schema_all_or_nothing_witness:
  "\<exists>fs. OdbcDescribeParameterSchema False 2 demo_opts (Inr 2) (\<lambda>_. None) = Inr fs \<and> length fs = 2"
proof -
  obtain fs where fs: "OdbcDescribeParameterSchema False 2 demo_opts (Inr 2) (\<lambda>_. None) = Inr fs"
    by (fastforce simp: OdbcDescribeParameterSchema_def Let_def case_prod_beta)
  show ?thesis using parameter_schema_all_or_nothing [OF fs] fs by simp
qed

end
