(* ===== verification/Partition.thy ===== *)
theory Partition
  imports Prelude
begin

text \<open>
  Partitioned result sets, \<^verbatim>\<open>src/odbc_partition.c\<close>: the scanner that recognises a query that can be
  split, the catalog gate that chooses an ordered expression to split on, the boundary arithmetic,
  the descriptors \<open>ExecutePartitions\<close> hands out and \<open>ReadPartition\<close>, which runs one of them.

  The server is a parameter: a record of what it answers to \<^verbatim>\<open>SQLGetInfo\<close>, to a query's first row,
  and to the two catalog functions.  A (pointer, length) pair into the query text is the text and
  the offset; \<open>sql ! i\<close> is only read below the bound the code checks.
\<close>

subsection \<open>The scanner\<close>

abbreviation SQ :: char where "SQ \<equiv> CHR 0x27"

definition IsIdentStart :: "char \<Rightarrow> bool" where
  "IsIdentStart c \<longleftrightarrow> (CHR ''a'' \<le> c \<and> c \<le> CHR ''z'') \<or> (CHR ''A'' \<le> c \<and> c \<le> CHR ''Z'') \<or> c = CHR ''_''"

definition IsIdentChar :: "char \<Rightarrow> bool" where
  "IsIdentChar c \<longleftrightarrow> IsIdentStart c \<or> (CHR ''0'' \<le> c \<and> c \<le> CHR ''9'') \<or> c = CHR ''$''"

definition IsSpace :: "char \<Rightarrow> bool" where
  "IsSpace c \<longleftrightarrow> c = CHR '' '' \<or> c = CHR 0x09 \<or> c = CHR 0x0A \<or> c = CHR 0x0D \<or> c = CHR 0x0C"

function SkipSpace :: "string \<Rightarrow> nat \<Rightarrow> nat \<Rightarrow> nat" where
  "SkipSpace s n i = (if i < n \<and> IsSpace (s ! i) then SkipSpace s n (i + 1) else i)"
  by pat_completeness auto
termination by (relation "measure (\<lambda>(s, n, i). n - i)") auto

text \<open>\<open>SkipIdent\<close> is the loop \<^verbatim>\<open>while (t < n && IsIdentChar(sql[t])) t++\<close>, which occurs twice.\<close>

function SkipIdent :: "string \<Rightarrow> nat \<Rightarrow> nat \<Rightarrow> nat" where
  "SkipIdent s n i = (if i < n \<and> IsIdentChar (s ! i) then SkipIdent s n (i + 1) else i)"
  by pat_completeness auto
termination by (relation "measure (\<lambda>(s, n, i). n - i)") auto

fun MatchWord :: "string \<Rightarrow> nat \<Rightarrow> nat \<Rightarrow> string \<Rightarrow> nat" where
  "MatchWord s n i [] = (if i < n \<and> IsIdentChar (s ! i) then 0 else i)"
| "MatchWord s n i (b # word) =
     (if i \<ge> n then 0
      else if to_lower (s ! i) \<noteq> to_lower b then 0
      else MatchWord s n (i + 1) word)"

definition kUnsplittableWords :: "string list" where
  "kUnsplittableWords =
    [''where'', ''join'', ''group'', ''order'', ''limit'', ''offset'', ''union'',
     ''except'', ''having'', ''window'', ''fetch'', ''for'', ''into'', ''with'',
     ''values'', ''using'', ''natural'', ''cross'', ''inner'', ''outer'', ''left'',
     ''right'', ''full'', ''lateral'', ''only'', ''distinct'', ''all'', ''top'',
     ''as'', ''on'', ''intersect'', ''tablesample'']"

definition forbidden_char :: "char \<Rightarrow> bool" where
  "forbidden_char c \<longleftrightarrow>
     c = SQ \<or> c = CHR 0x22 \<or> c = CHR 0x60 \<or> c = CHR ''('' \<or> c = CHR '')'' \<or> c = CHR '';'' \<or> c = CHR ''?''
   \<or> c = CHR ''['' \<or> c = CHR '']'' \<or> c = CHR ''{'' \<or> c = CHR ''}'' \<or> c = CHR ''@'' \<or> c = CHR '':'' \<or> c = CHR 0x5C"

lemma MatchWord_ge: "MatchWord s n i w \<noteq> 0 \<Longrightarrow> MatchWord s n i w = i + length w"
proof (induction w arbitrary: i)
  case (Cons a w)
  from Cons.prems have "MatchWord s n (i + 1) w \<noteq> 0" "MatchWord s n i (a # w) = MatchWord s n (i + 1) w"
    by (auto split: if_splits)
  with Cons.IH [of "i + 1"] show ?case by simp
qed (auto split: if_splits)

lemma MatchWord_progress:
  "k < n \<Longrightarrow> w \<noteq> [] \<Longrightarrow> MatchWord s n k w \<noteq> 0 \<Longrightarrow> n - MatchWord s n k w < n - k"
  using MatchWord_ge [of s n k w] by (cases w) auto

text \<open>
  The statement scan: \<open>None\<close> is one of the early \<^verbatim>\<open>return false\<close>s; otherwise the number of
  \<^verbatim>\<open>FROM\<close>s seen and the start and end of the last one.
\<close>

function ScanStatement :: "string \<Rightarrow> nat \<Rightarrow> nat \<Rightarrow> nat \<Rightarrow> nat \<times> nat \<times> nat \<Rightarrow> (nat \<times> nat \<times> nat) option" where
  "ScanStatement sql n after_select k (from_count, from_start, from_end) =
     (if k < n then
        (let c = sql ! k in
         if forbidden_char c then None
         else if c = CHR ''-'' \<and> k + 1 < n \<and> sql ! (k + 1) = CHR ''-'' then None
         else if c = CHR ''/'' \<and> k + 1 < n \<and> sql ! (k + 1) = CHR ''*'' then None
         else if \<not> IsIdentStart c then ScanStatement sql n after_select (k + 1) (from_count, from_start, from_end)
         else if k > after_select \<and> IsIdentChar (sql ! (k - 1))
           then ScanStatement sql n after_select (k + 1) (from_count, from_start, from_end)
         else if MatchWord sql n k ''from'' \<noteq> 0
           then ScanStatement sql n after_select (MatchWord sql n k ''from'')
                  (from_count + 1, k, MatchWord sql n k ''from'')
         else if list_ex (\<lambda>w. MatchWord sql n k w \<noteq> 0) kUnsplittableWords then None
         else ScanStatement sql n after_select (k + 1) (from_count, from_start, from_end))
      else Some (from_count, from_start, from_end))"
  by pat_completeness auto
termination
  by (relation "measure (\<lambda>(sql, n, a, k, st). n - k)")
     (simp_all add: MatchWord_progress diff_less_mono2 del: MatchWord.simps)

declare SkipSpace.simps [simp del] SkipIdent.simps [simp del] ScanStatement.simps [simp del]

fun TrimEnd :: "string \<Rightarrow> nat \<Rightarrow> nat" where
  "TrimEnd sql 0 = 0"
| "TrimEnd sql (Suc n) = (if IsSpace (sql ! n) \<or> sql ! n = CHR '';'' then TrimEnd sql n else Suc n)"

text \<open>The \<^verbatim>\<open>while (t < n)\<close> loop over the dotted table reference: its end and the number of parts.\<close>

function ScanTableRef :: "string \<Rightarrow> nat \<Rightarrow> nat \<Rightarrow> nat \<Rightarrow> (nat \<times> nat) option" where
  "ScanTableRef sql n t parts =
     (if t < n then
        (if \<not> IsIdentStart (sql ! t) then None
         else (let t' = SkipIdent sql n t in
           if t' < n \<and> sql ! t' = CHR ''.'' then ScanTableRef sql n (t' + 1) (parts + 1)
           else Some (t', parts + 1)))
      else Some (t, parts))"
  by pat_completeness auto

lemma SkipIdent_ge: "i \<le> SkipIdent s n i"
proof (induction s n i rule: SkipIdent.induct)
  case (1 s n i)
  then show ?case by (subst SkipIdent.simps) auto
qed

termination ScanTableRef
proof (relation "measure (\<lambda>(sql, n, t, parts). n - t)")
  fix sql n t parts x
  assume "t < n" "x = SkipIdent sql n t" "x < n \<and> sql ! x = CHR ''.''"
  moreover have "t \<le> SkipIdent sql n t" by (rule SkipIdent_ge)
  ultimately show "((sql, n, x + 1, parts + 1), (sql, n, t, parts)) \<in> measure (\<lambda>(sql, n, t, parts). n - t)"
    by auto
qed simp

declare ScanTableRef.simps [simp del]

text \<open>
  The result is \<^verbatim>\<open>(list_off, list_len, tbl_off, tbl_len)\<close>.
\<close>

definition ParseSimpleSelect :: "string \<Rightarrow> (nat \<times> nat \<times> nat \<times> nat) option" where
  "ParseSimpleSelect sql =
     (let n = TrimEnd sql (length sql);
          i = SkipSpace sql n 0;
          after_select = MatchWord sql n i ''select''
      in if after_select = 0 then None
      else case ScanStatement sql n after_select after_select (0, 0, 0) of
        None \<Rightarrow> None
      | Some (from_count, from_start, from_end) \<Rightarrow>
        if from_count \<noteq> 1 then None
        else let list_len = from_start - after_select in
        if \<not> list_ex (\<lambda>k. \<not> IsSpace (sql ! (after_select + k))) [0..<list_len] then None
        else let tstart = SkipSpace sql n from_end in
        (case ScanTableRef sql n tstart 0 of
          None \<Rightarrow> None
        | Some (tend, parts) \<Rightarrow>
          if parts < 1 \<or> parts > 3 then None
          else let t = SkipSpace sql n tend in
          if t < n \<and> (\<not> IsIdentStart (sql ! t) \<or> SkipSpace sql n (SkipIdent sql n t) < n) then None
          else if tend - tstart > 0 then Some (after_select, list_len, tstart, tend - tstart)
          else None))"

subsection \<open>The server, as far as the gate asks it\<close>

datatype cell = Unreadable | NullCell | IntCell int | StrCell string

text \<open>
  What the connection answers.  \<open>exec_row sql\<close> is \<^verbatim>\<open>SQLExecDirect\<close> followed by one \<^verbatim>\<open>SQLFetch\<close>: the
  first row's cells, or \<^const>\<open>None\<close> when either fails or there is no row.  \<open>primary_keys\<close> and
  \<open>columns\<close> are the rows of the catalog functions until \<^verbatim>\<open>SQLFetch\<close> stops succeeding (\<^const>\<open>None\<close>: the
  call fails), for a catalog, a schema (\<^const>\<open>None\<close> for \<^verbatim>\<open>NULL\<close>) and a table name.
\<close>

record server =
  alloc_stmt :: bool
  dbms_name :: "string option"
  identifier_quote :: "string option"
  exec_row :: "string \<Rightarrow> cell list option"
  primary_keys :: "string option \<Rightarrow> string option \<Rightarrow> string \<Rightarrow> cell list list option"
  columns :: "string option \<Rightarrow> string option \<Rightarrow> string \<Rightarrow> cell list list option"

definition ODBC_PARTITION_IDENT_MAX :: nat where "ODBC_PARTITION_IDENT_MAX = 128"

definition cell_at :: "cell list \<Rightarrow> nat \<Rightarrow> cell" where
  "cell_at row col = (if 1 \<le> col \<and> col \<le> length row then row ! (col - 1) else Unreadable)"

definition GetBigInt :: "cell list \<Rightarrow> nat \<Rightarrow> int option option" where
  "GetBigInt row col =
     (case cell_at row col of IntCell v \<Rightarrow> Some (Some v) | NullCell \<Rightarrow> Some None | _ \<Rightarrow> None)"

text \<open>
  \<open>GetDataString\<close>: the flag it returns and the buffer it leaves.  A text that does not fit comes
  back cut to \<open>cap - 1\<close> bytes with \<^verbatim>\<open>SQL_SUCCESS_WITH_INFO\<close>, which the flag reports as a failure.
\<close>

definition GetDataString :: "cell list \<Rightarrow> nat \<Rightarrow> nat \<Rightarrow> bool \<times> string" where
  "GetDataString row col cap =
     (case cell_at row col of
        StrCell s \<Rightarrow> if length s < cap then (s \<noteq> [], s) else (False, take (cap - 1) s)
      | _ \<Rightarrow> (False, []))"

definition GetDataSmallInt :: "cell list \<Rightarrow> nat \<Rightarrow> int option" where
  "GetDataSmallInt row col = (case cell_at row col of IntCell v \<Rightarrow> Some (s16 v) | _ \<Rightarrow> None)"

subsection \<open>The gate\<close>

definition PostgresHeapBlocks :: "server \<Rightarrow> string \<Rightarrow> int option" where
  "PostgresHeapBlocks hdbc table =
     (if list_ex (\<lambda>c. c \<noteq> CHR ''.'' \<and> \<not> IsIdentChar c) table then None
      else let
        sql = ''SELECT (pg_relation_size(c.oid) / current_setting('' @ [SQ] @ ''block_size'' @ [SQ]
            @ '')::bigint)::bigint FROM pg_class c WHERE c.oid = to_regclass('' @ [SQ] @ table @ [SQ]
            @ '') AND '' @ [SQ] @ ''(0,0)'' @ [SQ] @ ''::tid < '' @ [SQ] @ ''(1,0)'' @ [SQ] @ ''::tid'';
        (wrote, buf) = snprintf 512 sql
      in if wrote \<ge> 512 \<or> \<not> alloc_stmt hdbc then None
         else case exec_row hdbc buf of
           None \<Rightarrow> None
         | Some row \<Rightarrow> (case GetBigInt row 1 of Some (Some blocks) \<Rightarrow> if blocks > 0 then Some blocks else None | _ \<Rightarrow> None))"

definition DbmsIsPostgres :: "server \<Rightarrow> bool" where
  "DbmsIsPostgres hdbc =
     (case dbms_name hdbc of None \<Rightarrow> False | Some name \<Rightarrow> take 10 name = ''PostgreSQL'')"

definition IsSafeIdentifier :: "string \<Rightarrow> bool" where
  "IsSafeIdentifier s \<longleftrightarrow> s \<noteq> [] \<and> list_all (\<lambda>c. (of_char c :: nat) \<ge> 0x80 \<or> IsIdentChar c) s"

record OdbcTableRef =
  ref_catalog :: string
  ref_schema :: string
  ref_table :: string

text \<open>
  The loop \<^verbatim>\<open>for (i = 0; i <= len; i++)\<close> that cuts the reference at its dots: \<open>cur\<close> is the text
  since \<open>begin\<close>, \<open>acc\<close> the parts found so far.
\<close>

fun SplitParts :: "string list \<Rightarrow> string \<Rightarrow> string \<Rightarrow> string list option" where
  "SplitParts acc cur [] =
     (if length acc = 3 \<or> cur = [] \<or> length cur \<ge> ODBC_PARTITION_IDENT_MAX then None else Some (acc @ [cur]))"
| "SplitParts acc cur (c # ref) =
     (if c = CHR ''.'' then
        (if length acc = 3 \<or> cur = [] \<or> length cur \<ge> ODBC_PARTITION_IDENT_MAX then None
         else SplitParts (acc @ [cur]) [] ref)
      else SplitParts acc (cur @ [c]) ref)"

definition SplitTableRef :: "string \<Rightarrow> OdbcTableRef option" where
  "SplitTableRef ref =
     (case SplitParts [] [] ref of
        Some [t] \<Rightarrow> Some \<lparr>ref_catalog = [], ref_schema = [], ref_table = t\<rparr>
      | Some [s, t] \<Rightarrow> Some \<lparr>ref_catalog = [], ref_schema = s, ref_table = t\<rparr>
      | Some [c, s, t] \<Rightarrow> Some \<lparr>ref_catalog = c, ref_schema = s, ref_table = t\<rparr>
      | _ \<Rightarrow> None)"

definition opt_name :: "string \<Rightarrow> string option" where
  "opt_name s = (if s = [] then None else Some s)"

text \<open>
  The fetch loop of \<open>PrimaryKeyLeadColumn\<close>: rows so far, the table they named, and the column with
  \<^verbatim>\<open>KEY_SEQ 1\<close>.  \<^const>\<open>None\<close> is \<^verbatim>\<open>ambiguous\<close>.
\<close>

fun PrimaryKeyRows :: "nat \<Rightarrow> cell list list \<Rightarrow> int \<Rightarrow> string \<times> string \<times> string \<Rightarrow> string option
    \<Rightarrow> (int \<times> (string \<times> string \<times> string) \<times> string option) option" where
  "PrimaryKeyRows out_cap [] cols found col = Some (cols, found, col)"
| "PrimaryKeyRows out_cap (row # rows) cols found col =
     (let rcat = snd (GetDataString row 1 ODBC_PARTITION_IDENT_MAX);
          rsch = snd (GetDataString row 2 ODBC_PARTITION_IDENT_MAX);
          (tok, rtbl) = GetDataString row 3 ODBC_PARTITION_IDENT_MAX;
          (cok, rcol) = GetDataString row 4 ODBC_PARTITION_IDENT_MAX
      in case GetDataSmallInt row 5 of
           None \<Rightarrow> None
         | Some seq \<Rightarrow>
             if \<not> tok \<or> \<not> cok then None
             else if cols \<noteq> 0 \<and> found \<noteq> (rcat, rsch, rtbl) then None
             else if seq = 1 \<and> length rcol \<ge> out_cap then None
             else PrimaryKeyRows out_cap rows (cols + 1) (if cols = 0 then (rcat, rsch, rtbl) else found)
                    (if seq = 1 then Some rcol else col))"

definition PrimaryKeyLeadColumn :: "server \<Rightarrow> OdbcTableRef \<Rightarrow> nat \<Rightarrow> (OdbcTableRef \<times> string \<times> int) option" where
  "PrimaryKeyLeadColumn hdbc ref out_cap =
     (if \<not> alloc_stmt hdbc then None
      else case primary_keys hdbc (opt_name (ref_catalog ref)) (opt_name (ref_schema ref)) (ref_table ref) of
        None \<Rightarrow> None
      | Some rows \<Rightarrow> (case PrimaryKeyRows out_cap rows 0 ([], [], []) None of
          Some (cols, (fcat, fsch, ftbl), Some out_col) \<Rightarrow>
            if cols < 1 \<or> \<not> IsSafeIdentifier out_col then None
            else Some (\<lparr>ref_catalog = fcat, ref_schema = fsch, ref_table = ftbl\<rparr>, out_col, cols)
        | _ \<Rightarrow> None))"

text \<open>The SQL type codes and \<^verbatim>\<open>SQL_NO_NULLS\<close> of \<^verbatim>\<open>sqlext.h\<close>.\<close>

abbreviation (input) SQL_INTEGER :: int where "SQL_INTEGER \<equiv> 4"
abbreviation (input) SQL_SMALLINT :: int where "SQL_SMALLINT \<equiv> 5"
abbreviation (input) SQL_BIGINT :: int where "SQL_BIGINT \<equiv> - 5"
abbreviation (input) SQL_TINYINT :: int where "SQL_TINYINT \<equiv> - 6"
abbreviation (input) SQL_NO_NULLS :: int where "SQL_NO_NULLS \<equiv> 0"

fun ColumnRows :: "string \<Rightarrow> cell list list \<Rightarrow> bool" where
  "ColumnRows column [] = False"
| "ColumnRows column (row # rows) =
     (let (ok, rcol) = GetDataString row 4 ODBC_PARTITION_IDENT_MAX in
      if \<not> ok then ColumnRows column rows
      else if rcol \<noteq> column then ColumnRows column rows
      else case (GetDataSmallInt row 5, GetDataSmallInt row 11) of
        (Some type, Some nullable) \<Rightarrow>
          (type = SQL_TINYINT \<or> type = SQL_SMALLINT \<or> type = SQL_INTEGER \<or> type = SQL_BIGINT)
          \<and> nullable = SQL_NO_NULLS
      | _ \<Rightarrow> False)"

definition ColumnIsSplittableInteger :: "server \<Rightarrow> OdbcTableRef \<Rightarrow> string \<Rightarrow> bool" where
  "ColumnIsSplittableInteger hdbc ref column =
     (alloc_stmt hdbc \<and>
      (case columns hdbc (opt_name (ref_catalog ref)) (opt_name (ref_schema ref)) (ref_table ref) of
         None \<Rightarrow> False | Some rows \<Rightarrow> ColumnRows column rows))"

definition IdentifierQuote :: "server \<Rightarrow> char option" where
  "IdentifierQuote hdbc =
     (case identifier_quote hdbc of
        None \<Rightarrow> None
      | Some [] \<Rightarrow> None
      | Some (q # _) \<Rightarrow> if q = CHR '' '' then None else Some q)"

definition WriteQuotedIdent :: "nat \<Rightarrow> char option \<Rightarrow> string \<Rightarrow> string option" where
  "WriteQuotedIdent cap quote column =
     (let (wrote, buf) = (case quote of Some q \<Rightarrow> snprintf cap ([q] @ column @ [q]) | None \<Rightarrow> snprintf cap column)
      in if wrote > 0 \<and> wrote < cap then Some buf else None)"

definition ExpressionExtent :: "server \<Rightarrow> string \<Rightarrow> string \<Rightarrow> (int \<times> int) option" where
  "ExpressionExtent hdbc table expr =
     (let (wrote, buf) = snprintf 512 (''SELECT MIN('' @ expr @ ''), MAX('' @ expr @ '') FROM '' @ table) in
      if wrote \<ge> 512 \<or> \<not> alloc_stmt hdbc then None
      else case exec_row hdbc buf of
        None \<Rightarrow> None
      | Some row \<Rightarrow> (case (GetBigInt row 1, GetBigInt row 2) of
          (Some (Some lo), Some (Some hi)) \<Rightarrow> if hi \<ge> lo then Some (lo, hi) else None
        | _ \<Rightarrow> None))"

record OdbcPgIndexFacts =
  lead_is_hash :: bool
  hash_columns :: int
  has_yb_hash_code :: bool
  est_rows :: int

definition PgIndexFacts :: "server \<Rightarrow> string \<Rightarrow> string \<Rightarrow> OdbcPgIndexFacts option" where
  "PgIndexFacts hdbc table column =
     (let (wrote, buf) = snprintf 1024
        (''SELECT (i.indoption[0] & 4)::int, ''
       @ ''(SELECT count(*) FROM generate_subscripts(i.indoption, 1) s ''
       @ ''WHERE (i.indoption[s] & 4) <> 0)::int, ''
       @ ''(SELECT count(*) FROM pg_proc p WHERE p.proname = '' @ [SQ] @ ''yb_hash_code'' @ [SQ] @ '')::int, ''
       @ ''c.reltuples::bigint ''
       @ ''FROM pg_index i JOIN pg_class c ON c.oid = i.indrelid ''
       @ ''JOIN pg_attribute a ON a.attrelid = i.indrelid AND a.attnum = i.indkey[0] ''
       @ ''WHERE i.indrelid = to_regclass('' @ [SQ] @ table @ [SQ] @ '') AND i.indisprimary AND a.attname = ''
       @ [SQ] @ column @ [SQ]) in
      if wrote \<ge> 1024 \<or> \<not> alloc_stmt hdbc then None
      else case exec_row hdbc buf of
        None \<Rightarrow> None
      | Some row \<Rightarrow> (case (GetBigInt row 1, GetBigInt row 2, GetBigInt row 3, GetBigInt row 4) of
          (Some (Some lead), Some (Some nhash), Some (Some ybhash), Some rows) \<Rightarrow>
            Some \<lparr>lead_is_hash = lead \<noteq> 0, hash_columns = nhash, has_yb_hash_code = ybhash > 0,
                  est_rows = (case rows of None \<Rightarrow> - 1 | Some r \<Rightarrow> r)\<rparr>
        | _ \<Rightarrow> None))"

subsection \<open>The chosen split and its boundaries\<close>

datatype OdbcSplitKind = ODBC_SPLIT_NONE | ODBC_SPLIT_CTID | ODBC_SPLIT_KEY_RANGE | ODBC_SPLIT_YB_HASH

record OdbcSplit =
  split_kind :: OdbcSplitKind
  split_expr :: string
  split_lo :: int
  split_hi :: int
  auto_partitions :: int

definition ODBC_PARTITION_AUTO_BLOCKS :: int where "ODBC_PARTITION_AUTO_BLOCKS = 8192"
definition ODBC_PARTITION_AUTO_MAX :: int where "ODBC_PARTITION_AUTO_MAX = 8"
definition ODBC_PARTITION_AUTO_ROWS :: int where "ODBC_PARTITION_AUTO_ROWS = 1000000"
definition ODBC_PARTITION_MAX :: int where "ODBC_PARTITION_MAX = 256"

definition WriteBound :: "OdbcSplit \<Rightarrow> nat \<Rightarrow> int \<Rightarrow> string option" where
  "WriteBound split cap v =
     (let (wrote, buf) = (if split_kind split = ODBC_SPLIT_CTID
          then snprintf cap ([SQ] @ ''('' @ fmt_d v @ '',0)'' @ [SQ] @ ''::tid'')
          else snprintf cap (fmt_d v))
      in if wrote > 0 \<and> wrote < cap then Some buf else None)"

definition SplitBoundary :: "int \<Rightarrow> int \<Rightarrow> int \<Rightarrow> int \<Rightarrow> int" where
  "SplitBoundary lo hi n k =
     (let span = u64 (u64 hi - u64 lo);
          un = u64 n; uk = u64 k;
          offset = u64 (u64 (span div un * uk) + u64 (span mod un * uk) div un)
      in s64 (u64 (u64 lo + offset)))"

definition ChooseSplit :: "server \<Rightarrow> string \<Rightarrow> OdbcSplit" where
  "ChooseSplit hdbc tbl =
     (let none = \<lparr>split_kind = ODBC_SPLIT_NONE, split_expr = [], split_lo = 0, split_hi = 0, auto_partitions = - 1\<rparr>;
          pg_wire = DbmsIsPostgres hdbc
      in case (if pg_wire then PostgresHeapBlocks hdbc tbl else None) of
        Some blocks \<Rightarrow>
          \<lparr>split_kind = ODBC_SPLIT_CTID, split_expr = ''ctid'', split_lo = 0, split_hi = blocks,
           auto_partitions = blocks sdiv ODBC_PARTITION_AUTO_BLOCKS\<rparr>
      | None \<Rightarrow> (case SplitTableRef tbl of
          None \<Rightarrow> none
        | Some ref0 \<Rightarrow> (case PrimaryKeyLeadColumn hdbc ref0 ODBC_PARTITION_IDENT_MAX of
            None \<Rightarrow> none
          | Some (ref, column, key_columns) \<Rightarrow>
              if \<not> ColumnIsSplittableInteger hdbc ref column then none
              else (case WriteQuotedIdent (ODBC_PARTITION_IDENT_MAX + 4) (IdentifierQuote hdbc) column of
                None \<Rightarrow> none
              | Some quoted \<Rightarrow>
                  (case (if pg_wire then PgIndexFacts hdbc tbl column
                         else Some \<lparr>lead_is_hash = False, hash_columns = 0, has_yb_hash_code = False,
                                    est_rows = - 1\<rparr>) of
                    None \<Rightarrow> none
                  | Some facts \<Rightarrow>
                    (let auto = (if pg_wire \<and> est_rows facts > 0
                                 then est_rows facts sdiv ODBC_PARTITION_AUTO_ROWS else - 1) in
                     if lead_is_hash facts then
                       (if \<not> has_yb_hash_code facts \<or> hash_columns facts \<noteq> 1
                        then none\<lparr>auto_partitions := auto\<rparr>
                        else \<lparr>split_kind = ODBC_SPLIT_YB_HASH,
                              split_expr = snd (snprintf (ODBC_PARTITION_IDENT_MAX + 32) (''yb_hash_code('' @ quoted @ '')'')),
                              split_lo = 0, split_hi = 65535, auto_partitions = auto\<rparr>)
                     else (case ExpressionExtent hdbc tbl quoted of
                       None \<Rightarrow> none\<lparr>auto_partitions := auto\<rparr>
                     | Some (l, h) \<Rightarrow>
                         \<lparr>split_kind = ODBC_SPLIT_KEY_RANGE, split_expr = quoted, split_lo = l, split_hi = h,
                          auto_partitions =
                            (if auto < 0 then
                               (let span = u64 (u64 h - u64 l);
                                    values = (if span = UINT64_MAX then UINT64_MAX else u64 (span + 1));
                                    want = values div ODBC_PARTITION_AUTO_ROWS
                                in if want > ODBC_PARTITION_AUTO_MAX then ODBC_PARTITION_AUTO_MAX else want)
                             else auto)\<rparr>)))))))"

definition ResolvePartitionCount :: "int \<Rightarrow> OdbcSplit \<Rightarrow> int" where
  "ResolvePartitionCount requested split =
     (let want = requested;
          want = (if want \<le> 0 then
                    (let a = (if auto_partitions split < 0 then 1 else auto_partitions split)
                     in if a > ODBC_PARTITION_AUTO_MAX then ODBC_PARTITION_AUTO_MAX else a)
                  else want);
          want = (if want > ODBC_PARTITION_MAX then ODBC_PARTITION_MAX else want);
          want = (if want < 1 then 1 else want);
          span = u64 (u64 (split_hi split) - u64 (split_lo split));
          want = (if span < u64 want then s64 span else want)
      in if want < 1 then 1 else want)"

subsection \<open>Descriptors\<close>

definition ODBC_PARTITION_MAGIC :: string where
  "ODBC_PARTITION_MAGIC = ''ADBCODBCPART'' @ [CHR 0x01, CHR 0x0A]"

text \<open>\<open>PartitionsSet\<close>: the blob for a slot, or \<^const>\<open>None\<close> when \<^verbatim>\<open>malloc\<close> fails.\<close>

definition PartitionsSet :: "bool \<Rightarrow> string \<Rightarrow> string option" where
  "PartitionsSet mem_ok sql = (if mem_ok then Some (ODBC_PARTITION_MAGIC @ sql) else None)"

text \<open>
  Allocations are answered by \<open>malloc i\<close>, the outcome of the \<open>i\<close>-th one of the call, so that the
  out-of-memory returns are branches of the model.
\<close>

definition OnePartition :: "(nat \<Rightarrow> bool) \<Rightarrow> string \<Rightarrow> status \<times> string list" where
  "OnePartition malloc query =
     (if \<not> malloc 0 then (ADBC_STATUS_INTERNAL, [])
      else case PartitionsSet (malloc 1) query of
        None \<Rightarrow> (ADBC_STATUS_INTERNAL, [])
      | Some blob \<Rightarrow> (ADBC_STATUS_OK, [blob]))"

subsection \<open>ExecutePartitions\<close>

text \<open>The fields of \<^verbatim>\<open>struct OdbcStatement\<close> this entry point reads and writes.\<close>

record OdbcPartStatement =
  st_query :: "string option"
  st_ingest_table :: "string option"
  st_has_bind :: bool
  st_partitions :: int
  st_prepared :: bool

text \<open>One slice's text, or \<^const>\<open>None\<close> where \<^verbatim>\<open>wrote\<close> ends up \<open>-1\<close> or the text does not fit.\<close>

definition SliceSql :: "OdbcSplit \<Rightarrow> string \<Rightarrow> nat \<Rightarrow> nat \<Rightarrow> int \<Rightarrow> int \<Rightarrow> string option" where
  "SliceSql split q head slice_cap nparts k =
     (let b = (\<lambda>j. WriteBound split 64 (SplitBoundary (split_lo split) (split_hi split) nparts j));
          fmt = (if k = 0 then
                   (case b 1 of None \<Rightarrow> None
                    | Some hi_lit \<Rightarrow> Some (take head q @ '' WHERE '' @ split_expr split @ '' < '' @ hi_lit))
                 else if k = nparts - 1 then
                   (case b k of None \<Rightarrow> None
                    | Some lo_lit \<Rightarrow> Some (take head q @ '' WHERE '' @ split_expr split @ '' >= '' @ lo_lit))
                 else
                   (case (b k, b (k + 1)) of
                      (Some lo_lit, Some hi_lit) \<Rightarrow>
                        Some (take head q @ '' WHERE '' @ split_expr split @ '' >= '' @ lo_lit
                              @ '' AND '' @ split_expr split @ '' < '' @ hi_lit)
                    | _ \<Rightarrow> None))
      in case fmt of
           None \<Rightarrow> None
         | Some s \<Rightarrow> (let (wrote, buf) = snprintf slice_cap s
                      in if wrote \<le> 0 \<or> wrote \<ge> slice_cap then None else Some buf))"

text \<open>The loop over the slices, in order; the first that cannot be built ends it.\<close>

fun BuildSlices :: "(nat \<Rightarrow> bool) \<Rightarrow> (int \<Rightarrow> string option) \<Rightarrow> nat list \<Rightarrow> string list option" where
  "BuildSlices malloc mk [] = Some []"
| "BuildSlices malloc mk (k # ks) =
     (case mk (int k) of
        None \<Rightarrow> None
      | Some s \<Rightarrow> (case PartitionsSet (malloc (k + 2)) s of
          None \<Rightarrow> None
        | Some blob \<Rightarrow> map_option (Cons blob) (BuildSlices malloc mk ks)))"

text \<open>
  \<open>describe\<close> is the outcome of preparing and describing the query when the caller asked for the
  schema (\<open>want_schema\<close>).  The result is the status, the descriptors published and the statement.
\<close>

definition OdbcStatementExecutePartitionsOdbc ::
  "server \<Rightarrow> (nat \<Rightarrow> bool) \<Rightarrow> status \<Rightarrow> bool \<Rightarrow> OdbcPartStatement \<Rightarrow> status \<times> string list \<times> OdbcPartStatement" where
  "OdbcStatementExecutePartitionsOdbc hdbc malloc describe want_schema stmt =
     (case st_query stmt of
        None \<Rightarrow> (ADBC_STATUS_INVALID_STATE, [], stmt)
      | Some q \<Rightarrow>
        if st_ingest_table stmt \<noteq> None then (ADBC_STATUS_INVALID_STATE, [], stmt)
        else if st_has_bind stmt then (ADBC_STATUS_NOT_IMPLEMENTED, [], stmt)
        else if want_schema \<and> describe \<noteq> ADBC_STATUS_OK then (describe, [], stmt)
        else let
          stmt = (if want_schema then stmt\<lparr>st_prepared := True\<rparr> else stmt);
          one = (case OnePartition malloc q of (s, ds) \<Rightarrow> (s, ds, stmt))
        in if st_partitions stmt = 1 then one
        else case ParseSimpleSelect q of
          None \<Rightarrow> one
        | Some (list_off, list_len, tbl_off, tbl_len) \<Rightarrow>
          (let split = ChooseSplit hdbc (take tbl_len (drop tbl_off q)) in
           if split_kind split = ODBC_SPLIT_NONE then one
           else let nparts = ResolvePartitionCount (st_partitions stmt) split in
           if nparts \<le> 1 then one
           else if \<not> malloc 0 then (ADBC_STATUS_INTERNAL, [], stmt)
           else let slice_cap = length q + 2 * length (split_expr split) + 128 in
           if \<not> malloc 1 then (ADBC_STATUS_INTERNAL, [], stmt)
           else case BuildSlices malloc (SliceSql split q (tbl_off + tbl_len) slice_cap nparts) [0..<nat nparts] of
             None \<Rightarrow> (ADBC_STATUS_INTERNAL, [], stmt)
           | Some blobs \<Rightarrow> (ADBC_STATUS_OK, blobs, stmt)))"

subsection \<open>ReadPartition\<close>

text \<open>
  What the driver manager answers while a descriptor is read: whether a statement handle could be
  allocated, the outcome of executing a text (\<^const>\<open>None\<close>: success or \<^verbatim>\<open>SQL_NO_DATA\<close>; otherwise the
  status its diagnostics map to), whether the handle reference could be allocated, and what
  \<open>OdbcReaderInit\<close> returned.
\<close>

record read_env =
  re_alloc :: "status option"
  re_exec :: "string \<Rightarrow> status option"
  re_ref :: bool
  re_reader :: status

text \<open>
  The result: the status, the text that was executed (\<^const>\<open>None\<close>: nothing was), and whether the
  statement handle is still allocated on return, which is then the stream's.
\<close>

definition OdbcConnectionReadPartitionOdbc ::
  "read_env \<Rightarrow> bool \<Rightarrow> bool \<Rightarrow> bool \<Rightarrow> string \<Rightarrow> status \<times> string option \<times> bool" where
  "OdbcConnectionReadPartitionOdbc env malloc connected out serialized =
     (let len = length ODBC_PARTITION_MAGIC in
      if \<not> connected then (ADBC_STATUS_INVALID_STATE, None, False)
      else if \<not> out then (ADBC_STATUS_INVALID_ARGUMENT, None, False)
      else if length serialized < len \<or> take len serialized \<noteq> ODBC_PARTITION_MAGIC
        then (ADBC_STATUS_INVALID_ARGUMENT, None, False)
      else if \<not> malloc then (ADBC_STATUS_INTERNAL, None, False)
      else case re_alloc env of
        Some e \<Rightarrow> (e, None, False)
      | None \<Rightarrow>
        (let sql = takeWhile (\<lambda>c. c \<noteq> CHR 0x00) (drop len serialized) in
         case re_exec env sql of
           Some e \<Rightarrow> (e, Some sql, False)
         | None \<Rightarrow>
           if \<not> re_ref env then (ADBC_STATUS_INTERNAL, Some sql, False)
           else let refs = (1 :: nat) + (if re_reader env = ADBC_STATUS_OK then 1 else 0) - 1
                in (re_reader env, Some sql, refs > 0)))"

section \<open>Correctness of the split\<close>

text \<open>
  The contract of a range split: \<open>parts s\<close> slices cut at \<open>boundary s 1 < \<dots> < boundary s (parts s - 1)\<close>,
  the first open below and the last open above.  Whatever the boundaries are, as long as they
  increase, every value lies in exactly one slice.
\<close>

definition in_slice :: "int option \<times> int option \<Rightarrow> int \<Rightarrow> bool" where
  "in_slice r x \<longleftrightarrow> (case fst r of None \<Rightarrow> True | Some l \<Rightarrow> l \<le> x) \<and> (case snd r of None \<Rightarrow> True | Some u \<Rightarrow> x < u)"

definition slice_range :: "(int \<Rightarrow> int) \<Rightarrow> int \<Rightarrow> int \<Rightarrow> int option \<times> int option" where
  "slice_range b n k = (if k = 0 then None else Some (b k), if k = n - 1 then None else Some (b (k + 1)))"

locale range_split =
  fixes boundary :: "'s \<Rightarrow> int \<Rightarrow> int" and parts :: "'s \<Rightarrow> int" and valid :: "'s \<Rightarrow> bool"
  assumes parts_pos: "valid s \<Longrightarrow> 2 \<le> parts s"
    and boundary_less: "valid s \<Longrightarrow> 1 \<le> k \<Longrightarrow> k < parts s - 1 \<Longrightarrow> boundary s k < boundary s (k + 1)"
begin

lemma boundary_mono:
  assumes "valid s" "1 \<le> j" "j \<le> k" "k \<le> parts s - 1"
  shows "boundary s j \<le> boundary s k"
  using assms(3,4)
proof (induction k rule: int_ge_induct)
  case (step i)
  have "boundary s i < boundary s (i + 1)" using step assms by (intro boundary_less) auto
  with step show ?case by simp
qed simp

lemma slices_disjoint:
  assumes "valid s" "0 \<le> j" "j < k" "k < parts s"
    and "in_slice (slice_range (boundary s) (parts s) j) x"
  shows "\<not> in_slice (slice_range (boundary s) (parts s) k) x"
proof -
  have "x < boundary s (j + 1)" using assms by (auto simp: in_slice_def slice_range_def)
  moreover have "boundary s (j + 1) \<le> boundary s k" using assms by (intro boundary_mono) auto
  ultimately show ?thesis using assms by (auto simp: in_slice_def slice_range_def)
qed

lemma slices_below:
  assumes "valid s" "0 \<le> k" "k < parts s" "k = parts s - 1 \<or> x < boundary s (k + 1)"
  shows "\<exists>j. 0 \<le> j \<and> j \<le> k \<and> in_slice (slice_range (boundary s) (parts s) j) x"
  using assms(2-4)
proof (induction k rule: int_ge_induct)
  case base
  then show ?case by (auto simp: in_slice_def slice_range_def intro!: exI [of _ 0])
next
  case (step i)
  show ?case
  proof (cases "x < boundary s (i + 1)")
    case True
    then show ?thesis using step by force
  next
    case False
    then show ?thesis using step by (auto simp: in_slice_def slice_range_def intro!: exI [of _ "i + 1"])
  qed
qed

lemma exactly_one_slice:
  assumes "valid s"
  shows "\<exists>!k. 0 \<le> k \<and> k < parts s \<and> in_slice (slice_range (boundary s) (parts s) k) x"
proof (rule ex_ex1I)
  show "\<exists>k. 0 \<le> k \<and> k < parts s \<and> in_slice (slice_range (boundary s) (parts s) k) x"
    using slices_below [OF assms, of "parts s - 1" x] parts_pos [OF assms] by force
next
  fix j k
  assume "0 \<le> j \<and> j < parts s \<and> in_slice (slice_range (boundary s) (parts s) j) x"
    and "0 \<le> k \<and> k < parts s \<and> in_slice (slice_range (boundary s) (parts s) k) x"
  then show "j = k" using slices_disjoint [OF assms] by (metis not_less_iff_gr_or_eq)
qed

end

subsection \<open>The boundary arithmetic\<close>

lemma u64_diff: "u64 (u64 a - u64 b) = u64 (a - b)"
  by (simp add: u64_def mod_simps)

lemma u64_add_left: "u64 (u64 a + b) = u64 (a + b)"
  by (simp add: u64_def mod_simps)

lemma u64_span:
  assumes "is_s64 l" "is_s64 h" "l \<le> h"
  shows "u64 (u64 h - u64 l) = h - l"
  using assms by (simp add: u64_diff is_s64_def u64_id)

definition split_valid :: "int \<Rightarrow> int \<Rightarrow> int \<Rightarrow> bool" where
  "split_valid l h n \<longleftrightarrow> is_s64 l \<and> is_s64 h \<and> l \<le> h \<and> 2 \<le> n \<and> n \<le> ODBC_PARTITION_MAX \<and> n \<le> h - l"

lemma div_split: "0 < (n::int) \<Longrightarrow> s div n * k + s mod n * k div n = s * k div n"
proof -
  assume n: "0 < n"
  have "s * k = s mod n * k + n * (s div n * k)"
    by (metis add.commute mult.assoc distrib_right mult_div_mod_eq)
  then show ?thesis using n by (metis add.commute div_mult_self2 less_irrefl)
qed

lemma SplitBoundary_eq:
  assumes "split_valid l h n" "0 \<le> k" "k \<le> n"
  shows "SplitBoundary l h n k = l + (h - l) * k div n" "l \<le> SplitBoundary l h n k" "SplitBoundary l h n k \<le> h"
proof -
  define s where "s = h - l"
  have n: "2 \<le> n" "n \<le> 256" "n \<le> s" and s: "0 \<le> s" "s \<le> UINT64_MAX" and lh: "is_s64 l" "is_s64 h" "l \<le> h"
    using assms(1) by (auto simp: split_valid_def ODBC_PARTITION_MAX_def s_def is_s64_def)
  have un: "u64 n = n" "u64 k = k" using n assms(2,3) by (simp_all add: u64_id)
  define q where "q = s div n * k"
  define r where "r = s mod n * k"
  have tot: "q + r div n = s * k div n" using div_split [of n s k] n by (simp add: q_def r_def)
  have le: "0 \<le> s * k div n" "s * k div n \<le> s"
  proof -
    show "0 \<le> s * k div n" using n s assms(2) by (simp add: pos_imp_zdiv_nonneg_iff)
    have "s * k div n \<le> s * n div n" using n s assms(3) by (intro zdiv_mono1 mult_left_mono) auto
    then show "s * k div n \<le> s" using n by simp
  qed
  have "s mod n < n" "0 \<le> s mod n" using n(1) by simp_all
  then have m: "0 \<le> s mod n" "s mod n \<le> 256" "k \<le> 256" using n(2) assms(3) by linarith+
  then have r: "0 \<le> r" "r \<le> 256 * 256"
    unfolding r_def using assms(2) mult_mono [OF m(2,3)] by auto
  have q: "0 \<le> q" "0 \<le> r div n"
    unfolding q_def using n s assms(2) r by (simp_all add: pos_imp_zdiv_nonneg_iff)
  have "u64 q = q" "u64 r = r" using q r tot le s by (simp_all add: u64_id)
  then have off: "u64 (u64 q + u64 r div n) = s * k div n" using tot le s by (simp add: u64_id)
  have "SplitBoundary l h n k = s64 (u64 (u64 l + s * k div n))"
    unfolding SplitBoundary_def Let_def u64_span [OF lh] un s_def [symmetric]
      q_def [symmetric] r_def [symmetric] off ..
  also have "\<dots> = s64 (l + s * k div n)" unfolding u64_add_left s64_u64 ..
  also have "\<dots> = l + s * k div n" using le lh by (intro s64_id) (auto simp: is_s64_def s_def)
  finally show "SplitBoundary l h n k = l + (h - l) * k div n" by (simp add: s_def)
  with le show "l \<le> SplitBoundary l h n k" "SplitBoundary l h n k \<le> h" by (simp_all add: s_def)
qed

lemma SplitBoundary_less:
  assumes "split_valid l h n" "0 \<le> k" "k < n"
  shows "SplitBoundary l h n k < SplitBoundary l h n (k + 1)"
proof -
  have n: "0 < n" "n \<le> h - l" using assms(1) by (auto simp: split_valid_def)
  have "(h - l) * k + n \<le> (h - l) * (k + 1)" using n by (simp add: algebra_simps)
  then have "((h - l) * k + n) div n \<le> (h - l) * (k + 1) div n" using n by (intro zdiv_mono1)
  moreover have "((h - l) * k + n) div n = (h - l) * k div n + 1" 
    using n(1) by (intro div_add_self2) simp
  ultimately have "(h - l) * k div n + 1 \<le> (h - l) * (k + 1) div n" by linarith
  then show ?thesis using assms by (simp add: SplitBoundary_eq)
qed

interpretation sb: range_split "\<lambda>(l, h, n). SplitBoundary l h n" "\<lambda>(l, h, n). n" "\<lambda>(l, h, n). split_valid l h n"
  by unfold_locales (auto simp: split_valid_def intro!: SplitBoundary_less [unfolded split_valid_def])

text \<open>
  C11. The cut points of a split: for every extent of 64-bit keys, from one value up to the whole
  \<open>int64_t\<close> range, and every partition count the driver uses, none of the wrap-around arithmetic
  wraps: the boundaries are the exact multiples of the span, they increase strictly, lie inside the
  extent, and every value of the key falls in exactly one slice.
\<close>

theorem SplitBoundary_exact:
  assumes "split_valid l h n"
  shows "(\<forall>k. 0 \<le> k \<and> k \<le> n \<longrightarrow> SplitBoundary l h n k = l + (h - l) * k div n)
       \<and> (\<forall>k. 0 \<le> k \<and> k < n \<longrightarrow> SplitBoundary l h n k < SplitBoundary l h n (k + 1))
       \<and> SplitBoundary l h n 0 = l \<and> SplitBoundary l h n n = h
       \<and> (\<forall>x. \<exists>!k. 0 \<le> k \<and> k < n \<and> in_slice (slice_range (SplitBoundary l h n) n k) x)"
proof -
  have n: "2 \<le> n" using assms by (simp add: split_valid_def)
  have "SplitBoundary l h n 0 = l" "SplitBoundary l h n n = h"
    using SplitBoundary_eq(1) [OF assms, of 0] SplitBoundary_eq(1) [OF assms, of n] n by simp_all
  moreover have "\<exists>!k. 0 \<le> k \<and> k < n \<and> in_slice (slice_range (SplitBoundary l h n) n k) x" for x
    using sb.exactly_one_slice [of "(l, h, n)" x] assms by simp
  ultimately show ?thesis
    using SplitBoundary_eq(1) [OF assms] SplitBoundary_less [OF assms] by blast
qed

theorem SplitBoundary_exact_witness:
  "split_valid INT64_MIN INT64_MAX 256 \<and> SplitBoundary INT64_MIN INT64_MAX 256 256 = INT64_MAX"
proof -
  have v: "split_valid INT64_MIN INT64_MAX 256"
    by (simp add: split_valid_def is_s64_def ODBC_PARTITION_MAX_def)
  show ?thesis using SplitBoundary_exact [OF v] v by blast
qed

lemma ResolvePartitionCount_bounds:
  assumes "is_s64 (split_lo split)" "is_s64 (split_hi split)" "split_lo split \<le> split_hi split"
  shows "1 \<le> ResolvePartitionCount p split" "ResolvePartitionCount p split \<le> ODBC_PARTITION_MAX"
    and "1 < ResolvePartitionCount p split \<Longrightarrow>
         split_valid (split_lo split) (split_hi split) (ResolvePartitionCount p split)"
proof -
  define w where "w = (let want = p;
          want = (if want \<le> 0 then
                    (let a = (if auto_partitions split < 0 then 1 else auto_partitions split)
                     in if a > ODBC_PARTITION_AUTO_MAX then ODBC_PARTITION_AUTO_MAX else a)
                  else want);
          want = (if want > ODBC_PARTITION_MAX then ODBC_PARTITION_MAX else want)
      in if want < 1 then 1 else want)"
  define s where "s = split_hi split - split_lo split"
  have w: "1 \<le> w" "w \<le> 256" "u64 w = w"
    by (auto simp: w_def Let_def ODBC_PARTITION_MAX_def ODBC_PARTITION_AUTO_MAX_def u64_id)
  have s: "0 \<le> s" using assms by (simp add: s_def)
  have "ResolvePartitionCount p split = (let want = (if s < u64 w then s64 s else w) in if want < 1 then 1 else want)"
    unfolding ResolvePartitionCount_def w_def s_def u64_span [OF assms] by (simp add: Let_def)
  then have R: "ResolvePartitionCount p split = (if s < w then (if s < 1 then 1 else s) else w)"
    using w s by (auto simp: s64_id Let_def)
  show "1 \<le> ResolvePartitionCount p split" "ResolvePartitionCount p split \<le> ODBC_PARTITION_MAX"
    using R w s by (auto simp: ODBC_PARTITION_MAX_def)
  show "1 < ResolvePartitionCount p split \<Longrightarrow>
         split_valid (split_lo split) (split_hi split) (ResolvePartitionCount p split)"
    using R w s assms by (auto simp: split_valid_def ODBC_PARTITION_MAX_def s_def split: if_splits)
qed

subsection \<open>The slices as text\<close>

definition bound_literal :: "OdbcSplit \<Rightarrow> int \<Rightarrow> string" where
  "bound_literal split v =
     (if split_kind split = ODBC_SPLIT_CTID then [SQ] @ ''('' @ fmt_d v @ '',0)'' @ [SQ] @ ''::tid'' else fmt_d v)"

definition range_text :: "OdbcSplit \<Rightarrow> int option \<times> int option \<Rightarrow> string" where
  "range_text split r =
     (case r of
        (None, None) \<Rightarrow> []
      | (None, Some u) \<Rightarrow> split_expr split @ '' < '' @ bound_literal split u
      | (Some l, None) \<Rightarrow> split_expr split @ '' >= '' @ bound_literal split l
      | (Some l, Some u) \<Rightarrow> split_expr split @ '' >= '' @ bound_literal split l
                           @ '' AND '' @ split_expr split @ '' < '' @ bound_literal split u)"

lemma dec_not_empty [simp]: "dec n \<noteq> []"
  by (subst dec.simps) simp

lemma length_dec: "n < 10 ^ w \<Longrightarrow> 0 < w \<Longrightarrow> length (dec n) \<le> w"
  using arg_cong [OF dec_ndigits [of n w], of length] by simp

lemma fmt_d_length:
  assumes "is_s64 v"
  shows "0 < length (fmt_d v)" "length (fmt_d v) \<le> 20"
proof -
  have "nat \<bar>v\<bar> < 10 ^ 19" using assms by (auto simp: is_s64_def abs_if)
  then have "length (dec (nat \<bar>v\<bar>)) \<le> 19" by (rule length_dec) simp
  then show "0 < length (fmt_d v)" "length (fmt_d v) \<le> 20"
    by (auto simp: fmt_d_def abs_if split: if_splits)
qed

lemma bound_literal_length:
  assumes "is_s64 v"
  shows "0 < length (bound_literal split v)" "length (bound_literal split v) \<le> 31"
  using fmt_d_length [OF assms] by (auto simp: bound_literal_def)

lemma WriteBound_s64: "is_s64 v \<Longrightarrow> WriteBound split 64 v = Some (bound_literal split v)"
  using bound_literal_length [of v split]
  by (auto simp: WriteBound_def bound_literal_def snprintf_def Let_def split: if_splits)

lemma SplitBoundary_s64: "is_s64 (SplitBoundary l h n k)"
  using s64_bounds by (simp add: SplitBoundary_def Let_def is_s64_def)

lemma snprintf_fits: "length s < cap \<Longrightarrow> snprintf cap s = (length s, s)"
  by (simp add: snprintf_def)

lemma SliceSql_text:
  assumes "head \<le> length q" "2 \<le> nparts" "0 \<le> k" "k < nparts"
  shows "SliceSql split q head (length q + 2 * length (split_expr split) + 128) nparts k
       = Some (take head q @ '' WHERE ''
               @ range_text split (slice_range (SplitBoundary (split_lo split) (split_hi split) nparts) nparts k))"
proof -
  let ?b = "\<lambda>j. SplitBoundary (split_lo split) (split_hi split) nparts j"
  let ?c = "length q + 2 * length (split_expr split) + 128"
  let ?t = "take head q @ '' WHERE '' @ range_text split (slice_range ?b nparts k)"
  have w: "WriteBound split 64 (?b j) = Some (bound_literal split (?b j))" for j
    by (rule WriteBound_s64 [OF SplitBoundary_s64])
  have l: "length (bound_literal split (?b j)) \<le> 31" for j
    by (rule bound_literal_length [OF SplitBoundary_s64])
  have lt: "length ?t < ?c"
    using l [of k] l [of "k + 1"] assms(1) by (auto simp: range_text_def slice_range_def)
  then have fits: "(let (wrote, buf) = snprintf ?c ?t in if wrote \<le> 0 \<or> wrote \<ge> ?c then None else Some buf) = Some ?t"
    unfolding snprintf_fits [OF lt] by simp
  consider "k = 0" | "k \<noteq> 0" "k = nparts - 1" | "k \<noteq> 0" "k \<noteq> nparts - 1" by blast
  then show ?thesis
    using fits assms by cases (simp_all add: SliceSql_def w range_text_def slice_range_def)
qed

lemma BuildSlices_all:
  assumes "\<And>i. malloc i" "\<And>k. k \<in> set ks \<Longrightarrow> mk (int k) = Some (g k)"
  shows "BuildSlices malloc mk ks = Some (map (\<lambda>k. ODBC_PARTITION_MAGIC @ g k) ks)"
  using assms by (induction ks) (auto simp: PartitionsSet_def)

text \<open>
  What the code relies on of \<^verbatim>\<open>SQLGetData\<close> with \<^verbatim>\<open>SQL_C_SBIGINT\<close>: an integer it returns fits the
  64-bit buffer it was given.
\<close>

definition server_int64 :: "server \<Rightarrow> bool" where
  "server_int64 hdbc \<longleftrightarrow> (\<forall>sql row v. exec_row hdbc sql = Some row \<and> IntCell v \<in> set row \<longrightarrow> is_s64 v)"

lemma GetBigInt_s64:
  "server_int64 hdbc \<Longrightarrow> exec_row hdbc sql = Some row \<Longrightarrow> GetBigInt row c = Some (Some v) \<Longrightarrow> is_s64 v"
  unfolding server_int64_def GetBigInt_def cell_at_def
  by (auto split: cell.splits if_splits) (metis diff_less less_le_trans nth_mem zero_less_one Suc_le_eq diff_Suc_less)

lemma PostgresHeapBlocks_s64:
  "server_int64 hdbc \<Longrightarrow> PostgresHeapBlocks hdbc t = Some b \<Longrightarrow> 0 < b \<and> is_s64 b"
  by (auto simp: PostgresHeapBlocks_def Let_def snprintf_def
      split: if_splits option.splits dest: GetBigInt_s64)

lemma ExpressionExtent_s64:
  "server_int64 hdbc \<Longrightarrow> ExpressionExtent hdbc t e = Some (l, h) \<Longrightarrow> l \<le> h \<and> is_s64 l \<and> is_s64 h"
  by (auto simp: ExpressionExtent_def Let_def snprintf_def
      split: if_splits option.splits dest: GetBigInt_s64)

lemma ChooseSplit_extent:
  assumes "server_int64 hdbc" "split_kind (ChooseSplit hdbc t) \<noteq> ODBC_SPLIT_NONE"
  shows "split_lo (ChooseSplit hdbc t) \<le> split_hi (ChooseSplit hdbc t)
       \<and> is_s64 (split_lo (ChooseSplit hdbc t)) \<and> is_s64 (split_hi (ChooseSplit hdbc t))"
proof -
  have z: "is_s64 0" "is_s64 65535" by (simp_all add: is_s64_def)
  show ?thesis using assms z
    unfolding ChooseSplit_def
    by (auto simp: Let_def split: option.splits if_splits
        dest: PostgresHeapBlocks_s64 ExpressionExtent_s64)
qed

subsection \<open>What the scanner accepts\<close>

lemma SkipSpace_bounds: "i \<le> SkipSpace s n i \<and> (i \<le> n \<longrightarrow> SkipSpace s n i \<le> n)"
proof (induction s n i rule: SkipSpace.induct)
  case (1 s n i)
  then show ?case by (subst (1 2) SkipSpace.simps) auto
qed

lemma SkipIdent_bounds:
  "i \<le> n \<Longrightarrow> SkipIdent s n i \<le> n \<and> (\<forall>j. i \<le> j \<and> j < SkipIdent s n i \<longrightarrow> IsIdentChar (s ! j))"
proof (induction s n i rule: SkipIdent.induct)
  case (1 s n i)
  show ?case
  proof (cases "i < n \<and> IsIdentChar (s ! i)")
    case True
    then have eq: "SkipIdent s n i = SkipIdent s n (i + 1)" by (subst SkipIdent.simps) simp
    have "SkipIdent s n (i + 1) \<le> n \<and> (\<forall>j. i + 1 \<le> j \<and> j < SkipIdent s n (i + 1) \<longrightarrow> IsIdentChar (s ! j))"
      using 1 True by simp
    then show ?thesis unfolding eq using True by (metis Suc_eq_plus1 Suc_leI le_neq_implies_less)
  next
    case False
    then have "SkipIdent s n i = i" by (subst SkipIdent.simps) auto
    then show ?thesis using "1.prems" by auto
  qed
qed

lemma TrimEnd_le: "TrimEnd s n \<le> n"
  by (induction n) auto

lemma MatchWord_chars:
  "MatchWord s n i w \<noteq> 0 \<Longrightarrow> j < length w \<Longrightarrow> i + j < n \<and> to_lower (s ! (i + j)) = to_lower (w ! j)"
proof (induction w arbitrary: i j)
  case (Cons a w)
  then show ?case by (cases j) (fastforce split: if_splits)+
qed simp

lemma MatchWord_bound: "MatchWord s n i w \<noteq> 0 \<Longrightarrow> w \<noteq> [] \<Longrightarrow> MatchWord s n i w \<le> n"
  using MatchWord_chars [of s n i w "length w - 1"] MatchWord_ge [of s n i w] by (cases w) auto

lemma letter_fold: "\<forall>c::char. IsIdentStart (to_lower c) \<longrightarrow> IsIdentStart c \<and> \<not> forbidden_char c"
  by code_simp

lemma from_letters:
  assumes "MatchWord s n k ''from'' \<noteq> 0" "k \<le> j" "j < MatchWord s n k ''from''"
  shows "IsIdentStart (s ! j) \<and> \<not> forbidden_char (s ! j) \<and> to_lower (s ! j) = ''from'' ! (j - k)"
proof -
  have j: "j - k < length ''from''" "k + (j - k) = j" using assms MatchWord_ge [OF assms(1)] by auto
  have low: "\<forall>i \<in> set [0..<4]. IsIdentStart (to_lower (''from'' ! i)) \<and> to_lower (''from'' ! i) = ''from'' ! i"
    by code_simp
  have "to_lower (s ! j) = to_lower (''from'' ! (j - k))" using MatchWord_chars [OF assms(1) j(1)] j(2) by simp
  moreover have "j - k \<in> set [0..<4]" using j(1) by simp
  ultimately show ?thesis using low letter_fold by metis
qed

text \<open>
  What a position of the statement must satisfy: no quoting, parenthesis, separator or marker; no
  comment opening; and, where a word starts, none of the words that end the split.
\<close>

definition clean_at :: "string \<Rightarrow> nat \<Rightarrow> nat \<Rightarrow> nat \<Rightarrow> bool" where
  "clean_at sql n a k \<longleftrightarrow>
     \<not> forbidden_char (sql ! k)
   \<and> \<not> (sql ! k = CHR ''-'' \<and> k + 1 < n \<and> sql ! (k + 1) = CHR ''-'')
   \<and> \<not> (sql ! k = CHR ''/'' \<and> k + 1 < n \<and> sql ! (k + 1) = CHR ''*'')
   \<and> (IsIdentStart (sql ! k) \<and> (k = a \<or> \<not> IsIdentChar (sql ! (k - 1)))
      \<longrightarrow> (\<forall>w \<in> set kUnsplittableWords. MatchWord sql n k w = 0))"

lemma from_not_unsplittable:
  "\<forall>w \<in> set kUnsplittableWords. \<exists>i \<in> set [0..<min 4 (length w)]. to_lower (w ! i) \<noteq> ''from'' ! i"
  by code_simp

lemma from_clean:
  assumes "MatchWord s n k ''from'' \<noteq> 0" "a \<le> k" "k \<le> j" "j < MatchWord s n k ''from''"
  shows "clean_at s n a j"
proof -
  note l = from_letters [OF assms(1,3,4)]
  have "\<forall>c::char. IsIdentStart c \<longrightarrow> c \<noteq> CHR ''-'' \<and> c \<noteq> CHR ''/''" by code_simp
  then have nc: "s ! j \<noteq> CHR ''-''" "s ! j \<noteq> CHR ''/''" using l by blast+
  have "MatchWord s n j w = 0" if w: "w \<in> set kUnsplittableWords" "j = a \<or> \<not> IsIdentChar (s ! (j - 1))" for w
  proof (rule ccontr)
    assume m: "MatchWord s n j w \<noteq> 0"
    have "j = k"
    proof (rule ccontr)
      assume "j \<noteq> k"
      then have "IsIdentStart (s ! (j - 1))" "j \<noteq> a"
        using assms from_letters [OF assms(1), of "j - 1"] by auto
      then show False using w(2) by (simp add: IsIdentChar_def)
    qed
    obtain i where "i < length w" "i < 4" "to_lower (w ! i) \<noteq> ''from'' ! i"
      using bspec [OF from_not_unsplittable w(1)] by auto
    moreover have "to_lower (s ! (k + i)) = ''from'' ! i"
      using from_letters [OF assms(1), of "k + i"] MatchWord_ge [OF assms(1)] \<open>i < 4\<close> by simp
    ultimately show False using MatchWord_chars [OF m, of i] \<open>j = k\<close> by simp
  qed
  then show ?thesis using l nc by (auto simp: clean_at_def)
qed

lemma ScanStatement_step:
  assumes "ScanStatement sql n a k (c, fs, fe) = Some st'" "k < n" "a \<le> k"
  shows "MatchWord sql n k ''from'' \<noteq> 0 \<and> ScanStatement sql n a (MatchWord sql n k ''from'')
           (c + 1, k, MatchWord sql n k ''from'') = Some st'
       \<or> clean_at sql n a k \<and> ScanStatement sql n a (k + 1) (c, fs, fe) = Some st'"
proof -
  define m where "m = MatchWord sql n k ''from''"
  define scan where "scan = ScanStatement sql n a"
  note e = trans [OF sym [OF ScanStatement.simps [of sql n a k c fs fe]] assms(1),
      folded m_def scan_def, unfolded Let_def list_ex_iff]
  show ?thesis
    using e assms(2,3) unfolding m_def [symmetric] scan_def [symmetric] clean_at_def
    by (auto split: if_splits simp del: MatchWord.simps)
qed

lemma ScanStatement_clean:
  "ScanStatement sql n a k st = Some st' \<Longrightarrow> a \<le> k \<Longrightarrow> k \<le> j \<Longrightarrow> j < n \<Longrightarrow> clean_at sql n a j"
proof (induction "n - k" arbitrary: k st rule: less_induct)
  case less
  obtain c fs fe where st: "st = (c, fs, fe)" by (cases st) auto
  let ?m = "MatchWord sql n k ''from''"
  have kn: "k < n" using less.prems(3,4) by simp
  from ScanStatement_step [OF less.prems(1) [unfolded st] kn less.prems(2)] show ?case
  proof (elim disjE conjE)
    assume m: "?m \<noteq> 0" and rest: "ScanStatement sql n a ?m (c + 1, k, ?m) = Some st'"
    have "n - ?m < n - k" "k \<le> ?m" using MatchWord_progress [OF kn _ m] MatchWord_ge [OF m] by simp_all
    then show ?thesis
      using less.hyps [OF _ rest] from_clean [OF m less.prems(2,3)] less.prems(2,4)
      by (cases "j < ?m") (simp_all del: MatchWord.simps)
  next
    assume "clean_at sql n a k" and rest: "ScanStatement sql n a (k + 1) (c, fs, fe) = Some st'"
    then show ?thesis using less.hyps [OF _ rest] less.prems(2-4) kn by (cases "j = k") auto
  qed
qed

declare MatchWord.simps [simp del]

lemma ScanStatement_from:
  "ScanStatement sql n a k (c, fs, fe) = Some (c', fs', fe') \<Longrightarrow> a \<le> k \<Longrightarrow>
   (c', fs', fe') = (c, fs, fe) \<or> c < c' \<and> a \<le> fs' \<and> fe' \<noteq> 0 \<and> MatchWord sql n fs' ''from'' = fe'"
proof (induction "n - k" arbitrary: k c fs fe rule: less_induct)
  case less
  let ?m = "MatchWord sql n k ''from''"
  show ?case
  proof (cases "k < n")
    case False
    then show ?thesis using less.prems(1) by (subst (asm) ScanStatement.simps) simp
  next
    case True
    from ScanStatement_step [OF less.prems(1) True less.prems(2)] show ?thesis
    proof (elim disjE conjE)
      assume m: "?m \<noteq> 0" and rest: "ScanStatement sql n a ?m (c + 1, k, ?m) = Some (c', fs', fe')"
      have "n - ?m < n - k" "a \<le> ?m"
        using MatchWord_progress [OF True _ m] MatchWord_ge [OF m] less.prems(2) by simp_all
      from less.hyps [OF this(1) rest this(2)] show ?thesis using m less.prems(2) by auto
    next
      assume rest: "ScanStatement sql n a (k + 1) (c, fs, fe) = Some (c', fs', fe')"
      show ?thesis using less.hyps [OF _ rest] less.prems(2) True by simp
    qed
  qed
qed

lemma ScanTableRef_sound:
  "ScanTableRef sql n t parts = Some (te, ps) \<Longrightarrow> t \<le> n \<Longrightarrow>
   t \<le> te \<and> te \<le> n \<and> (\<forall>j. t \<le> j \<and> j < te \<longrightarrow> IsIdentChar (sql ! j) \<or> sql ! j = CHR ''.'')"
proof (induction "n - t" arbitrary: t parts rule: less_induct)
  case less
  define t' where "t' = SkipIdent sql n t"
  note e = trans [OF sym [OF ScanTableRef.simps [of sql n t parts]] less.prems(1), folded t'_def, unfolded Let_def]
  have sk: "t \<le> t'" "t' \<le> n" "\<forall>j. t \<le> j \<and> j < t' \<longrightarrow> IsIdentChar (sql ! j)"
    using SkipIdent_ge [of t sql n] SkipIdent_bounds [OF less.prems(2), of sql] by (simp_all add: t'_def)
  show ?case
  proof (cases "t < n \<and> t' < n \<and> sql ! t' = CHR ''.''")
    case True
    then have rest: "ScanTableRef sql n (t' + 1) (parts + 1) = Some (te, ps)" using e by (simp split: if_splits)
    have "n - (t' + 1) < n - t" using True sk(1) by linarith
    from less.hyps [OF this rest] True
    have "t' + 1 \<le> te" "te \<le> n" "\<forall>j. t' + 1 \<le> j \<and> j < te \<longrightarrow> IsIdentChar (sql ! j) \<or> sql ! j = CHR ''.''"
      by simp_all
    moreover have "IsIdentChar (sql ! j) \<or> sql ! j = CHR ''.''" if "t \<le> j" "j < te" for j
    proof -
      consider "j < t'" | "j = t'" | "t' + 1 \<le> j" by linarith
      then show ?thesis using sk(3) True calculation(3) that by cases auto
    qed
    ultimately show ?thesis using sk(1) by auto
  next
    case False
    then have "te = t' \<or> te = t" using e by (auto split: if_splits)
    then show ?thesis using sk less.prems(2) by auto
  qed
qed

lemma ParseSimpleSelect_dest:
  assumes "ParseSimpleSelect sql = Some (list_off, list_len, tbl_off, tbl_len)"
  defines "n \<equiv> TrimEnd sql (length sql)"
  obtains fs fe te ps where
    "MatchWord sql n (SkipSpace sql n 0) ''select'' = list_off"
    "ScanStatement sql n list_off list_off (0, 0, 0) = Some (1, fs, fe)"
    "list_ex (\<lambda>k. \<not> IsSpace (sql ! (list_off + k))) [0..<fs - list_off]"
    "ScanTableRef sql n (SkipSpace sql n fe) 0 = Some (te, ps)"
    "SkipSpace sql n fe < te" "list_len = fs - list_off"
    "tbl_off = SkipSpace sql n fe" "tbl_len = te - SkipSpace sql n fe"
    "list_off \<le> fs" "fe \<noteq> 0" "MatchWord sql n fs ''from'' = fe" "fe \<le> n"
    "fe \<le> SkipSpace sql n fe" "SkipSpace sql n fe \<le> n" "n \<le> length sql"
proof -
  define a where "a = MatchWord sql n (SkipSpace sql n 0) ''select''"
  from assms(1) obtain fs fe te ps where p:
    "a \<noteq> 0" "ScanStatement sql n a a (0, 0, 0) = Some (1, fs, fe)"
    "list_ex (\<lambda>k. \<not> IsSpace (sql ! (a + k))) [0..<fs - a]"
    "ScanTableRef sql n (SkipSpace sql n fe) 0 = Some (te, ps)"
    "SkipSpace sql n fe < te"
    "list_off = a" "list_len = fs - a" "tbl_off = SkipSpace sql n fe" "tbl_len = te - SkipSpace sql n fe"
    unfolding ParseSimpleSelect_def n_def [symmetric] Let_def a_def [symmetric]
    by (auto split: option.splits if_splits)
  have fr: "a \<le> fs" "fe \<noteq> 0" "MatchWord sql n fs ''from'' = fe"
    using ScanStatement_from [OF p(2)] by auto
  have fe: "fe \<le> n" using MatchWord_bound [of sql n fs "''from''"] fr by simp
  have "fe \<le> SkipSpace sql n fe" "SkipSpace sql n fe \<le> n" "n \<le> length sql"
    using SkipSpace_bounds [of fe sql n] fe TrimEnd_le [of sql "length sql"] by (simp_all add: n_def)
  then show thesis using that p fr fe a_def by simp
qed



lemma ParseSimpleSelect_head:
  "ParseSimpleSelect sql = Some (a, b, t, l) \<Longrightarrow> t + l \<le> length sql"
proof -
  assume p: "ParseSimpleSelect sql = Some (a, b, t, l)"
  from p show ?thesis
  proof (rule ParseSimpleSelect_dest)
    fix fs fe te ps
    let ?n = "TrimEnd sql (length sql)"
    assume "ScanTableRef sql ?n (SkipSpace sql ?n fe) 0 = Some (te, ps)" "SkipSpace sql ?n fe \<le> ?n"
      "SkipSpace sql ?n fe < te" "t = SkipSpace sql ?n fe" "l = te - SkipSpace sql ?n fe" "?n \<le> length sql"
    then show "t + l \<le> length sql" using ScanTableRef_sound by fastforce
  qed
qed

subsection \<open>What ExecutePartitions hands out\<close>

text \<open>
  C4. The partition contract.  Given memory, a query with no bind and no ingest, \<open>ExecutePartitions\<close>
  succeeds; it hands out either the query verbatim, as one descriptor, or between 2 and 256
  descriptors, the \<open>k\<close>-th of which is the query up to its table reference with the \<open>k\<close>-th range
  predicate.  The texts always fit their buffers, and whatever value of the split expression a row
  has, the row satisfies exactly one of the predicates: nothing is read twice and nothing is lost.
\<close>

theorem ExecutePartitions_exact:
  assumes "st_query stmt = Some q" "st_ingest_table stmt = None" "\<not> st_has_bind stmt"
    and "want_schema \<longrightarrow> describe = ADBC_STATUS_OK" "\<forall>i. malloc i" "server_int64 hdbc"
  defines "r \<equiv> OdbcStatementExecutePartitionsOdbc hdbc malloc describe want_schema stmt"
  shows "fst r = ADBC_STATUS_OK \<and>
    (fst (snd r) = [ODBC_PARTITION_MAGIC @ q]
     \<or> (\<exists>a b t l split n. ParseSimpleSelect q = Some (a, b, t, l) \<and> split = ChooseSplit hdbc (take l (drop t q))
          \<and> length (fst (snd r)) = n \<and> 2 \<le> n \<and> n \<le> 256
          \<and> (\<forall>k<n. fst (snd r) ! k = ODBC_PARTITION_MAGIC @ take (t + l) q @ '' WHERE ''
                @ range_text split (slice_range (SplitBoundary (split_lo split) (split_hi split) (int n)) (int n) (int k)))
          \<and> (\<forall>x. \<exists>!k. 0 \<le> k \<and> k < int n \<and>
                in_slice (slice_range (SplitBoundary (split_lo split) (split_hi split) (int n)) (int n) k) x)))"
proof (cases "fst r = ADBC_STATUS_OK \<and> fst (snd r) = [ODBC_PARTITION_MAGIC @ q]")
  case False
  have one: "OnePartition malloc q = (ADBC_STATUS_OK, [ODBC_PARTITION_MAGIC @ q])"
    using assms(5) by (simp add: OnePartition_def PartitionsSet_def)
  have m: "malloc 0" "malloc (Suc 0)" using assms(5) by simp_all
  from False obtain a b t l where p: "ParseSimpleSelect q = Some (a, b, t, l)"
    using assms(1-4) by (auto simp: r_def OdbcStatementExecutePartitionsOdbc_def one Let_def split: option.splits)
  define split where "split = ChooseSplit hdbc (take l (drop t q))"
  define n where "n = ResolvePartitionCount (st_partitions stmt) split"
  from False p assms(1-4) have k: "split_kind split \<noteq> ODBC_SPLIT_NONE" "1 < n"
    and r: "r = (case BuildSlices malloc (SliceSql split q (t + l)
                (length q + 2 * length (split_expr split) + 128) n) [0..<nat n] of
              None \<Rightarrow> (ADBC_STATUS_INTERNAL, [], if want_schema then stmt\<lparr>st_prepared := True\<rparr> else stmt)
            | Some blobs \<Rightarrow> (ADBC_STATUS_OK, blobs, if want_schema then stmt\<lparr>st_prepared := True\<rparr> else stmt))"
    unfolding n_def r_def OdbcStatementExecutePartitionsOdbc_def Let_def
    by (auto simp: one m split_def [symmetric] split: if_splits)
  note ex = ChooseSplit_extent [OF assms(6) k(1) [unfolded split_def], folded split_def]
  have v: "split_valid (split_lo split) (split_hi split) n" and n: "n \<le> 256"
    using ResolvePartitionCount_bounds [of split "st_partitions stmt"] ex k(2) by (auto simp: n_def ODBC_PARTITION_MAX_def)
  define g where "g = (\<lambda>k. take (t + l) q @ '' WHERE ''
      @ range_text split (slice_range (SplitBoundary (split_lo split) (split_hi split) n) n (int k)))"
  have "BuildSlices malloc (SliceSql split q (t + l) (length q + 2 * length (split_expr split) + 128) n) [0..<nat n]
      = Some (map (\<lambda>k. ODBC_PARTITION_MAGIC @ g k) [0..<nat n])"
    using assms(5) k(2) ParseSimpleSelect_head [OF p] unfolding g_def
    by (intro BuildSlices_all SliceSql_text) auto
  then have "fst r = ADBC_STATUS_OK" "fst (snd r) = map (\<lambda>k. ODBC_PARTITION_MAGIC @ g k) [0..<nat n]"
    using r by simp_all
  moreover have "\<exists>!k. 0 \<le> k \<and> k < n
      \<and> in_slice (slice_range (SplitBoundary (split_lo split) (split_hi split) n) n k) x" for x
    using sb.exactly_one_slice [of "(split_lo split, split_hi split, n)" x] v by simp
  ultimately show ?thesis using p k(2) n
    by (intro conjI disjI2 exI [of _ a] exI [of _ b] exI [of _ t] exI [of _ l] exI [of _ split]
          exI [of _ "nat n"]) (simp_all add: split_def g_def)
qed blast

text \<open>A server with one table \<open>t\<close> whose integer primary key \<open>id\<close> runs from 1 to 1000.\<close>

definition demo_server :: server where
  "demo_server =
     \<lparr>alloc_stmt = True, dbms_name = Some ''SQLite'', identifier_quote = Some [CHR 0x22],
      exec_row = (\<lambda>_. Some [IntCell 1, IntCell 1000]),
      primary_keys = (\<lambda>_ _ _. Some [[NullCell, NullCell, StrCell ''t'', StrCell ''id'', IntCell 1]]),
      columns = (\<lambda>_ _ _. Some [[NullCell, NullCell, StrCell ''t'', StrCell ''id'', IntCell 4,
                   NullCell, NullCell, NullCell, NullCell, NullCell, IntCell 0]])\<rparr>"

definition demo_stmt :: "string \<Rightarrow> OdbcPartStatement" where
  "demo_stmt q = \<lparr>st_query = Some q, st_ingest_table = None, st_has_bind = False, st_partitions = 4, st_prepared = False\<rparr>"

lemma demo_server_int64: "server_int64 demo_server"
  by (auto simp: server_int64_def demo_server_def is_s64_def)

theorem ExecutePartitions_exact_witness:
  "server_int64 demo_server
   \<and> fst (OdbcStatementExecutePartitionsOdbc demo_server (\<lambda>_. True) ADBC_STATUS_OK False (demo_stmt ''SELECT a FROM t'')) = ADBC_STATUS_OK
   \<and> map (drop 14) (fst (snd (OdbcStatementExecutePartitionsOdbc demo_server (\<lambda>_. True) ADBC_STATUS_OK False
        (demo_stmt ''SELECT a FROM t''))))
     = map (\<lambda>t. ''SELECT a FROM t WHERE '' @ [CHR 0x22] @ ''id'' @ [CHR 0x22] @ t)
        ['' < 250'', '' >= 250 AND '' @ [CHR 0x22] @ ''id'' @ [CHR 0x22] @ '' < 500'',
         '' >= 500 AND '' @ [CHR 0x22] @ ''id'' @ [CHR 0x22] @ '' < 750'', '' >= 750'']"
proof -
  let ?r = "OdbcStatementExecutePartitionsOdbc demo_server (\<lambda>_. True) ADBC_STATUS_OK False (demo_stmt ''SELECT a FROM t'')"
  have "fst ?r = ADBC_STATUS_OK"
    using ExecutePartitions_exact [of "demo_stmt ''SELECT a FROM t''" "''SELECT a FROM t''" False ADBC_STATUS_OK
        "\<lambda>_. True" demo_server] demo_server_int64 by (simp add: demo_stmt_def)
  moreover have "map (drop 14) (fst (snd ?r))
     = map (\<lambda>t. ''SELECT a FROM t WHERE '' @ [CHR 0x22] @ ''id'' @ [CHR 0x22] @ t)
        ['' < 250'', '' >= 250 AND '' @ [CHR 0x22] @ ''id'' @ [CHR 0x22] @ '' < 500'',
         '' >= 500 AND '' @ [CHR 0x22] @ ''id'' @ [CHR 0x22] @ '' < 750'', '' >= 750'']"
    by code_simp
  ultimately show ?thesis using demo_server_int64 by blast
qed

text \<open>
  A defect of the slice text.  The scanner accepts a bare table alias, but the slices keep the
  query only up to the end of the table name: \<^verbatim>\<open>SELECT x.a FROM t x\<close> becomes
  \<^verbatim>\<open>SELECT x.a FROM t WHERE ...\<close>, in which \<^verbatim>\<open>x\<close> is not defined.  No descriptor of a split query
  contains anything the query has after its table reference.
\<close>

theorem ExecutePartitions_drops_alias:
  "ParseSimpleSelect ''SELECT x.a FROM t x'' = Some (6, 5, 16, 1)
   \<and> (let r = OdbcStatementExecutePartitionsOdbc demo_server (\<lambda>_. True) ADBC_STATUS_OK False
                (demo_stmt ''SELECT x.a FROM t x'')
      in fst r = ADBC_STATUS_OK
       \<and> hd (fst (snd r)) = ODBC_PARTITION_MAGIC @ ''SELECT x.a FROM t WHERE '' @ [CHR 0x22] @ ''id'' @ [CHR 0x22] @ '' < 250'')"
  by code_simp

subsection \<open>Reading a descriptor back\<close>

text \<open>
  C30. Reading a descriptor runs exactly the slice it was made from, on any connection; nothing but
  a descriptor of this driver is ever executed (a blob without the magic, or a missing stream or
  connection, is refused before a statement handle exists); and the statement handle outlives the
  call exactly when the call succeeds, so no failing path leaks it.
\<close>

theorem ReadPartition_roundtrip:
  assumes "CHR 0x00 \<notin> set sql" "PartitionsSet True sql = Some blob"
    and "\<forall>e s. re_alloc env = Some e \<or> re_exec env s = Some e \<longrightarrow> e \<noteq> ADBC_STATUS_OK"
  shows "(re_alloc env = None \<longrightarrow> fst (snd (OdbcConnectionReadPartitionOdbc env True True True blob)) = Some sql)
     \<and> (\<forall>malloc connected out d. (case OdbcConnectionReadPartitionOdbc env malloc connected out d of
           (status, executed, live) \<Rightarrow>
             (live \<longleftrightarrow> status = ADBC_STATUS_OK)
           \<and> (executed \<noteq> None \<longrightarrow> connected \<and> out \<and> take 14 d = ODBC_PARTITION_MAGIC)
           \<and> (connected \<and> \<not> (out \<and> take 14 d = ODBC_PARTITION_MAGIC) \<longrightarrow> status = ADBC_STATUS_INVALID_ARGUMENT)))"
proof (rule conjI)
  have len: "length ODBC_PARTITION_MAGIC = 14" by code_simp
  have blob: "blob = ODBC_PARTITION_MAGIC @ sql" using assms(2) by (simp add: PartitionsSet_def)
  have "takeWhile (\<lambda>c. c \<noteq> CHR 0x00) sql = sql" using assms(1) by (intro takeWhile_eq_all_conv [THEN iffD2]) auto
  then show "re_alloc env = None \<longrightarrow> fst (snd (OdbcConnectionReadPartitionOdbc env True True True blob)) = Some sql"
    by (auto simp: OdbcConnectionReadPartitionOdbc_def blob Let_def split: option.splits)
  show "\<forall>malloc connected out d. (case OdbcConnectionReadPartitionOdbc env malloc connected out d of
           (status, executed, live) \<Rightarrow>
             (live \<longleftrightarrow> status = ADBC_STATUS_OK)
           \<and> (executed \<noteq> None \<longrightarrow> connected \<and> out \<and> take 14 d = ODBC_PARTITION_MAGIC)
           \<and> (connected \<and> \<not> (out \<and> take 14 d = ODBC_PARTITION_MAGIC) \<longrightarrow> status = ADBC_STATUS_INVALID_ARGUMENT))"
    using assms(3) len unfolding OdbcConnectionReadPartitionOdbc_def Let_def
    by (auto split: option.splits if_splits)
qed

definition demo_env :: read_env where
  "demo_env = \<lparr>re_alloc = None, re_exec = (\<lambda>s. if s = ''bad'' then Some ADBC_STATUS_INVALID_ARGUMENT else None),
               re_ref = True, re_reader = ADBC_STATUS_OK\<rparr>"

theorem ReadPartition_roundtrip_witness:
  "fst (snd (OdbcConnectionReadPartitionOdbc demo_env True True True (ODBC_PARTITION_MAGIC @ ''SELECT 1''))) = Some ''SELECT 1''"
  using ReadPartition_roundtrip [of "''SELECT 1''" "ODBC_PARTITION_MAGIC @ ''SELECT 1''" demo_env]
  by (simp add: demo_env_def PartitionsSet_def)

end
