(* ===== verification/IngestQueue.thy ===== *)
theory IngestQueue
  imports Prelude "HOL-Library.Multiset" "HOL-Library.Sublist"
begin

text \<open>
  Parallel bulk ingest, \<^verbatim>\<open>src/odbc_bind.c\<close>: the bounded queue between the pump and the worker
  threads, the slicing of a large batch and the reference count its slices share, and the pump and
  its workers as an interleaved system.

  Every queue operation runs under the queue's mutex, so it is one atomic step; one that would wait
  on a condition variable is \<^const>\<open>None\<close>, and is taken again when another thread has changed the queue.
\<close>

subsection \<open>The queue\<close>

record 'a IngestQueue =
  q_slots :: "'a option list"
  q_cap :: nat
  q_head :: nat
  q_count :: nat
  q_done :: bool
  q_failed :: bool

definition QueueInit :: "nat \<Rightarrow> 'a IngestQueue" where
  "QueueInit c = \<lparr>q_slots = replicate c None, q_cap = c, q_head = 0, q_count = 0, q_done = False, q_failed = False\<rparr>"

definition QueuePush :: "'a IngestQueue \<Rightarrow> 'a \<Rightarrow> (bool \<times> 'a IngestQueue) option" where
  "QueuePush q a =
     (if q_count q = q_cap q \<and> \<not> q_failed q then None
      else if q_failed q then Some (False, q)
      else Some (True, q\<lparr>q_slots := (q_slots q)[(q_head q + q_count q) mod q_cap q := Some a], q_count := q_count q + 1\<rparr>))"

datatype 'a pop = INGEST_POP_OK 'a | INGEST_POP_END | INGEST_POP_FAILED

text \<open>\<open>*out\<close> is the slot's content; the invariant below says it is never an empty slot.\<close>

definition QueuePop :: "'a IngestQueue \<Rightarrow> ('a pop \<times> 'a IngestQueue) option" where
  "QueuePop q =
     (if q_count q = 0 \<and> \<not> q_done q \<and> \<not> q_failed q then None
      else if q_failed q then Some (INGEST_POP_FAILED, q)
      else if q_count q = 0 then Some (INGEST_POP_END, q)
      else case q_slots q ! q_head q of
        None \<Rightarrow> None
      | Some a \<Rightarrow> Some (INGEST_POP_OK a,
          q\<lparr>q_slots := (q_slots q)[q_head q := None], q_head := (q_head q + 1) mod q_cap q, q_count := q_count q - 1\<rparr>))"

definition QueueFinish :: "'a IngestQueue \<Rightarrow> 'a IngestQueue" where
  "QueueFinish q = q\<lparr>q_done := True\<rparr>"

definition QueueFail :: "'a IngestQueue \<Rightarrow> 'a IngestQueue" where
  "QueueFail q = q\<lparr>q_failed := True\<rparr>"

text \<open>What \<open>QueueDestroy\<close> releases: the batches still queued, oldest first.\<close>

definition QueueDestroy :: "'a IngestQueue \<Rightarrow> 'a list" where
  "QueueDestroy q = concat (map (\<lambda>i. case q_slots q ! ((q_head q + i) mod q_cap q) of None \<Rightarrow> [] | Some a \<Rightarrow> [a]) [0..<q_count q])"

subsection \<open>Its contract\<close>

text \<open>
  A bounded first-in first-out queue, as its clients see it: \<open>items\<close> are the elements in order.
\<close>

locale bounded_queue =
  fixes inv :: "'q \<Rightarrow> bool" and items :: "'q \<Rightarrow> 'a list" and bound :: "'q \<Rightarrow> nat"
    and closed :: "'q \<Rightarrow> bool" and push :: "'q \<Rightarrow> 'a \<Rightarrow> (bool \<times> 'q) option" and take_first :: "'q \<Rightarrow> ('a \<times> 'q) option"
  assumes size_bound: "inv q \<Longrightarrow> length (items q) \<le> bound q"
    and bound_pos: "inv q \<Longrightarrow> 0 < bound q"
    and push_waits: "inv q \<Longrightarrow> (push q a = None) = (length (items q) = bound q \<and> \<not> closed q)"
    and push_stores: "inv q \<Longrightarrow> push q a = Some (ok, q') \<Longrightarrow>
          inv q' \<and> bound q' = bound q \<and> closed q' = closed q \<and> ok = (\<not> closed q)
          \<and> items q' = (if ok then items q @ [a] else items q)"
    and take_waits: "inv q \<Longrightarrow> (take_first q = None) = (items q = [] \<or> closed q)"
    and take_stores: "inv q \<Longrightarrow> take_first q = Some (a, q') \<Longrightarrow>
          inv q' \<and> bound q' = bound q \<and> closed q' = closed q \<and> items q = a # items q'"
begin

text \<open>Whatever is pushed comes out, once and in order.\<close>

fun push_all :: "'q \<Rightarrow> 'a list \<Rightarrow> 'q option" where
  "push_all q [] = Some q"
| "push_all q (a # as) = (case push q a of Some (True, q') \<Rightarrow> push_all q' as | _ \<Rightarrow> None)"

fun take_all :: "nat \<Rightarrow> 'q \<Rightarrow> 'a list \<times> 'q" where
  "take_all 0 q = ([], q)"
| "take_all (Suc n) q = (case take_first q of None \<Rightarrow> ([], q) | Some (a, q') \<Rightarrow> map_prod (Cons a) id (take_all n q'))"

lemma push_all_items:
  "inv q \<Longrightarrow> push_all q as = Some q' \<Longrightarrow> inv q' \<and> items q' = items q @ as \<and> (closed q' = closed q)"
proof (induction as arbitrary: q)
  case (Cons a as)
  then obtain q1 where p: "push q a = Some (True, q1)" "push_all q1 as = Some q'"
    by (auto split: option.splits prod.splits bool.splits)
  from push_stores [OF Cons.prems(1) p(1)] Cons.IH [of q1] p(2) show ?case by simp
qed auto

lemma take_all_items:
  "inv q \<Longrightarrow> \<not> closed q \<Longrightarrow> n \<le> length (items q) \<Longrightarrow>
   fst (take_all n q) = take n (items q) \<and> inv (snd (take_all n q)) \<and> items (snd (take_all n q)) = drop n (items q)"
proof (induction n arbitrary: q)
  case (Suc n)
  then obtain a q1 where t: "take_first q = Some (a, q1)" using take_waits [of q] by (cases "take_first q") auto
  from take_stores [OF Suc.prems(1) this] Suc.prems Suc.IH [of q1] show ?case by (simp add: t)
qed simp

lemma fifo:
  assumes "inv q" "\<not> closed q" "items q = []" "push_all q as = Some q'"
  shows "fst (take_all (length as) q') = as"
  using push_all_items [OF assms(1,4)] take_all_items [of q' "length as"] assms(2,3) by simp

end

subsection \<open>The invariant\<close>

definition queue_items :: "'a IngestQueue \<Rightarrow> 'a list" where
  "queue_items q = map (\<lambda>i. the (q_slots q ! ((q_head q + i) mod q_cap q))) [0..<q_count q]"

text \<open>A slot is occupied exactly when its distance from the head is below the count.\<close>

definition queue_inv :: "'a IngestQueue \<Rightarrow> bool" where
  "queue_inv q \<longleftrightarrow> 0 < q_cap q \<and> length (q_slots q) = q_cap q \<and> q_head q < q_cap q \<and> q_count q \<le> q_cap q
     \<and> (\<forall>i<q_count q. q_slots q ! ((q_head q + i) mod q_cap q) \<noteq> None)"

lemma queue_inv_init: "0 < c \<Longrightarrow> queue_inv (QueueInit c) \<and> queue_items (QueueInit c) = []"
  by (simp add: queue_inv_def QueueInit_def queue_items_def)

definition queue_take :: "'a IngestQueue \<Rightarrow> ('a \<times> 'a IngestQueue) option" where
  "queue_take q = (case QueuePop q of Some (INGEST_POP_OK a, q') \<Rightarrow> Some (a, q') | _ \<Rightarrow> None)"

lemma queue_items_length [simp]: "length (queue_items q) = q_count q"
  by (simp add: queue_items_def)

lemma QueuePush_stores:
  assumes "queue_inv q" "QueuePush q a = Some (True, q')"
  shows "queue_inv q' \<and> queue_items q' = queue_items q @ [a] \<and> q_cap q' = q_cap q
       \<and> q_done q' = q_done q \<and> q_failed q' = q_failed q"
proof -
  let ?c = "q_cap q" and ?h = "q_head q" and ?n = "q_count q"
  have c: "?n < ?c" "\<not> q_failed q" using assms by (auto simp: QueuePush_def queue_inv_def split: if_splits)
  have q': "q' = q\<lparr>q_slots := (q_slots q)[(?h + ?n) mod ?c := Some a], q_count := ?n + 1\<rparr>"
    using assms(2) c by (auto simp: QueuePush_def split: if_splits)
  have len: "length (q_slots q) = ?c" "0 < ?c" using assms(1) by (simp_all add: queue_inv_def)
  have at: "(q_slots q)[(?h + ?n) mod ?c := Some a] ! ((?h + i) mod ?c) =
      (if i = ?n then Some a else q_slots q ! ((?h + i) mod ?c))" if "i \<le> ?n" for i
    using ring_distinct [of i ?c ?n ?h] that c(1) len by (auto simp: nth_list_update)
  have "queue_items q' = queue_items q @ [a]" unfolding queue_items_def q' using at by simp
  moreover have "queue_inv q'" using assms(1) c at unfolding queue_inv_def q' by (auto simp: less_Suc_eq)
  ultimately show ?thesis by (simp add: q')
qed

lemma QueuePop_takes:
  assumes "queue_inv q" "QueuePop q = Some (INGEST_POP_OK a, q')"
  shows "queue_inv q' \<and> queue_items q = a # queue_items q' \<and> q_cap q' = q_cap q
       \<and> q_done q' = q_done q \<and> q_failed q' = q_failed q"
proof -
  let ?c = "q_cap q" and ?h = "q_head q" and ?n = "q_count q"
  have n: "0 < ?n" and hd: "q_slots q ! ?h = Some a"
    and q': "q' = q\<lparr>q_slots := (q_slots q)[?h := None], q_head := (?h + 1) mod ?c, q_count := ?n - 1\<rparr>"
    using assms(2) by (auto simp: QueuePop_def split: if_splits option.splits)
  have i: "length (q_slots q) = ?c" "0 < ?c" "?h < ?c" "?n \<le> ?c"
    "\<And>i. i < ?n \<Longrightarrow> q_slots q ! ((?h + i) mod ?c) \<noteq> None"
    using assms(1) by (simp_all add: queue_inv_def)
  have at: "(q_slots q)[?h := None] ! (((?h + 1) mod ?c + i) mod ?c) = q_slots q ! ((?h + Suc i) mod ?c)"
    if "i < ?n - 1" for i
  proof -
    have e: "((?h + 1) mod ?c + i) mod ?c = (?h + Suc i) mod ?c" by (simp add: mod_simps)
    have "Suc i < ?c" using that i(4) by linarith
    then have "(?h + Suc i) mod ?c \<noteq> ?h" using ring_distinct [of "Suc i" ?c 0 ?h] i(2,3) by auto
    then show ?thesis unfolding e by simp
  qed
  have "[0..<?n] = 0 # map Suc [0..<?n - 1]" using n by (metis One_nat_def Suc_pred map_Suc_upt upt_conv_Cons)
  then have "queue_items q = a # queue_items q'"
    unfolding queue_items_def q' using at hd i(3) by simp
  moreover have "\<And>j. j < ?n - 1 \<Longrightarrow> q_slots q ! ((?h + Suc j) mod ?c) \<noteq> None" by (rule i(5)) linarith
  then have "queue_inv q'" using i(1-4) at n unfolding queue_inv_def q' by simp
  ultimately show ?thesis by (simp add: q')
qed

lemma QueuePop_none:
  assumes "queue_inv q"
  shows "(QueuePop q = None) = (queue_items q = [] \<and> \<not> q_done q \<and> \<not> q_failed q)"
proof -
  have "0 < q_count q \<Longrightarrow> q_slots q ! q_head q \<noteq> None"
    using assms by (auto simp: queue_inv_def dest: spec [of _ 0])
  then show ?thesis by (auto simp: QueuePop_def queue_items_def split: option.splits)
qed

lemma QueuePush_none: "queue_inv q \<Longrightarrow> (QueuePush q a = None) = (q_count q = q_cap q \<and> \<not> q_failed q)"
  by (auto simp: QueuePush_def)

lemma QueuePush_rejected: "QueuePush q a = Some (False, q') \<Longrightarrow> q' = q \<and> q_failed q"
  by (auto simp: QueuePush_def split: if_splits)

lemma QueuePop_end:
  assumes "QueuePop q = Some (r, q')"
  shows "r = INGEST_POP_END \<Longrightarrow> q' = q \<and> queue_items q = [] \<and> q_done q \<and> \<not> q_failed q"
    and "r = INGEST_POP_FAILED \<Longrightarrow> q' = q \<and> q_failed q"
  using assms by (auto simp: QueuePop_def queue_items_def split: if_splits option.splits)

interpretation iq: bounded_queue queue_inv queue_items q_cap q_failed QueuePush queue_take
proof
  fix q :: "'a IngestQueue" and a ok q'
  assume q: "queue_inv q"
  show "length (queue_items q) \<le> q_cap q" "0 < q_cap q" using q by (simp_all add: queue_inv_def)
  show "(QueuePush q a = None) = (length (queue_items q) = q_cap q \<and> \<not> q_failed q)"
    using QueuePush_none [OF q] by simp
  show "(queue_take q = None) = (queue_items q = [] \<or> q_failed q)"
    using q QueuePop_none [OF q]
    by (auto simp: queue_take_def QueuePop_def queue_items_def split: option.splits if_splits)
  show "queue_inv q' \<and> q_cap q' = q_cap q \<and> q_failed q' = q_failed q \<and> queue_items q = a # queue_items q'"
    if "queue_take q = Some (a, q')"
    using that QueuePop_takes [OF q, of a q'] by (auto simp: queue_take_def split: option.splits prod.splits pop.splits)
  show "queue_inv q' \<and> q_cap q' = q_cap q \<and> q_failed q' = q_failed q \<and> ok = (\<not> q_failed q)
      \<and> queue_items q' = (if ok then queue_items q @ [a] else queue_items q)"
    if p: "QueuePush q a = Some (ok, q')"
  proof (cases ok)
    case True
    have "\<not> q_failed q" using p True by (auto simp: QueuePush_def split: if_splits)
    with True show ?thesis using QueuePush_stores [OF q] p by simp
  next
    case False
    with QueuePush_rejected [of q a q'] p q show ?thesis by auto
  qed
qed

text \<open>
  C32. The ingest queue is a bounded first-in first-out queue, whatever the wrap-around of its ring:
  it never holds more than its capacity, a push waits exactly when it is full, a batch that is pushed
  comes out exactly once and in order, and what is left at the end is what \<open>QueueDestroy\<close> releases.
\<close>

theorem IngestQueue_fifo:
  assumes "queue_inv q"
  shows "q_count q \<le> q_cap q
       \<and> (\<forall>a. (QueuePush q a = None) = (q_count q = q_cap q \<and> \<not> q_failed q))
       \<and> (\<forall>a q'. QueuePush q a = Some (True, q') \<longrightarrow> queue_inv q' \<and> queue_items q' = queue_items q @ [a])
       \<and> (\<forall>a q'. QueuePop q = Some (INGEST_POP_OK a, q') \<longrightarrow> queue_inv q' \<and> queue_items q = a # queue_items q')
       \<and> (\<forall>as q'. queue_items q = [] \<and> \<not> q_failed q \<and> iq.push_all q as = Some q' \<longrightarrow>
            fst (iq.take_all (length as) q') = as)
       \<and> QueueDestroy q = queue_items q"
proof -
  have "QueueDestroy q = concat (map (\<lambda>i. [the (q_slots q ! ((q_head q + i) mod q_cap q))]) [0..<q_count q])"
    unfolding QueueDestroy_def using assms by (intro arg_cong [of _ _ concat] map_cong) (auto simp: queue_inv_def split: option.splits)
  then have "QueueDestroy q = queue_items q" by (simp add: queue_items_def)
  moreover have "q_count q \<le> q_cap q" using assms by (simp add: queue_inv_def)
  ultimately show ?thesis
    using QueuePush_none [OF assms] QueuePush_stores [OF assms] QueuePop_takes [OF assms] iq.fifo [OF assms]
    by blast
qed

theorem IngestQueue_fifo_witness:
  "queue_inv (QueueInit 2 :: nat IngestQueue)
   \<and> fst (iq.take_all 2 (the (iq.push_all (QueueInit 2) [7, 8 :: nat]))) = [7, 8]"
proof -
  have i: "queue_inv (QueueInit 2 :: nat IngestQueue)" "queue_items (QueueInit 2 :: nat IngestQueue) = []"
    by (simp_all add: queue_inv_init)
  have f: "\<not> q_failed (QueueInit 2 :: nat IngestQueue)" by (simp add: QueueInit_def)
  obtain q' where p: "iq.push_all (QueueInit 2) [7, 8 :: nat] = Some q'"
    by (simp add: QueuePush_def QueueInit_def)
  have "fst (iq.take_all (length [7, 8 :: nat]) q') = [7, 8]" using IngestQueue_fifo [OF i(1)] i(2) f p by blast
  then show ?thesis using i(1) p by (simp add: numeral_2_eq_2)
qed

section \<open>Slicing a batch\<close>

text \<open>
  An Arrow array as far as the pump looks at it.  A column has an offset and a length into buffers
  that slices share (\<open>col_values\<close>: the values of the whole buffer); the record batch has an offset of
  its own, which the C data interface adds to that of its columns.
\<close>

record 'v arrow_col =
  col_offset :: nat
  col_length :: nat
  col_values :: "'v list"
  col_nested :: bool

record 'v arrow_batch =
  bat_offset :: nat
  bat_length :: nat
  bat_children :: "'v arrow_col list"
  bat_validity :: bool
  bat_dictionary :: bool

text \<open>\<open>col_nested\<close>: the column has children or a dictionary.\<close>

definition BatchIsFlat :: "'v arrow_batch \<Rightarrow> bool" where
  "BatchIsFlat a \<longleftrightarrow> \<not> bat_dictionary a \<and> \<not> bat_validity a \<and> list_all (\<lambda>c. \<not> col_nested c) (bat_children a)"

definition SliceMake :: "'v arrow_batch \<Rightarrow> nat \<Rightarrow> nat \<Rightarrow> 'v arrow_batch" where
  "SliceMake src off len =
     src\<lparr>bat_offset := 0, bat_length := len,
         bat_children := map (\<lambda>c. c\<lparr>col_offset := col_offset c + bat_offset src + off, col_length := len\<rparr>) (bat_children src)\<rparr>"

definition ADBC_ODBC_INGEST_SLICE_ROWS :: nat where "ADBC_ODBC_INGEST_SLICE_ROWS = 16384"

text \<open>The loop that cuts \<open>[off, length)\<close>: the slices in the order they are pushed.\<close>

function SliceBounds :: "nat \<Rightarrow> nat \<Rightarrow> (nat \<times> nat) list" where
  "SliceBounds n off =
     (if off < n then
        (let len = min (n - off) ADBC_ODBC_INGEST_SLICE_ROWS in (off, len) # SliceBounds n (off + len))
      else [])"
  by pat_completeness auto
termination by (relation "measure (\<lambda>(n, off). n - off)") (auto simp: ADBC_ODBC_INGEST_SLICE_ROWS_def)

declare SliceBounds.simps [simp del]

definition PumpBatch :: "'v arrow_batch \<Rightarrow> 'v arrow_batch list" where
  "PumpBatch batch =
     (if bat_length batch \<le> ADBC_ODBC_INGEST_SLICE_ROWS \<or> \<not> BatchIsFlat batch then [batch]
      else map (\<lambda>(off, len). SliceMake batch off len) (SliceBounds (bat_length batch) 0))"

text \<open>
  What a worker inserts for a batch: it indexes each column's view by row number, from the column's
  own offset.  And what the batch means, by the C data interface.
\<close>

definition rows_read :: "'v arrow_batch \<Rightarrow> 'v list list" where
  "rows_read b = map (\<lambda>r. map (\<lambda>c. col_values c ! (col_offset c + r)) (bat_children b)) [0..<bat_length b]"

definition batch_rows :: "'v arrow_batch \<Rightarrow> 'v list list" where
  "batch_rows b = map (\<lambda>r. map (\<lambda>c. col_values c ! (col_offset c + bat_offset b + r)) (bat_children b)) [0..<bat_length b]"

lemma rows_read_slice:
  "rows_read (SliceMake b off len)
   = map (\<lambda>r. map (\<lambda>c. col_values c ! (col_offset c + bat_offset b + r)) (bat_children b)) [off..<off + len]"
proof -
  have "[off..<off + len] = map (\<lambda>i. i + off) [0..<len]" by (simp add: map_add_upt add.commute)
  then show ?thesis by (simp add: rows_read_def SliceMake_def comp_def ac_simps)
qed

lemma SliceBounds_cover:
  "off \<le> n \<Longrightarrow> concat (map (\<lambda>(o', l). [o'..<o' + l]) (SliceBounds n off)) = [off..<n]"
proof (induction n off rule: SliceBounds.induct)
  case (1 n off)
  show ?case
  proof (cases "off < n")
    case True
    let ?l = "min (n - off) ADBC_ODBC_INGEST_SLICE_ROWS"
    have "concat (map (\<lambda>(o', l). [o'..<o' + l]) (SliceBounds n (off + ?l))) = [off + ?l..<n]"
      using 1 True by simp
    moreover have "[off..<n] = [off..<off + ?l] @ [off + ?l..<n]"
      using upt_add_eq_append [of off "off + ?l" "n - (off + ?l)"] True by simp
    ultimately show ?thesis using True by (subst SliceBounds.simps) (simp add: Let_def)
  next
    case False
    then show ?thesis by (subst SliceBounds.simps) simp
  qed
qed

text \<open>
  Cutting a batch loses and reorders nothing: the rows the workers insert for the slices of a
  large flat batch, in the order they are pushed, are exactly the rows of the batch, and every slice
  has between 1 and 16384 rows.  A batch that is queued whole is read correctly if its own offset is
  zero.
\<close>

theorem PumpBatch_rows:
  assumes "bat_offset b = 0 \<or> (BatchIsFlat b \<and> ADBC_ODBC_INGEST_SLICE_ROWS < bat_length b)"
  shows "concat (map rows_read (PumpBatch b)) = batch_rows b
       \<and> (BatchIsFlat b \<longrightarrow> (\<forall>s \<in> set (PumpBatch b). bat_length s \<le> ADBC_ODBC_INGEST_SLICE_ROWS))"
proof (cases "bat_length b \<le> ADBC_ODBC_INGEST_SLICE_ROWS \<or> \<not> BatchIsFlat b")
  case True
  then show ?thesis using assms by (auto simp: PumpBatch_def rows_read_def batch_rows_def)
next
  case False
  let ?row = "\<lambda>r. map (\<lambda>c. col_values c ! (col_offset c + bat_offset b + r)) (bat_children b)"
  have p: "PumpBatch b = map (\<lambda>(off, len). SliceMake b off len) (SliceBounds (bat_length b) 0)"
    using False by (simp add: PumpBatch_def)
  have "concat (map rows_read (PumpBatch b)) = map ?row (concat (map (\<lambda>(o', l). [o'..<o' + l]) (SliceBounds (bat_length b) 0)))"
    unfolding p map_concat map_map by (intro arg_cong [of _ _ concat] map_cong) (auto simp: rows_read_slice)
  then have rows: "concat (map rows_read (PumpBatch b)) = batch_rows b"
    by (simp add: SliceBounds_cover batch_rows_def)
  have "l \<le> ADBC_ODBC_INGEST_SLICE_ROWS" if "(o', l) \<in> set (SliceBounds t off)" for o' l t off
    using that
  proof (induction t off rule: SliceBounds.induct)
    case (1 n off)
    from "1.prems" show ?case
      by (subst (asm) SliceBounds.simps) (auto simp: Let_def split: if_splits dest: "1.IH" [rotated 2])
  qed
  then show ?thesis using rows unfolding p by (auto simp: SliceMake_def)
qed

definition demo_batch :: "nat \<Rightarrow> nat arrow_batch" where
  "demo_batch off = \<lparr>bat_offset = off, bat_length = 2,
     bat_children = [\<lparr>col_offset = 1, col_length = 3, col_values = [10, 11, 12, 13, 14], col_nested = False\<rparr>],
     bat_validity = False, bat_dictionary = False\<rparr>"

theorem PumpBatch_rows_witness:
  "concat (map rows_read (PumpBatch (demo_batch 0))) = batch_rows (demo_batch 0) \<and> batch_rows (demo_batch 0) = [[11], [12]]"
proof -
  have "batch_rows (demo_batch 0) = [[11], [12]]" by code_simp
  moreover have "bat_offset (demo_batch 0) = 0" by (simp add: demo_batch_def)
  ultimately show ?thesis using PumpBatch_rows [of "demo_batch 0"] by blast
qed

text \<open>
  A defect: a batch of at most 16384 rows whose record batch carries an offset of its own, which
  the C data interface allows, is read from the wrong rows, although the same batch cut into slices
  would be read correctly.
\<close>

theorem PumpBatch_offset_ignored:
  "batch_rows (demo_batch 1) = [[12], [13]]
   \<and> concat (map rows_read (PumpBatch (demo_batch 1))) = [[11], [12]]
   \<and> rows_read (SliceMake (demo_batch 1) 0 2) = [[12], [13]]"
  by code_simp

section \<open>The pump and its workers\<close>

text \<open>
  \<open>IngestParallel\<close> as an interleaved system.  The pump is the caller's thread: it pushes the pieces of
  the stream in order until the stream ends, the stream fails, an allocation fails or a push is
  refused, then finishes the queue.  Each of the \<open>n\<close> workers pops until the queue says it has ended
  (then it commits its share) or has failed (then it rolls back and reports a collateral failure); a
  worker may fail on its own at any point, and trips the queue.
\<close>

datatype pump_phase = Pumping | Draining | Finished

datatype worker_state = Running | Committed | RolledBack bool

record 'a ingest =
  i_rest :: "'a list"
  i_pushed :: "'a list"
  i_phase :: pump_phase
  i_status :: status
  i_oom :: bool
  i_queue :: "'a IngestQueue"
  i_worker :: "nat \<Rightarrow> worker_state"
  i_got :: "nat \<Rightarrow> 'a list"

definition ingest_start :: "nat \<Rightarrow> 'a list \<Rightarrow> 'a ingest" where
  "ingest_start n stream =
     \<lparr>i_rest = stream, i_pushed = [], i_phase = Pumping, i_status = ADBC_STATUS_OK, i_oom = False,
      i_queue = QueueInit (n * 2 + 2), i_worker = (\<lambda>_. Running), i_got = (\<lambda>_. [])\<rparr>"

inductive run_step :: "nat \<Rightarrow> 'a ingest \<Rightarrow> 'a ingest \<Rightarrow> bool" for n where
  pump_push: "\<lbrakk>i_phase s = Pumping; i_rest s = a # as; QueuePush (i_queue s) a = Some (True, q)\<rbrakk>
    \<Longrightarrow> run_step n s (s\<lparr>i_rest := as, i_pushed := i_pushed s @ [a], i_queue := q\<rparr>)"
| pump_refused: "\<lbrakk>i_phase s = Pumping; i_rest s = a # as; QueuePush (i_queue s) a = Some (False, q)\<rbrakk>
    \<Longrightarrow> run_step n s (s\<lparr>i_phase := Draining, i_queue := q\<rparr>)"
| pump_end: "\<lbrakk>i_phase s = Pumping; i_rest s = []\<rbrakk> \<Longrightarrow> run_step n s (s\<lparr>i_phase := Draining\<rparr>)"
| pump_finish: "i_phase s = Draining \<Longrightarrow> run_step n s (s\<lparr>i_phase := Finished, i_queue := QueueFinish (i_queue s)\<rparr>)"
| worker_pop: "\<lbrakk>w < n; i_worker s w = Running; QueuePop (i_queue s) = Some (INGEST_POP_OK a, q)\<rbrakk>
    \<Longrightarrow> run_step n s (s\<lparr>i_queue := q, i_got := (i_got s)(w := i_got s w @ [a])\<rparr>)"
| worker_end: "\<lbrakk>w < n; i_worker s w = Running; QueuePop (i_queue s) = Some (INGEST_POP_END, q)\<rbrakk>
    \<Longrightarrow> run_step n s (s\<lparr>i_queue := q, i_worker := (i_worker s)(w := Committed)\<rparr>)"
| worker_collateral: "\<lbrakk>w < n; i_worker s w = Running; QueuePop (i_queue s) = Some (INGEST_POP_FAILED, q)\<rbrakk>
    \<Longrightarrow> run_step n s (s\<lparr>i_queue := QueueFail q, i_worker := (i_worker s)(w := RolledBack True)\<rparr>)"

inductive fault_step :: "nat \<Rightarrow> 'a ingest \<Rightarrow> 'a ingest \<Rightarrow> bool" for n where
  worker_fails: "\<lbrakk>w < n; i_worker s w = Running\<rbrakk>
    \<Longrightarrow> fault_step n s (s\<lparr>i_queue := QueueFail (i_queue s), i_worker := (i_worker s)(w := RolledBack False)\<rparr>)"
| stream_fails: "i_phase s = Pumping
    \<Longrightarrow> fault_step n s (s\<lparr>i_phase := Draining, i_status := ADBC_STATUS_INVALID_ARGUMENT, i_queue := QueueFail (i_queue s)\<rparr>)"
| pump_out_of_memory: "i_phase s = Pumping \<Longrightarrow> fault_step n s (s\<lparr>i_phase := Draining, i_oom := True\<rparr>)"

inductive_cases run_stepE: "run_step n s s'"
inductive_cases fault_stepE: "fault_step n s s'"

inductive ingest_reach :: "nat \<Rightarrow> 'a list \<Rightarrow> 'a ingest \<Rightarrow> bool" for n stream where
  start: "ingest_reach n stream (ingest_start n stream)"
| run: "ingest_reach n stream s \<Longrightarrow> run_step n s s' \<Longrightarrow> ingest_reach n stream s'"
| fault: "ingest_reach n stream s \<Longrightarrow> fault_step n s s' \<Longrightarrow> ingest_reach n stream s'"

definition ingest_final :: "nat \<Rightarrow> 'a ingest \<Rightarrow> bool" where
  "ingest_final n s \<longleftrightarrow> i_phase s = Finished \<and> (\<forall>w<n. i_worker s w \<noteq> Running)"

text \<open>
  The worker whose failure the caller is told about, from each worker's status and collateral flag;
  \<open>-1\<close> when there is none.
\<close>

fun IngestBlame :: "nat \<Rightarrow> (bool \<times> bool) list \<Rightarrow> (int \<times> bool) \<Rightarrow> int \<times> bool" where
  "IngestBlame i [] blame = blame"
| "IngestBlame i ((ok, collateral) # ws) blame =
     IngestBlame (i + 1) ws
       (if ok then blame
        else if fst blame < 0 \<or> (snd blame \<and> \<not> collateral) then (int i, collateral)
        else blame)"

definition worker_outcome :: "worker_state \<Rightarrow> bool \<times> bool" where
  "worker_outcome w = (w = Committed, w = RolledBack True)"

definition ingest_ok :: "nat \<Rightarrow> 'a ingest \<Rightarrow> bool" where
  "ingest_ok n s \<longleftrightarrow> i_status s = ADBC_STATUS_OK
     \<and> fst (IngestBlame 0 (map (\<lambda>w. worker_outcome (i_worker s w)) [0..<n]) (- 1, False)) < 0"

subsection \<open>Safety\<close>

definition ingest_inv :: "nat \<Rightarrow> 'a list \<Rightarrow> 'a ingest \<Rightarrow> bool" where
  "ingest_inv n stream s \<longleftrightarrow>
     queue_inv (i_queue s)
   \<and> i_pushed s @ i_rest s = stream
   \<and> (\<exists>popped. i_pushed s = popped @ queue_items (i_queue s)
        \<and> mset popped = (\<Sum>w<n. mset (i_got s w)) \<and> (\<forall>w<n. subseq (i_got s w) popped))
   \<and> q_done (i_queue s) = (i_phase s = Finished)
   \<and> (\<forall>w<n. i_worker s w = Committed \<longrightarrow> i_phase s = Finished \<and> queue_items (i_queue s) = [])
   \<and> (q_failed (i_queue s) = ((\<exists>w<n. \<exists>c. i_worker s w = RolledBack c) \<or> i_status s \<noteq> ADBC_STATUS_OK))
   \<and> (i_phase s \<noteq> Pumping \<longrightarrow> i_rest s = [] \<or> q_failed (i_queue s) \<or> i_oom s)"

lemma subseq_snoc: "subseq xs ys \<Longrightarrow> subseq (xs @ [a]) (ys @ [a])"
  by (simp add: subseq_append')

lemma subseq_right: "subseq xs ys \<Longrightarrow> subseq xs (ys @ zs)"
  by (metis append.right_neutral list_emb_append_mono list_emb_Nil)

lemma queue_flags:
  "queue_inv (QueueFinish q) = queue_inv q" "queue_items (QueueFinish q) = queue_items q"
  "queue_inv (QueueFail q) = queue_inv q" "queue_items (QueueFail q) = queue_items q"
  by (auto simp: QueueFinish_def QueueFail_def queue_inv_def queue_items_def)

lemma ingest_inv_start: "ingest_inv n stream (ingest_start n stream)"
proof -
  have "queue_inv (QueueInit (n * 2 + 2) :: 'a IngestQueue) \<and> queue_items (QueueInit (n * 2 + 2) :: 'a IngestQueue) = []"
    by (rule queue_inv_init) simp
  then show ?thesis by (simp add: ingest_inv_def ingest_start_def) (simp add: QueueInit_def)
qed

lemma got_update:
  fixes f :: "nat \<Rightarrow> 'a list"
  assumes "w < n"
  shows "(\<Sum>v<n. mset ((f(w := f w @ [a])) v)) = (\<Sum>v<n. mset (f v)) + {#a#}"
proof -
  have r: "(\<Sum>v<n. mset (g v)) = mset (g w) + (\<Sum>v \<in> {..<n} - {w}. mset (g v))" for g :: "nat \<Rightarrow> 'a list"
    using assms by (intro sum.remove) auto
  have "(\<Sum>v \<in> {..<n} - {w}. mset ((f(w := f w @ [a])) v)) = (\<Sum>v \<in> {..<n} - {w}. mset (f v))"
    by (intro sum.cong) auto
  then show ?thesis using r [of f] r [of "f(w := f w @ [a])"] by simp
qed

lemma ingest_invE:
  assumes "ingest_inv n stream s"
  obtains popped where "queue_inv (i_queue s)" "i_pushed s @ i_rest s = stream"
    "i_pushed s = popped @ queue_items (i_queue s)" "mset popped = (\<Sum>w<n. mset (i_got s w))"
    "\<forall>w<n. subseq (i_got s w) popped"
    "q_done (i_queue s) = (i_phase s = Finished)"
    "\<forall>w<n. i_worker s w = Committed \<longrightarrow> i_phase s = Finished \<and> queue_items (i_queue s) = []"
    "q_failed (i_queue s) = ((\<exists>w<n. \<exists>c. i_worker s w = RolledBack c) \<or> i_status s \<noteq> ADBC_STATUS_OK)"
    "i_phase s \<noteq> Pumping \<longrightarrow> i_rest s = [] \<or> q_failed (i_queue s) \<or> i_oom s"
  using assms unfolding ingest_inv_def by blast

lemma ingest_inv_run:
  assumes "ingest_inv n stream s" "run_step n s s'"
  shows "ingest_inv n stream s'"
proof -
  obtain popped where I: "queue_inv (i_queue s)" "i_pushed s @ i_rest s = stream"
    "i_pushed s = popped @ queue_items (i_queue s)" "mset popped = (\<Sum>w<n. mset (i_got s w))"
    "\<forall>w<n. subseq (i_got s w) popped"
    "q_done (i_queue s) = (i_phase s = Finished)"
    "\<forall>w<n. i_worker s w = Committed \<longrightarrow> i_phase s = Finished \<and> queue_items (i_queue s) = []"
    "q_failed (i_queue s) = ((\<exists>w<n. \<exists>c. i_worker s w = RolledBack c) \<or> i_status s \<noteq> ADBC_STATUS_OK)"
    "i_phase s \<noteq> Pumping \<longrightarrow> i_rest s = [] \<or> q_failed (i_queue s) \<or> i_oom s"
    using assms(1) by (rule ingest_invE)
  from assms(2) show ?thesis
  proof cases
    case (pump_push a as q)
    note st = QueuePush_stores [OF I(1) pump_push(4)]
    have "\<forall>v<n. i_worker s v \<noteq> Committed" using I(7) pump_push(2) by auto
    then show ?thesis unfolding ingest_inv_def pump_push(1)
      using I(2-6,8,9) pump_push(2,3) st by (intro conjI exI [of _ popped]) simp_all
  next
    case (pump_refused a as q)
    note r = QueuePush_rejected [OF pump_refused(4)]
    have "\<forall>v<n. i_worker s v \<noteq> Committed" using I(7) pump_refused(2) by auto
    then show ?thesis unfolding ingest_inv_def pump_refused(1)
      using I(1-6,8) pump_refused(2) r by (intro conjI exI [of _ popped]) simp_all
  next
    case pump_end
    have "\<forall>v<n. i_worker s v \<noteq> Committed" using I(7) pump_end(2) by auto
    then show ?thesis unfolding ingest_inv_def pump_end(1)
      using I(1-6,8) pump_end(2,3) by (intro conjI exI [of _ popped]) simp_all
  next
    case pump_finish
    have fl: "q_done (QueueFinish (i_queue s))" "q_failed (QueueFinish (i_queue s)) = q_failed (i_queue s)"
      by (simp_all add: QueueFinish_def)
    have "\<forall>v<n. i_worker s v \<noteq> Committed" using I(7) pump_finish(2) by auto
    then show ?thesis unfolding ingest_inv_def pump_finish(1)
      using I(1-5,8,9) pump_finish(2) fl by (intro conjI exI [of _ popped]) (simp_all add: queue_flags)
  next
    case (worker_pop w a q)
    note st = QueuePop_takes [OF I(1) worker_pop(4)]
    have "subseq (((i_got s)(w := i_got s w @ [a])) v) (popped @ [a])" if "v < n" for v
      using I(5) that by (auto intro: subseq_snoc subseq_right)
    moreover have "mset (popped @ [a]) = (\<Sum>v<n. mset (((i_got s)(w := i_got s w @ [a])) v))"
      unfolding got_update [OF worker_pop(2)] using I(4) by simp
    moreover have "\<forall>v<n. i_worker s v \<noteq> Committed" using I(7) st by auto
    moreover have "i_pushed s = (popped @ [a]) @ queue_items q" using I(3) st by simp
    ultimately show ?thesis unfolding ingest_inv_def worker_pop(1)
      using I(2,6,8,9) st by (intro conjI exI [of _ "popped @ [a]"]) simp_all
  next
    case (worker_end w q)
    note e = QueuePop_end(1) [OF worker_end(4) refl]
    have "i_phase s = Finished" using e I(6) by simp
    moreover have "(\<exists>v<n. \<exists>c. ((i_worker s)(w := Committed)) v = RolledBack c) = (\<exists>v<n. \<exists>c. i_worker s v = RolledBack c)"
      using worker_end(3) by (metis fun_upd_apply worker_state.distinct(3,5))
    ultimately show ?thesis unfolding ingest_inv_def worker_end(1)
      using I(1-6,8,9) e by (intro conjI exI [of _ popped]) simp_all
  next
    case (worker_collateral w q)
    note e = QueuePop_end(2) [OF worker_collateral(4) refl]
    have fl: "q_failed (QueueFail q)" "q_done (QueueFail q) = q_done q" by (simp_all add: QueueFail_def)
    have "\<exists>v<n. \<exists>c. ((i_worker s)(w := RolledBack True)) v = RolledBack c" using worker_collateral(2) by auto
    moreover have "\<forall>v<n. ((i_worker s)(w := RolledBack True)) v = Committed \<longrightarrow> i_phase s = Finished \<and> queue_items (i_queue s) = []"
      using I(7) by simp
    moreover have "q = i_queue s" using e by simp
    ultimately show ?thesis unfolding ingest_inv_def worker_collateral(1)
      using I(1-6) fl by (intro conjI exI [of _ popped]) (simp_all add: queue_flags del: fun_upd_apply)
  qed
qed

lemma ingest_inv_fault:
  assumes "ingest_inv n stream s" "fault_step n s s'"
  shows "ingest_inv n stream s'"
proof -
  obtain popped where I: "queue_inv (i_queue s)" "i_pushed s @ i_rest s = stream"
    "i_pushed s = popped @ queue_items (i_queue s)" "mset popped = (\<Sum>w<n. mset (i_got s w))"
    "\<forall>w<n. subseq (i_got s w) popped"
    "q_done (i_queue s) = (i_phase s = Finished)"
    "\<forall>w<n. i_worker s w = Committed \<longrightarrow> i_phase s = Finished \<and> queue_items (i_queue s) = []"
    "q_failed (i_queue s) = ((\<exists>w<n. \<exists>c. i_worker s w = RolledBack c) \<or> i_status s \<noteq> ADBC_STATUS_OK)"
    "i_phase s \<noteq> Pumping \<longrightarrow> i_rest s = [] \<or> q_failed (i_queue s) \<or> i_oom s"
    using assms(1) by (rule ingest_invE)
  have fl: "q_failed (QueueFail (i_queue s))" "q_done (QueueFail (i_queue s)) = q_done (i_queue s)"
    by (simp_all add: QueueFail_def)
  from assms(2) show ?thesis
    by cases (use I fl in \<open>(simp only: ingest_inv_def, intro conjI exI [of _ popped]; auto simp: queue_flags)\<close>)+
qed

lemma ingest_inv_reach: "ingest_reach n stream s \<Longrightarrow> ingest_inv n stream s"
  by (induction rule: ingest_reach.induct) (auto intro: ingest_inv_start ingest_inv_run ingest_inv_fault)

text \<open>The blamed worker: the first one that failed by itself, else the first that failed at all.\<close>

lemma IngestBlame_none:
  "fst b < 0 \<Longrightarrow> (fst (IngestBlame i ws b) < 0) = list_all fst ws"
proof (induction i ws b rule: IngestBlame.induct)
  case (2 i ok c ws b)
  have keep: "0 \<le> fst b \<Longrightarrow> 0 \<le> fst (IngestBlame i ws b)" for i ws b
    by (induction i ws b rule: IngestBlame.induct) auto
  show ?case using 2 keep [of "(int i, c)" "i + 1" ws] by auto
qed simp

lemma ingest_ok_iff:
  "ingest_ok n s = (i_status s = ADBC_STATUS_OK \<and> (\<forall>w<n. i_worker s w = Committed))"
  by (auto simp: ingest_ok_def IngestBlame_none list_all_iff worker_outcome_def)


subsection \<open>Termination\<close>

text \<open>Every step other than a fault brings the system closer to its end.\<close>

definition ingest_left :: "nat \<Rightarrow> 'a ingest \<Rightarrow> nat" where
  "ingest_left n s =
     2 * length (i_rest s) + q_count (i_queue s) + card {w. w < n \<and> i_worker s w = Running}
     + (case i_phase s of Pumping \<Rightarrow> 2 | Draining \<Rightarrow> 1 | Finished \<Rightarrow> 0)"

lemma running_less:
  fixes n w :: nat
  assumes "w < n" "f w = Running" "x \<noteq> Running"
  shows "card {v. v < n \<and> (f(w := x)) v = Running} < card {v. v < n \<and> f v = Running}"
proof (rule psubset_card_mono)
  show "finite {v. v < n \<and> f v = Running}" by simp
  show "{v. v < n \<and> (f(w := x)) v = Running} \<subset> {v. v < n \<and> f v = Running}" using assms by auto
qed

lemma run_step_less:
  assumes "ingest_inv n stream s" "run_step n s s'"
  shows "ingest_left n s' < ingest_left n s"
  using assms(2)
proof cases
  case (pump_push a as q)
  have "queue_inv (i_queue s)" using assms(1) by (simp add: ingest_inv_def)
  from arg_cong [of _ _ length, OF conjunct1 [OF conjunct2 [OF QueuePush_stores [OF this pump_push(4)]]]]
  have "q_count q = q_count (i_queue s) + 1" by simp
  then show ?thesis using pump_push by (simp add: ingest_left_def)
next
  case (worker_pop w a q)
  have "queue_inv (i_queue s)" using assms(1) by (simp add: ingest_inv_def)
  from arg_cong [of _ _ length, OF conjunct1 [OF conjunct2 [OF QueuePop_takes [OF this worker_pop(4)]]]]
  have "q_count (i_queue s) = q_count q + 1" by simp
  then show ?thesis using worker_pop by (simp add: ingest_left_def)
next
  case (worker_end w q)
  then show ?thesis using running_less [of w n "i_worker s" Committed] QueuePop_end(1) [OF worker_end(4)]
    by (simp add: ingest_left_def)
next
  case (worker_collateral w q)
  then show ?thesis using running_less [of w n "i_worker s" "RolledBack True"] QueuePop_end(2) [OF worker_collateral(4)]
    by (simp add: ingest_left_def QueueFail_def)
next
  case (pump_refused a as q)
  then show ?thesis using QueuePush_rejected [OF pump_refused(4)] by (simp add: ingest_left_def)
qed (simp_all add: ingest_left_def QueueFinish_def)

lemma ingest_progress:
  assumes "ingest_inv n stream s" "0 < n" "\<not> ingest_final n s"
  shows "\<exists>s'. run_step n s s'"
proof -
  have q: "queue_inv (i_queue s)" and d: "q_done (i_queue s) = (i_phase s = Finished)"
    and c: "\<And>w. w < n \<Longrightarrow> i_worker s w = Committed \<Longrightarrow> i_phase s = Finished"
    and f: "\<And>w c. w < n \<Longrightarrow> i_worker s w = RolledBack c \<Longrightarrow> q_failed (i_queue s)"
    using assms(1) unfolding ingest_inv_def by auto
  have pop: "\<exists>s'. run_step n s s'" if w: "w < n" "i_worker s w = Running" "QueuePop (i_queue s) \<noteq> None" for w
  proof -
    obtain r q' where "QueuePop (i_queue s) = Some (r, q')" using w(3) by auto
    with w(1,2) show ?thesis by (cases r) (blast intro: worker_pop worker_end worker_collateral)+
  qed
  show ?thesis
  proof (cases "i_phase s")
    case Pumping
    show ?thesis
    proof (cases "i_rest s")
      case Nil
      with Pumping show ?thesis by (blast intro: pump_end)
    next
      case (Cons a as)
      show ?thesis
      proof (cases "QueuePush (i_queue s) a")
        case None
        then have full: "q_count (i_queue s) = q_cap (i_queue s)" "\<not> q_failed (i_queue s)"
          using QueuePush_none [OF q] by auto
        then have "QueuePop (i_queue s) \<noteq> None" using QueuePop_none [OF q] q by (auto simp: queue_inv_def queue_items_def)
        moreover have "i_worker s 0 = Running"
          using c [of 0] f [of 0] full(2) Pumping assms(2) by (cases "i_worker s 0") auto
        ultimately show ?thesis using pop assms(2) by blast
      next
        case (Some r)
        then show ?thesis using Pumping Cons by (cases r; cases "fst r") (force intro: pump_push pump_refused)+
      qed
    qed
  next
    case Draining
    then show ?thesis by (blast intro: pump_finish)
  next
    case Finished
    then obtain w where "w < n" "i_worker s w = Running" using assms(3) by (auto simp: ingest_final_def)
    moreover have "QueuePop (i_queue s) \<noteq> None" using QueuePop_none [OF q] d Finished by simp
    ultimately show ?thesis using pop by blast
  qed
qed

text \<open>
  C21. Parallel ingest cannot hang.  From every reachable state that is not final some thread can take
  a step, whatever has failed so far, and every such step decreases a measure: however the threads
  are scheduled, after at most that many steps the queue is finished and every worker has committed
  or rolled back, and the pump never waits on a queue nobody reads.
\<close>

theorem parallel_ingest_terminates:
  assumes "ingest_reach n stream s" "0 < n"
  shows "(\<not> ingest_final n s \<longrightarrow> (\<exists>s'. run_step n s s'))
       \<and> (\<forall>s'. run_step n s s' \<longrightarrow> ingest_left n s' < ingest_left n s)
       \<and> (\<exists>s'. (run_step n)\<^sup>*\<^sup>* s s' \<and> ingest_final n s')"
proof -
  have end': "\<exists>s'. (run_step n)\<^sup>*\<^sup>* s s' \<and> ingest_final n s'" if "ingest_inv n stream s" for s
    using that
  proof (induction "ingest_left n s" arbitrary: s rule: less_induct)
    case less
    show ?case
    proof (cases "ingest_final n s")
      case False
      then obtain s1 where s1: "run_step n s s1" using ingest_progress [OF less.prems assms(2)] by blast
      from less.hyps [OF run_step_less [OF less.prems s1] ingest_inv_run [OF less.prems s1]]
      show ?thesis using s1 by (meson converse_rtranclp_into_rtranclp)
    qed blast
  qed
  note I = ingest_inv_reach [OF assms(1)]
  show ?thesis using ingest_progress [OF I assms(2)] run_step_less [OF I] end' [OF I] by blast
qed

subsection \<open>Concrete runs\<close>

definition demo_end :: "bool \<Rightarrow> nat ingest" where
  "demo_end oom =
     \<lparr>i_rest = (if oom then [8] else []), i_pushed = [7], i_phase = Finished, i_status = ADBC_STATUS_OK, i_oom = oom,
      i_queue = \<lparr>q_slots = replicate 4 None, q_cap = 4, q_head = 1, q_count = 0, q_done = True, q_failed = False\<rparr>,
      i_worker = (\<lambda>_. Running)(0 := Committed), i_got = (\<lambda>_. [])(0 := [7])\<rparr>"

lemma demo_reach: "ingest_reach 1 (7 # (if oom then [8] else [])) (demo_end oom)"
proof -
  let ?st = "7 # (if oom then [8] else []) :: nat list"
  let ?q = "\<lambda>sl h c d. \<lparr>q_slots = sl, q_cap = 4, q_head = h, q_count = c, q_done = d, q_failed = False\<rparr>"
  let ?s = "\<lambda>rest pushed ph om q w g. \<lparr>i_rest = rest, i_pushed = pushed, i_phase = ph, i_status = ADBC_STATUS_OK,
     i_oom = om, i_queue = q, i_worker = w, i_got = g\<rparr>"
  let ?r = "if oom then [8 :: nat] else []"
  let ?N = "None :: nat option"
  have u: "replicate 4 ?N = [None, None, None, None]" by (simp add: eval_nat_numeral)
  have "ingest_reach 1 ?st (?s ?st [] Pumping False (?q [None, None, None, None] 0 0 False) (\<lambda>_. Running) (\<lambda>_. []))"
    using ingest_reach.start [of 1 ?st] by (simp add: ingest_start_def QueueInit_def u)
  from ingest_reach.run [OF this pump_push [where a = 7 and as = ?r]]
  have "ingest_reach 1 ?st (?s ?r [7] Pumping False (?q [Some 7, None, None, None] 0 1 False) (\<lambda>_. Running) (\<lambda>_. []))"
    by (simp add: QueuePush_def)
  from ingest_reach.run [OF this worker_pop [where w = 0 and a = 7]]
  have p: "ingest_reach 1 ?st (?s ?r [7] Pumping False (?q [None, None, None, None] 1 0 False) (\<lambda>_. Running) ((\<lambda>_. [])(0 := [7])))"
    by (simp add: QueuePop_def)
  have "ingest_reach 1 ?st (?s ?r [7] Draining oom (?q [None, None, None, None] 1 0 False) (\<lambda>_. Running) ((\<lambda>_. [])(0 := [7])))"
    using ingest_reach.run [OF p pump_end] ingest_reach.fault [OF p pump_out_of_memory] by (cases oom) simp_all
  from ingest_reach.run [OF this pump_finish]
  have "ingest_reach 1 ?st (?s ?r [7] Finished oom (?q [None, None, None, None] 1 0 True) (\<lambda>_. Running) ((\<lambda>_. [])(0 := [7])))"
    by (simp add: QueueFinish_def)
  from ingest_reach.run [OF this worker_end [where w = 0]] show ?thesis
    by (simp add: QueuePop_def demo_end_def u)
qed

lemma demo_final: "ingest_final 1 (demo_end oom)" "ingest_ok 1 (demo_end oom)"
  by (simp_all add: ingest_final_def ingest_ok_iff demo_end_def)


theorem parallel_ingest_terminates_witness:
  "\<exists>s'. (run_step 1)\<^sup>*\<^sup>* (ingest_start 1 [7, 8 :: nat]) s' \<and> ingest_final 1 s'"
  using parallel_ingest_terminates [OF ingest_reach.start [of 1 "[7, 8 :: nat]"]] by simp

text \<open>
  A defect: an allocation failure in the pump ends the pump without tripping the queue, so the
  call can report success with the rest of the stream lost.
\<close>

theorem parallel_ingest_oom_loses_rows:
  "\<exists>s. ingest_reach 1 [7, 8 :: nat] s \<and> ingest_final 1 s \<and> ingest_ok 1 s \<and> (\<Sum>w<1. mset (i_got s w)) = mset [7]"
proof -
  have "ingest_reach 1 [7, 8 :: nat] (demo_end True)" using demo_reach [of True] by simp
  moreover have "(\<Sum>w<1. mset (i_got (demo_end True) w)) = mset [7]" by (simp add: demo_end_def)
  ultimately show ?thesis using demo_final [of True] by blast
qed

end
