(* ===== verification/Memory.thy ===== *)
theory Memory
  imports Prelude
begin

text \<open>
  Byte memory: the buffers an ODBC driver fills and the Arrow buffers the reader builds are lists
  of bytes, read and written little-endian at an offset.  The accessors of
  \<^verbatim>\<open>src/odbc_internal.h\<close> for the indicator arrays of a driver whose \<^verbatim>\<open>SQLLEN\<close> has 32 or 64 bits
  are modelled on it.
\<close>

named_theorems mem_simps \<open>reading byte memory after writing it\<close>

type_synonym mem = "nat list"

definition bytes_ok :: "mem \<Rightarrow> bool" where
  "bytes_ok m \<longleftrightarrow> (\<forall>b \<in> set m. b < 256)"

fun le_nat :: "mem \<Rightarrow> nat" where
  "le_nat [] = 0"
| "le_nat (b # bs) = b + 256 * le_nat bs"

fun to_le :: "nat \<Rightarrow> nat \<Rightarrow> mem" where
  "to_le 0 x = []"
| "to_le (Suc w) x = (x mod 256) # to_le w (x div 256)"

definition mem_slice :: "nat \<Rightarrow> nat \<Rightarrow> mem \<Rightarrow> mem" where
  "mem_slice off w m = take w (drop off m)"

definition mem_write :: "nat \<Rightarrow> mem \<Rightarrow> mem \<Rightarrow> mem" where
  "mem_write off bs m = take off m @ bs @ drop (off + length bs) m"

definition read_unsigned :: "nat \<Rightarrow> mem \<Rightarrow> int" where
  "read_unsigned w m = int (le_nat (take w m))"

definition read_signed :: "nat \<Rightarrow> mem \<Rightarrow> int" where
  "read_signed w m = swrap (8 * w) (int (le_nat (take w m)))"

definition int_bytes :: "nat \<Rightarrow> int \<Rightarrow> mem" where
  "int_bytes w x = to_le w (nat (x mod 2 ^ (8 * w)))"

subsection \<open>Little-endian numbers\<close>

lemma bytes_ok_simps [simp]:
  "bytes_ok []" "bytes_ok (b # m) \<longleftrightarrow> b < 256 \<and> bytes_ok m" "bytes_ok (m @ m') \<longleftrightarrow> bytes_ok m \<and> bytes_ok m'"
  by (auto simp: bytes_ok_def)

lemma bytes_ok_take [intro]: "bytes_ok m \<Longrightarrow> bytes_ok (take n m)"
  by (auto simp: bytes_ok_def dest: in_set_takeD)

lemma bytes_ok_drop [intro]: "bytes_ok m \<Longrightarrow> bytes_ok (drop n m)"
  by (auto simp: bytes_ok_def dest: in_set_dropD)

lemma bytes_ok_slice [intro]: "bytes_ok m \<Longrightarrow> bytes_ok (mem_slice off w m)"
  by (auto simp: mem_slice_def)

lemma length_to_le [simp]: "length (to_le w x) = w"
  by (induction w arbitrary: x) auto

lemma to_le_ok [simp]: "bytes_ok (to_le w x)"
  by (induction w arbitrary: x) auto

lemma le_nat_bound: "bytes_ok m \<Longrightarrow> le_nat m < 256 ^ length m"
  by (induction m) auto

lemma le_nat_to_le [simp]: "le_nat (to_le w x) = x mod 256 ^ w"
proof (induction w arbitrary: x)
  case (Suc w)
  then show ?case by (simp add: mod_mult2_eq)
qed simp

lemma to_le_le_nat [simp]: "bytes_ok m \<Longrightarrow> to_le (length m) (le_nat m) = m"
  by (induction m) auto

lemma length_int_bytes [simp]: "length (int_bytes w x) = w"
  by (simp add: int_bytes_def)

lemma pow_256: "(2::int) ^ (8 * w) = 256 ^ w"
  by (simp add: power_mult)

lemma int_bytes_ok [simp]: "bytes_ok (int_bytes w x)"
  by (simp add: int_bytes_def)

lemma int_bytes_le_nat: "bytes_ok m \<Longrightarrow> length m = w \<Longrightarrow> int_bytes w (int (le_nat m)) = m"
proof -
  assume m: "bytes_ok m" "length m = w"
  have "int (le_nat m) < int (256 ^ w)" using le_nat_bound [OF m(1)] m(2) by (simp only: of_nat_less_iff)
  then have "int (le_nat m) mod 256 ^ w = int (le_nat m)" by simp
  then show ?thesis using to_le_le_nat [OF m(1)] m(2) by (simp only: int_bytes_def pow_256 nat_int)
qed

lemma swrap_mod: "0 < w \<Longrightarrow> swrap w x mod 2 ^ w = x mod 2 ^ w"
  by (simp add: swrap_def mod_simps)

lemma int_bytes_mod: "x mod 2 ^ (8 * w) = y mod 2 ^ (8 * w) \<Longrightarrow> int_bytes w x = int_bytes w y"
  by (simp add: int_bytes_def)

text \<open>What is read as an integer of the same width is written back as the same bytes.\<close>

lemma int_bytes_read_unsigned: "bytes_ok m \<Longrightarrow> w \<le> length m \<Longrightarrow> int_bytes w (read_unsigned w m) = take w m"
  unfolding read_unsigned_def by (rule int_bytes_le_nat) auto

lemma int_bytes_read_signed: "bytes_ok m \<Longrightarrow> w \<le> length m \<Longrightarrow> int_bytes w (read_signed w m) = take w m"
proof (cases "w = 0")
  case False
  assume "bytes_ok m" "w \<le> length m"
  moreover have "int_bytes w (read_signed w m) = int_bytes w (int (le_nat (take w m)))"
    using False by (intro int_bytes_mod) (simp add: read_signed_def swrap_mod)
  ultimately show ?thesis by (simp add: int_bytes_le_nat bytes_ok_take)
qed (simp add: int_bytes_def)

lemma read_signed_int_bytes:
  "0 < w \<Longrightarrow> - (2 ^ (8 * w - 1)) \<le> x \<Longrightarrow> x < 2 ^ (8 * w - 1) \<Longrightarrow> read_signed w (int_bytes w x) = x"
proof -
  assume w: "0 < w" and x: "- (2 ^ (8 * w - 1)) \<le> x" "x < 2 ^ (8 * w - 1)"
  let ?N = "(2::int) ^ (8 * w)" and ?H = "(2::int) ^ (8 * w - 1)"
  have N: "?N = 2 * ?H" using w by (simp flip: power_Suc)
  have "le_nat (int_bytes w x) = nat (x mod ?N)"
    by (simp add: int_bytes_def nat_mod_distrib pow_256 nat_power_eq)
  then have "int (le_nat (int_bytes w x)) = x mod ?N" by simp
  then have "read_signed w (int_bytes w x) = (x + ?H) mod ?N - ?H"
    by (simp add: read_signed_def swrap_def mod_simps)
  also have "(x + ?H) mod ?N = x + ?H" using x N by (intro mod_pos_pos_trivial) auto
  finally show ?thesis by simp
qed

lemma read_signed_bounds: "0 < w \<Longrightarrow> - (2 ^ (8 * w - 1)) \<le> read_signed w m \<and> read_signed w m < 2 ^ (8 * w - 1)"
proof -
  assume w: "0 < w"
  let ?N = "(2::int) ^ (8 * w)" and ?H = "(2::int) ^ (8 * w - 1)"
  have N: "?N = 2 * ?H" using w by (simp flip: power_Suc)
  have "(y + ?H) mod ?N < ?N" "0 \<le> (y + ?H) mod ?N" for y :: int by simp_all
  then show ?thesis using N by (auto simp: read_signed_def swrap_def)
qed

lemma read_unsigned_bounds: "bytes_ok m \<Longrightarrow> 0 \<le> read_unsigned w m \<and> read_unsigned w m < 2 ^ (8 * w)"
proof -
  assume "bytes_ok m"
  then have "le_nat (take w m) < 256 ^ length (take w m)" by (intro le_nat_bound) auto
  also have "\<dots> \<le> (256::nat) ^ w" by (intro power_increasing) auto
  finally have "int (le_nat (take w m)) < int (256 ^ w)" by (simp only: of_nat_less_iff)
  then show ?thesis by (simp add: read_unsigned_def pow_256)
qed

subsection \<open>Slices\<close>

lemma length_mem_write [simp]: "off + length bs \<le> length m \<Longrightarrow> length (mem_write off bs m) = length m"
  by (simp add: mem_write_def)

lemma slice_write_same [mem_simps]:
  "off + length bs \<le> length m \<Longrightarrow> mem_slice off (length bs) (mem_write off bs m) = bs"
  by (simp add: mem_slice_def mem_write_def)

lemma slice_write_other [mem_simps]:
  assumes "off + length bs \<le> length m" "off' + w \<le> off \<or> off + length bs \<le> off'"
  shows "mem_slice off' w (mem_write off bs m) = mem_slice off' w m"
  using assms(2)
proof
  assume "off' + w \<le> off"
  then show ?thesis using assms(1) by (auto simp: mem_slice_def mem_write_def drop_take min_def)
next
  assume "off + length bs \<le> off'"
  then show ?thesis using assms(1) by (simp add: mem_slice_def mem_write_def)
qed

text \<open>Element \<open>k\<close> of an array of \<open>w\<close>-byte elements to which another one is appended.\<close>

lemma mem_slice_append [mem_simps]:
  assumes "length d = w * n"
  shows "k < n \<Longrightarrow> mem_slice (k * w) w (d @ b) = mem_slice (k * w) w d"
    and "mem_slice ((n + j) * w) w (d @ b) = mem_slice (j * w) w b"
proof -
  assume "k < n"
  then have "w * Suc k \<le> w * n" by (intro mult_le_mono2) simp
  then show "mem_slice (k * w) w (d @ b) = mem_slice (k * w) w d"
    using assms by (simp add: mem_slice_def algebra_simps)
next
  show "mem_slice ((n + j) * w) w (d @ b) = mem_slice (j * w) w b"
    using assms by (simp add: mem_slice_def algebra_simps)
qed

lemma mem_slice_take [mem_simps]: "k < n \<Longrightarrow> mem_slice (k * w) w (take (n * w) b) = mem_slice (k * w) w b"
proof -
  assume "k < n"
  then have "Suc k * w \<le> n * w" by (intro mult_le_mono1) simp
  then show ?thesis by (simp add: mem_slice_def take_drop min_def)
qed

subsection \<open>The indicator array (\<^verbatim>\<open>odbc_internal.h\<close>)\<close>

definition OdbcIndicatorGet :: "mem \<Rightarrow> nat \<Rightarrow> bool \<Rightarrow> int" where
  "OdbcIndicatorGet base row quirk =
     (if \<not> quirk then read_signed 8 (mem_slice (row * 8) 8 base)
      else read_signed 4 (mem_slice (row * 4) 4 base))"

definition OdbcIndicatorSet :: "mem \<Rightarrow> nat \<Rightarrow> int \<Rightarrow> bool \<Rightarrow> mem" where
  "OdbcIndicatorSet base row value quirk =
     (if \<not> quirk then mem_write (row * 8) (int_bytes 8 value) base
      else mem_write (row * 4) (int_bytes 4 value) base)"

lemma read_signed_self [simp]: "length m = w \<Longrightarrow> read_signed w (take w m) = read_signed w m"
  by (simp add: read_signed_def)

text \<open>
  An indicator array allocated for \<open>n\<close> rows of eight bytes serves both widths: an indicator
  written for a row is read back, sign and all, no other row's indicator changes, and no write
  leaves the allocation.
\<close>

theorem OdbcIndicator_get_set:
  assumes "length base = 8 * n" "i < n" "j < n" "INT32_MIN \<le> v" "v \<le> INT32_MAX"
  shows "OdbcIndicatorGet (OdbcIndicatorSet base i v quirk) j quirk = (if j = i then v else OdbcIndicatorGet base j quirk)
       \<and> length (OdbcIndicatorSet base i v quirk) = length base"
proof -
  let ?w = "if quirk then 4 else 8 :: nat"
  have get: "OdbcIndicatorGet m k quirk = read_signed ?w (mem_slice (k * ?w) ?w m)" for m k
    by (simp add: OdbcIndicatorGet_def)
  have set: "OdbcIndicatorSet base i v quirk = mem_write (i * ?w) (int_bytes ?w v) base"
    by (simp add: OdbcIndicatorSet_def)
  have fits: "i * ?w + length (int_bytes ?w v) \<le> length base" using assms by simp
  have v: "read_signed ?w (int_bytes ?w v) = v"
    using assms by (intro read_signed_int_bytes) auto
  show ?thesis
  proof (cases "j = i")
    case True
    then show ?thesis using slice_write_same [OF fits] v fits by (simp add: get set)
  next
    case False
    then have "j * ?w + ?w \<le> i * ?w \<or> i * ?w + length (int_bytes ?w v) \<le> j * ?w"
      by (cases "j < i") auto
    from slice_write_other [OF fits this] show ?thesis using False fits by (simp add: get set)
  qed
qed

theorem OdbcIndicator_get_set_witness:
  "OdbcIndicatorGet (OdbcIndicatorSet (replicate 16 0) 1 (- 1) True) 1 True = - 1
   \<and> OdbcIndicatorGet (OdbcIndicatorSet (replicate 16 0) 1 (- 1) True) 0 True = OdbcIndicatorGet (replicate 16 0) 0 True"
  using OdbcIndicator_get_set [of "replicate 16 0" 2 1 1 "- 1" True] OdbcIndicator_get_set [of "replicate 16 0" 2 1 0 "- 1" True]
  by simp

end
