(* ===== verification/ArrowBuild.thy ===== *)
theory ArrowBuild
  imports Memory
begin

text \<open>
  The array builder of the vendored nanoarrow (\<^verbatim>\<open>vendor/nanoarrow/nanoarrow.h\<close>) as far as the reader
  uses it: fixed-width, boolean and string/binary arrays whose validity bitmap is only allocated when
  the first null is appended.  \<open>arr_ok\<close> is the builder's invariant; \<open>payload\<close> and \<open>validity\<close> are what
  an Arrow consumer reads, and \<open>array_values\<close> combines them.  Allocation does not fail here.
\<close>

datatype arrow_layout = Fixed nat | Bits | Var

record arrow_array =
  a_length :: nat
  a_nulls :: nat
  a_bitmap :: "bool list option"
  a_data :: mem
  a_bits :: "bool list"
  a_offsets :: "int list"

text \<open>\<open>Failed\<close> is an error the code returns; \<open>Undefined\<close> is signed overflow, which C leaves undefined.\<close>

datatype convert_error = Failed status | Undefined

definition ArrowArrayStart :: "arrow_array" where
  "ArrowArrayStart = \<lparr>a_length = 0, a_nulls = 0, a_bitmap = None, a_data = [], a_bits = [], a_offsets = [0]\<rparr>"

text \<open>The end of every append of a value: a bit in the bitmap, if there is one, and the length.\<close>

definition AppendValid :: "arrow_array \<Rightarrow> arrow_array" where
  "AppendValid a = a\<lparr>a_bitmap := map_option (\<lambda>b. b @ [True]) (a_bitmap a), a_length := a_length a + 1\<rparr>"

definition AppendFixed :: "mem \<Rightarrow> arrow_array \<Rightarrow> arrow_array" where
  "AppendFixed bs a = AppendValid (a\<lparr>a_data := a_data a @ bs\<rparr>)"

definition ArrowArrayAppendInt :: "nat \<Rightarrow> int \<Rightarrow> arrow_array \<Rightarrow> convert_error + arrow_array" where
  "ArrowArrayAppendInt w v a =
     (if - (2 ^ (8 * w - 1)) \<le> v \<and> v < 2 ^ (8 * w - 1) then Inr (AppendFixed (int_bytes w v) a)
      else Inl (Failed ADBC_STATUS_INTERNAL))"

definition ArrowArrayAppendUInt :: "nat \<Rightarrow> int \<Rightarrow> arrow_array \<Rightarrow> convert_error + arrow_array" where
  "ArrowArrayAppendUInt w v a =
     (if v < 2 ^ (8 * w) then Inr (AppendFixed (int_bytes w v) a) else Inl (Failed ADBC_STATUS_INTERNAL))"

definition BytesForBits :: "nat \<Rightarrow> nat" where
  "BytesForBits bits = bits div 8 + (if bits mod 8 \<noteq> 0 then 1 else 0)"

text \<open>Filling a bit buffer with zeros up to the bytes \<open>n\<close> bits need, and setting bits.\<close>

definition FillBits :: "nat \<Rightarrow> bool list \<Rightarrow> bool list" where
  "FillBits n bs = bs @ replicate (8 * BytesForBits n - length bs) False"

definition AppendBits :: "bool \<Rightarrow> arrow_array \<Rightarrow> arrow_array" where
  "AppendBits v a = a\<lparr>a_bits := (FillBits (a_length a + 1) (a_bits a))[a_length a := v]\<rparr>"

definition ArrowArrayAppendBool :: "bool \<Rightarrow> arrow_array \<Rightarrow> arrow_array" where
  "ArrowArrayAppendBool v a = AppendValid (AppendBits v a)"

definition ArrowArrayAppendBytes :: "mem \<Rightarrow> arrow_array \<Rightarrow> convert_error + arrow_array" where
  "ArrowArrayAppendBytes bs a =
     (let offset = a_offsets a ! a_length a in
      if offset + int (length bs) > INT32_MAX then Inl (Failed ADBC_STATUS_INTERNAL)
      else Inr (AppendValid (a\<lparr>a_offsets := a_offsets a @ [offset + int (length bs)], a_data := a_data a @ bs\<rparr>)))"

fun AppendEmpty :: "arrow_layout \<Rightarrow> arrow_array \<Rightarrow> arrow_array" where
  "AppendEmpty (Fixed w) a = a\<lparr>a_data := a_data a @ replicate w 0\<rparr>"
| "AppendEmpty Bits a = AppendBits False a"
| "AppendEmpty Var a = a\<lparr>a_offsets := a_offsets a @ [a_offsets a ! a_length a]\<rparr>"

definition ArrowArrayAppendNull :: "arrow_layout \<Rightarrow> arrow_array \<Rightarrow> arrow_array" where
  "ArrowArrayAppendNull l a =
     (let b = (case a_bitmap a of None \<Rightarrow> replicate (a_length a) True | Some b \<Rightarrow> b)
      in (AppendEmpty l a)\<lparr>a_bitmap := Some (b @ [False]), a_length := a_length a + 1, a_nulls := a_nulls a + 1\<rparr>)"

subsection \<open>What an array holds\<close>

datatype arrow_value = VFixed mem | VBool bool | VBytes mem

fun array_elem :: "arrow_layout \<Rightarrow> arrow_array \<Rightarrow> nat \<Rightarrow> arrow_value" where
  "array_elem (Fixed w) a k = VFixed (mem_slice (k * w) w (a_data a))"
| "array_elem Bits a k = VBool (a_bits a ! k)"
| "array_elem Var a k = VBytes (mem_slice (nat (a_offsets a ! k)) (nat (a_offsets a ! Suc k - a_offsets a ! k)) (a_data a))"

definition payload :: "arrow_layout \<Rightarrow> arrow_array \<Rightarrow> arrow_value list" where
  "payload l a = map (array_elem l a) [0..<a_length a]"

definition validity :: "arrow_array \<Rightarrow> bool list" where
  "validity a = (case a_bitmap a of None \<Rightarrow> replicate (a_length a) True | Some b \<Rightarrow> b)"

definition mask :: "bool list \<Rightarrow> 'a list \<Rightarrow> 'a option list" where
  "mask bs vs = map2 (\<lambda>b v. if b then Some v else None) bs vs"

definition array_values :: "arrow_layout \<Rightarrow> arrow_array \<Rightarrow> arrow_value option list" where
  "array_values l a = mask (validity a) (payload l a)"

fun layout_ok :: "arrow_layout \<Rightarrow> arrow_array \<Rightarrow> bool" where
  "layout_ok (Fixed w) a = (length (a_data a) = w * a_length a)"
| "layout_ok Bits a = (length (a_bits a) = 8 * BytesForBits (a_length a))"
| "layout_ok Var a = (length (a_offsets a) = Suc (a_length a) \<and> sorted (0 # a_offsets a) \<and> a_offsets a ! 0 = 0
     \<and> a_offsets a ! a_length a = int (length (a_data a)))"

definition arr_ok :: "arrow_layout \<Rightarrow> arrow_array \<Rightarrow> bool" where
  "arr_ok l a \<longleftrightarrow> layout_ok l a \<and> length (validity a) = a_length a
     \<and> a_nulls a = length (filter Not (validity a))"

lemma arr_ok_start: "arr_ok l ArrowArrayStart"
  by (cases l) (auto simp: arr_ok_def ArrowArrayStart_def validity_def BytesForBits_def)

lemma length_payload [simp]: "length (payload l a) = a_length a"
  by (simp add: payload_def)

lemma mask_append: "length bs = length vs \<Longrightarrow> mask (bs @ bs') (vs @ vs') = mask bs vs @ mask bs' vs'"
  by (simp add: mask_def)

lemma length_mask [simp]: "length (mask bs vs) = min (length bs) (length vs)"
  by (simp add: mask_def)

text \<open>
  How an array grows: the payload by \<open>vs\<close> and the validity by \<open>bs\<close>.  Every append of the builder and
  of the reader's bulk path is shown to be of this form.
\<close>

definition grows :: "arrow_layout \<Rightarrow> arrow_array \<Rightarrow> bool list \<Rightarrow> arrow_value list \<Rightarrow> arrow_array \<Rightarrow> bool" where
  "grows l a bs vs a' \<longleftrightarrow> arr_ok l a' \<and> payload l a' = payload l a @ vs \<and> validity a' = validity a @ bs
     \<and> length bs = length vs"

lemma grows_values: "arr_ok l a \<Longrightarrow> grows l a bs vs a' \<Longrightarrow> array_values l a' = array_values l a @ mask bs vs"
  by (simp add: grows_def array_values_def mask_append arr_ok_def)

lemma grows_refl: "arr_ok l a \<Longrightarrow> grows l a [] [] a"
  by (simp add: grows_def)

lemma grows_trans: "grows l a bs vs b \<Longrightarrow> grows l b bs' vs' c \<Longrightarrow> grows l a (bs @ bs') (vs @ vs') c"
  by (simp add: grows_def)

subsection \<open>The data buffers\<close>

lemma BytesForBits_le: "n \<le> 8 * BytesForBits n"
proof -
  have "n = 8 * (n div 8) + n mod 8" by simp
  moreover have "n mod 8 < 8" by simp
  ultimately show ?thesis by (auto simp: BytesForBits_def)
qed

lemma BytesForBits_mono: "m \<le> n \<Longrightarrow> BytesForBits m \<le> BytesForBits n"
proof -
  assume "m \<le> n"
  have up: "BytesForBits k = (k + 7) div 8" for k by (auto simp: BytesForBits_def) presburger+
  show ?thesis using \<open>m \<le> n\<close> by (simp add: up div_le_mono)
qed

lemma length_FillBits: "length bs = 8 * BytesForBits m \<Longrightarrow> m \<le> n \<Longrightarrow> length (FillBits n bs) = 8 * BytesForBits n"
  using BytesForBits_mono [of m n] by (simp add: FillBits_def)

lemma nth_FillBits: "k < length bs \<Longrightarrow> FillBits n bs ! k = bs ! k"
  by (simp add: FillBits_def nth_append)

lemma payload_fixed:
  assumes "layout_ok (Fixed w) a" "length bs = w * n" "a_data a' = a_data a @ bs" "a_length a' = a_length a + n"
  shows "payload (Fixed w) a' = payload (Fixed w) a @ map (\<lambda>k. VFixed (mem_slice (k * w) w bs)) [0..<n]"
    and "layout_ok (Fixed w) a'"
proof -
  have "length (a_data a) = w * a_length a" using assms(1) by simp
  note s = mem_slice_append [OF this]
  have "payload (Fixed w) a' ! k = (payload (Fixed w) a @ map (\<lambda>k. VFixed (mem_slice (k * w) w bs)) [0..<n]) ! k"
    if k: "k < a_length a + n" for k
  proof (cases "k < a_length a")
    case True
    then show ?thesis using k s(1) [of k] assms by (simp add: payload_def nth_append)
  next
    case False
    then obtain j where j: "k = a_length a + j" using le_Suc_ex not_le by blast
    then show ?thesis using k s(2) [of j] assms by (simp add: payload_def nth_append)
  qed
  then show "payload (Fixed w) a' = payload (Fixed w) a @ map (\<lambda>k. VFixed (mem_slice (k * w) w bs)) [0..<n]"
    by (intro nth_equalityI) (auto simp: assms(4))
  show "layout_ok (Fixed w) a'" using assms by (simp add: algebra_simps)
qed

lemma payload_bits:
  assumes "layout_ok Bits a" "a_length a' = a_length a + n" "length (a_bits a') = 8 * BytesForBits (a_length a')"
    "\<And>k. k < a_length a \<Longrightarrow> a_bits a' ! k = a_bits a ! k" "\<And>k. k < n \<Longrightarrow> a_bits a' ! (a_length a + k) = v k"
  shows "payload Bits a' = payload Bits a @ map (\<lambda>k. VBool (v k)) [0..<n]" "layout_ok Bits a'"
proof -
  have "payload Bits a' ! k = (payload Bits a @ map (\<lambda>k. VBool (v k)) [0..<n]) ! k" if k: "k < a_length a + n" for k
  proof (cases "k < a_length a")
    case True
    then show ?thesis using k assms by (simp add: payload_def nth_append)
  next
    case False
    then obtain j where j: "k = a_length a + j" using le_Suc_ex not_le by blast
    then show ?thesis using k assms by (simp add: payload_def nth_append)
  qed
  then show "payload Bits a' = payload Bits a @ map (\<lambda>k. VBool (v k)) [0..<n]"
    by (intro nth_equalityI) (auto simp: assms(2))
  show "layout_ok Bits a'" using assms by simp
qed

text \<open>One string appended to the offsets and data buffers.\<close>

lemma payload_var_one:
  assumes "layout_ok Var a" "a_length a' = a_length a + 1" "a_data a' = a_data a @ bs"
    "a_offsets a' = a_offsets a @ [a_offsets a ! a_length a + int (length bs)]"
  shows "payload Var a' = payload Var a @ [VBytes bs]" "layout_ok Var a'"
proof -
  let ?n = "a_length a"
  from assms(1) have o: "length (a_offsets a) = Suc ?n" "sorted (a_offsets a)" "\<forall>x \<in> set (a_offsets a). 0 \<le> x"
    "a_offsets a ! ?n = int (length (a_data a))" by auto
  have mono: "0 \<le> a_offsets a ! k \<and> a_offsets a ! k \<le> a_offsets a ! Suc k \<and> a_offsets a ! Suc k \<le> int (length (a_data a))"
    if "k < ?n" for k
    using that o sorted_nth_mono [OF o(2), of k "Suc k"] sorted_nth_mono [OF o(2), of "Suc k" ?n] by (auto simp: nth_mem)
  have "array_elem Var a' k = array_elem Var a k" if "k < ?n" for k
    using mono [OF that] that o(1) by (simp add: assms nth_append mem_slice_def nat_le_iff)
  moreover have "array_elem Var a' ?n = VBytes bs"
    using o by (simp add: assms nth_append mem_slice_def)
  ultimately show "payload Var a' = payload Var a @ [VBytes bs]" by (simp add: payload_def assms(2))
  have last: "x \<le> a_offsets a ! ?n" if "x \<in> set (a_offsets a)" for x
    using that o sorted_nth_mono [OF o(2), of _ ?n] by (auto simp: in_set_conv_nth less_Suc_eq_le)
  then show "layout_ok Var a'" using o assms(1) by (auto simp: assms sorted_append nth_append) force
qed

fun vsize :: "arrow_value \<Rightarrow> nat" where
  "vsize (VBytes bs) = length bs"
| "vsize _ = 0"

lemma var_offset: "layout_ok Var a \<Longrightarrow> a_offsets a ! a_length a = int (sum_list (map vsize (payload Var a)))"
proof -
  assume ok: "layout_ok Var a"
  let ?o = "a_offsets a" and ?n = "a_length a"
  from ok have o: "length ?o = Suc ?n" "sorted ?o" "\<forall>x \<in> set ?o. 0 \<le> x" "?o ! ?n = int (length (a_data a))" "?o ! 0 = 0" by auto
  have "?o ! m = int (sum_list (map (\<lambda>k. vsize (array_elem Var a k)) [0..<m]))" if "m \<le> ?n" for m
    using that
  proof (induction m)
    case (Suc m)
    have "?o ! m \<le> ?o ! Suc m" "?o ! Suc m \<le> ?o ! ?n" "0 \<le> ?o ! m"
      using Suc.prems o sorted_nth_mono [OF o(2), of m "Suc m"] sorted_nth_mono [OF o(2), of "Suc m" ?n] by (auto simp: nth_mem)
    then have "int (vsize (array_elem Var a m)) = ?o ! Suc m - ?o ! m" using o(4) by (simp add: mem_slice_def)
    then show ?case using Suc by simp
  qed (simp add: o(5))
  from this [of ?n] show ?thesis by (simp add: payload_def comp_def del: array_elem.simps)
qed

subsection \<open>Each append\<close>

lemma validity_AppendValid: "length (validity a) = a_length a \<Longrightarrow> a_bitmap a' = a_bitmap a \<Longrightarrow> a_length a' = a_length a
    \<Longrightarrow> validity (AppendValid a') = validity a @ [True]"
  by (auto simp: validity_def AppendValid_def replicate_append_same split: option.splits)

lemma grows_AppendFixed:
  assumes "arr_ok (Fixed w) a" "length bs = w"
  shows "grows (Fixed w) a [True] [VFixed bs] (AppendFixed bs a)"
  using payload_fixed [of w a bs 1 "AppendFixed bs a"] assms validity_AppendValid [of a "a\<lparr>a_data := a_data a @ bs\<rparr>"]
  by (simp add: grows_def arr_ok_def AppendFixed_def AppendValid_def mem_slice_def)

lemma grows_AppendInt:
  assumes "arr_ok (Fixed w) a" "ArrowArrayAppendInt w v a = Inr a'"
  shows "grows (Fixed w) a [True] [VFixed (int_bytes w v)] a'"
  using grows_AppendFixed [OF assms(1), of "int_bytes w v"] assms(2) by (auto simp: ArrowArrayAppendInt_def split: if_splits)

lemma grows_AppendUInt:
  assumes "arr_ok (Fixed w) a" "ArrowArrayAppendUInt w v a = Inr a'"
  shows "grows (Fixed w) a [True] [VFixed (int_bytes w v)] a'"
  using grows_AppendFixed [OF assms(1), of "int_bytes w v"] assms(2) by (auto simp: ArrowArrayAppendUInt_def split: if_splits)

lemma AppendBits_payload:
  assumes "layout_ok Bits a" "a_bits a' = a_bits (AppendBits v a)" "a_length a' = a_length a + 1"
  shows "payload Bits a' = payload Bits a @ [VBool v]" "layout_ok Bits a'"
proof -
  have len: "length (FillBits (a_length a + 1) (a_bits a)) = 8 * BytesForBits (a_length a + 1)"
    using assms by (intro length_FillBits [of _ "a_length a"]) auto
  have n: "a_length a < 8 * BytesForBits (a_length a + 1)" using BytesForBits_le [of "a_length a + 1"] by simp
  have old: "a_length a \<le> length (a_bits a)" using assms BytesForBits_le [of "a_length a"] by simp
  note p = payload_bits [of a a' 1 "\<lambda>_. v"]
  show "payload Bits a' = payload Bits a @ [VBool v]" "layout_ok Bits a'"
    using p assms len n old by (simp_all add: AppendBits_def nth_FillBits nth_list_update)
qed

lemma grows_AppendBool: "arr_ok Bits a \<Longrightarrow> grows Bits a [True] [VBool v] (ArrowArrayAppendBool v a)"
  using AppendBits_payload [of a "ArrowArrayAppendBool v a" v] validity_AppendValid [of a "AppendBits v a"]
  by (simp add: grows_def arr_ok_def ArrowArrayAppendBool_def AppendValid_def AppendBits_def)

lemma grows_AppendBytes:
  assumes "arr_ok Var a" "ArrowArrayAppendBytes bs a = Inr a'"
  shows "grows Var a [True] [VBytes bs] a'"
proof -
  let ?b = "a\<lparr>a_offsets := a_offsets a @ [a_offsets a ! a_length a + int (length bs)], a_data := a_data a @ bs\<rparr>"
  have a': "a' = AppendValid ?b" using assms(2) by (auto simp: ArrowArrayAppendBytes_def Let_def split: if_splits)
  show ?thesis using payload_var_one [of a a' bs] validity_AppendValid [of a ?b] assms(1)
    by (simp add: grows_def arr_ok_def a' AppendValid_def del: layout_ok.simps)
qed

text \<open>The value a null leaves in the payload.\<close>

fun null_value :: "arrow_layout \<Rightarrow> arrow_value" where
  "null_value (Fixed w) = VFixed (replicate w 0)"
| "null_value Bits = VBool False"
| "null_value Var = VBytes []"

lemma grows_AppendNull:
  assumes "arr_ok l a"
  shows "grows l a [False] [null_value l] (ArrowArrayAppendNull l a)"
proof -
  let ?a' = "ArrowArrayAppendNull l a"
  have v: "validity ?a' = validity a @ [False]" "a_length ?a' = a_length a + 1" "a_nulls ?a' = a_nulls a + 1"
    by (simp_all add: ArrowArrayAppendNull_def validity_def Let_def split: option.splits)
  have "payload l ?a' = payload l a @ [null_value l] \<and> layout_ok l ?a'"
  proof (cases l)
    case (Fixed w)
    then show "payload l ?a' = payload l a @ [null_value l] \<and> layout_ok l ?a'"
      using payload_fixed [of w a "replicate w 0" 1 ?a'] assms
      by (simp add: arr_ok_def ArrowArrayAppendNull_def Let_def mem_slice_def)
  next
    case Bits
    then show "payload l ?a' = payload l a @ [null_value l] \<and> layout_ok l ?a'"
      using AppendBits_payload [of a ?a' False] assms
      by (simp add: arr_ok_def ArrowArrayAppendNull_def Let_def)
  next
    case Var
    then show "payload l ?a' = payload l a @ [null_value l] \<and> layout_ok l ?a'"
      using payload_var_one [of a ?a' "[]"] assms
      by (simp add: arr_ok_def ArrowArrayAppendNull_def Let_def del: layout_ok.simps)
  qed
  then show ?thesis using v assms by (simp add: grows_def arr_ok_def)
qed

end
