(* ===== verification/Decimals.thy ===== *)
theory Decimals
  imports ArrowBuild
begin

text \<open>
  \<open>AppendDecimalString\<close> of \<^verbatim>\<open>src/odbc_reader.c\<close>: the text of a decimal column becomes a decimal128 of
  the column's scale.  The scan keeps at most 63 digits; \<^verbatim>\<open>ArrowDecimalSetDigits\<close> reduces them to
  128 bits.  \<open>decimal_exact\<close> states what is stored: the value scaled up and truncated towards zero.
\<close>

text \<open>The scanning loop; \<open>frac_seen\<close> is negative before the point.  \<open>None\<close> is \<^verbatim>\<open>EINVAL\<close>.\<close>

fun DecimalScan :: "int \<Rightarrow> string \<Rightarrow> int \<Rightarrow> string \<Rightarrow> (int \<times> string) option" where
  "DecimalScan scale [] frac_seen digits = Some (frac_seen, digits)"
| "DecimalScan scale (ch # s) frac_seen digits =
     (if is_digit ch then
        (if frac_seen \<ge> 0 \<and> frac_seen \<ge> scale then DecimalScan scale s frac_seen digits
         else DecimalScan scale s (if frac_seen \<ge> 0 then frac_seen + 1 else frac_seen)
                (if length digits < 63 then digits @ [ch] else digits))
      else if ch = CHR ''.'' \<and> frac_seen < 0 then DecimalScan scale s 0 digits
      else if ch = CHR 0x00 \<or> ch = CHR '' '' then Some (frac_seen, digits)
      else None)"

definition DecimalPad :: "int \<Rightarrow> int \<Rightarrow> string \<Rightarrow> string" where
  "DecimalPad scale frac_seen digits =
     (let frac_seen = (if frac_seen < 0 then 0 else frac_seen);
          digits = digits @ replicate (min (nat (scale - frac_seen)) (63 - length digits)) CHR ''0''
      in if digits = [] then ''0'' else digits)"

definition AppendDecimalString :: "string \<Rightarrow> int \<Rightarrow> int \<Rightarrow> arrow_array \<Rightarrow> convert_error + arrow_array" where
  "AppendDecimalString s precision scale a =
     (let s = dropWhile (\<lambda>c. c = CHR '' '' \<or> c = CHR ''+'') s;
          (neg, s) = (if s \<noteq> [] \<and> hd s = CHR ''-'' then (True, tl s) else (False, s))
      in case DecimalScan scale s (- 1) [] of
           None \<Rightarrow> Inl (Failed ADBC_STATUS_INVALID_DATA)
         | Some (frac_seen, digits) \<Rightarrow>
             (let v = horner 0 (DecimalPad scale frac_seen digits)
              in Inr (AppendFixed (int_bytes 16 (if neg then - v else v)) a)))"

subsection \<open>The value of digits\<close>

lemma horner_append: "horner v (ds @ es) = horner v ds * 10 ^ length es + horner 0 es"
proof (induction es rule: rev_induct)
  case (snoc c es)
  then show ?case by (simp add: algebra_simps flip: append_assoc)
qed simp

lemma digit_val_bound: "is_digit c \<Longrightarrow> digit_val c \<le> 9"
  by (auto simp: is_digit_def digit_val_def less_eq_char_def)

lemma horner_bounds: "list_all is_digit ds \<Longrightarrow> 0 \<le> horner 0 ds \<and> horner 0 ds < 10 ^ length ds"
proof (induction ds rule: rev_induct)
  case (snoc c ds)
  then have "0 \<le> horner 0 ds" "horner 0 ds + 1 \<le> 10 ^ length ds" "digit_val c \<le> 9"
    using digit_val_bound by auto
  moreover from this have "(horner 0 ds + 1) * 10 \<le> 10 ^ length ds * 10" by (intro mult_right_mono) auto
  ultimately show ?case by (simp add: algebra_simps)
qed simp

lemma horner_zeros [simp]: "horner v (replicate n CHR ''0'') = v * 10 ^ n"
  by (induction n arbitrary: v) (auto simp: digit_val_def)

subsection \<open>The scan\<close>

lemma scan_integer:
  "list_all is_digit ds \<Longrightarrow> length acc + length ds \<le> 63
   \<Longrightarrow> DecimalScan scale (ds @ s) (- 1) acc = DecimalScan scale s (- 1) (acc @ ds)"
  by (induction ds arbitrary: acc) auto

lemma scan_fraction:
  "list_all is_digit ds \<Longrightarrow> 0 \<le> fr \<Longrightarrow> fr \<le> scale \<Longrightarrow> length acc + nat (scale - fr) \<le> 63
   \<Longrightarrow> DecimalScan scale (ds @ s) fr acc
       = DecimalScan scale s (min scale (fr + int (length ds))) (acc @ take (nat (scale - fr)) ds)"
proof (induction ds arbitrary: acc fr)
  case (Cons d ds)
  show ?case
  proof (cases "fr = scale")
    case True
    then show ?thesis using Cons.prems Cons.IH [of fr acc] by simp
  next
    case False
    then have "nat (scale - fr) = Suc (nat (scale - (fr + 1)))" using Cons.prems by simp
    then show ?thesis using False Cons.prems Cons.IH [of "fr + 1" "acc @ [d]"] by (simp add: algebra_simps)
  qed
qed (simp add: min_def)

definition blank_tail :: "string \<Rightarrow> bool" where
  "blank_tail s \<longleftrightarrow> s = [] \<or> hd s = CHR 0x00 \<or> hd s = CHR '' ''"

lemma scan_tail: "blank_tail s \<Longrightarrow> DecimalScan scale s fr acc = Some (fr, acc)"
  by (cases s) (auto simp: blank_tail_def is_digit_def less_eq_char_def)

lemma is_digit_zero: "is_digit CHR ''0''"
  by (simp add: is_digit_def)

lemma DecimalPad_neg: "fr < 0 \<Longrightarrow> DecimalPad scale fr ds = DecimalPad scale 0 ds"
  by (simp add: DecimalPad_def)

text \<open>The digits kept, padded to the scale, spell the scaled value.\<close>

lemma pad_value:
  assumes "list_all is_digit I" "list_all is_digit F" "0 \<le> scale" "length I + nat scale \<le> 63"
  shows "horner 0 (DecimalPad scale (min scale (int (length F))) (I @ take (nat scale) F))
       = horner 0 (I @ F) * 10 ^ nat scale div 10 ^ length F"
proof -
  let ?n = "nat scale"
  have pad: "horner 0 (DecimalPad scale (min scale (int (length F))) (I @ take ?n F))
      = horner 0 (I @ take ?n F) * 10 ^ (?n - length F)"
  proof -
    have "min (nat (scale - min scale (int (length F)))) (63 - length (I @ take ?n F)) = ?n - length F"
      using assms(3,4) by auto
    moreover have "horner 0 (if ds = [] then ''0'' else ds) = horner 0 ds" for ds
      by (simp add: digit_val_def)
    moreover have "horner 0 ((I @ take ?n F) @ replicate k CHR ''0'') = horner 0 (I @ take ?n F) * 10 ^ k" for k
      by (simp only: horner_append [of 0 "I @ take ?n F"] horner_zeros) simp
    moreover have "\<not> min scale (int (length F)) < 0" using assms(3) by simp
    ultimately show ?thesis by (simp only: DecimalPad_def Let_def if_False)
  qed
  show ?thesis
  proof (cases "?n \<le> length F")
    case True
    define G where "G = drop ?n F"
    have F: "I @ F = (I @ take ?n F) @ G" "length F = ?n + length G" using True by (simp_all add: G_def)
    have G: "0 \<le> horner 0 G" "horner 0 G < 10 ^ length G"
      using horner_bounds [of G] assms(2) by (auto simp: G_def list_all_iff dest: in_set_dropD)
    have "horner 0 (I @ F) * 10 ^ ?n div 10 ^ length F = horner 0 (I @ F) div 10 ^ length G"
      unfolding F(2) power_add by (simp add: mult.commute [of "10 ^ ?n"])
    also have "\<dots> = horner 0 (I @ take ?n F)"
      unfolding F(1) horner_append [of 0 "I @ take ?n F" G] using G by simp
    finally show ?thesis using pad True by simp
  next
    case False
    then have "(10::int) ^ ?n = 10 ^ (?n - length F) * 10 ^ length F" by (simp flip: power_add)
    then have "horner 0 (I @ F) * 10 ^ ?n div 10 ^ length F = horner 0 (I @ F) * 10 ^ (?n - length F)"
      by simp
    then show ?thesis using pad False by simp
  qed
qed

lemma scan_stop:
  "rest = [] \<or> \<not> is_digit (hd rest) \<and> (hd rest = CHR ''.'' \<longrightarrow> 0 \<le> fr)
   \<Longrightarrow> DecimalScan scale rest fr acc = (if blank_tail rest then Some (fr, acc) else None)"
  by (cases rest) (auto simp: blank_tail_def)

lemma scan_number:
  assumes "list_all is_digit I" "list_all is_digit F" "0 \<le> scale" "length I + nat scale \<le> 63" "point \<or> F = []"
    and "rest = [] \<or> \<not> is_digit (hd rest) \<and> (hd rest = CHR ''.'' \<longrightarrow> point)"
  shows "DecimalScan scale (I @ (if point then CHR ''.'' # F else []) @ rest) (- 1) []
       = (if blank_tail rest then Some (if point then min scale (int (length F)) else - 1, I @ take (nat scale) F) else None)"
proof -
  have nd: "\<not> is_digit CHR ''.''" by (simp add: is_digit_def less_eq_char_def)
  show ?thesis
    using scan_integer [OF assms(1), of "[]"] scan_fraction [OF assms(2), of 0 scale I rest] assms(3-6) nd
      scan_stop [of rest "- 1" scale I] scan_stop [of rest "min scale (int (length F))" scale "I @ take (nat scale) F"]
    by (cases point) auto
qed

text \<open>
  C35. A decimal's text, blanks and plus signs, an optional minus, digits and optionally a point and
  more digits, ended by its length, a NUL or a blank, is stored as the 128-bit two's complement of
  its value times \<open>10 ^ scale\<close>, truncated towards zero.  Anything else after the digits (an exponent,
  a second point) is an error.  The digit buffer suffices for every number that fits a column of
  precision at most 38.
\<close>

theorem decimal_exact:
  assumes "list_all (\<lambda>c. c = CHR '' '' \<or> c = CHR ''+'') pre" "list_all is_digit I" "I \<noteq> []" "list_all is_digit F"
    and "0 \<le> scale" "length I + nat scale \<le> 63" "point \<or> F = []"
    and "rest = [] \<or> \<not> is_digit (hd rest) \<and> (hd rest = CHR ''.'' \<longrightarrow> point)"
  shows "AppendDecimalString (pre @ (if neg then ''-'' else []) @ I @ (if point then CHR ''.'' # F else []) @ rest) precision scale a
       = (if blank_tail rest
          then let v = horner 0 (I @ F) * 10 ^ nat scale div 10 ^ length F
               in Inr (AppendFixed (int_bytes 16 (if neg then - v else v)) a)
          else Inl (Failed ADBC_STATUS_INVALID_DATA))"
proof -
  let ?s = "I @ (if point then CHR ''.'' # F else []) @ rest"
  obtain i I' where I: "I = i # I'" "is_digit i" using assms(2,3) by (cases I) auto
  then have i: "i \<noteq> CHR '' ''" "i \<noteq> CHR ''+''" "i \<noteq> CHR ''-''" by (auto simp: is_digit_def less_eq_char_def)
  have drop: "dropWhile (\<lambda>c. c = CHR '' '' \<or> c = CHR ''+'') (pre @ (if neg then ''-'' else []) @ ?s)
      = (if neg then ''-'' else []) @ ?s"
  proof -
    have "dropWhile P (pre @ x) = dropWhile P x" if "list_all P pre" for P x
      using that by (induction pre) auto
    from this [OF assms(1)] show ?thesis using I(1) i by simp
  qed
  have sign: "(if neg then ''-'' else []) @ ?s = (if neg then CHR ''-'' # ?s else ?s)" "\<exists>r. ?s = i # r"
    using I by auto
  have v: "horner 0 (DecimalPad scale (if point then min scale (int (length F)) else - 1) (I @ take (nat scale) F))
      = horner 0 (I @ F) * 10 ^ nat scale div 10 ^ length F"
    using pad_value [OF assms(2,4,5,6)] assms(5,7) DecimalPad_neg [of "- 1" scale] by (cases point) (simp_all add: min_absorb2)
  have case_sign: "AppendDecimalString (pre @ (if neg then ''-'' else []) @ ?s) precision scale a
      = (case DecimalScan scale ?s (- 1) [] of
           None \<Rightarrow> Inl (Failed ADBC_STATUS_INVALID_DATA)
         | Some (frac_seen, digits) \<Rightarrow>
             (let v = horner 0 (DecimalPad scale frac_seen digits)
              in Inr (AppendFixed (int_bytes 16 (if neg then - v else v)) a)))"
  proof -
    obtain r where r: "?s = i # r" using sign(2) by blast
    show ?thesis unfolding AppendDecimalString_def drop unfolding r using i(3)
      by (cases neg) (simp_all add: Let_def del: DecimalScan.simps split: option.splits)
  qed
  show ?thesis unfolding case_sign scan_number [OF assms(2,4-8)] by (simp add: v Let_def)
qed

theorem decimal_exact_witness:
  "AppendDecimalString '' -12.345'' 9 2 ArrowArrayStart = Inr (AppendFixed (int_bytes 16 (- 1234)) ArrowArrayStart)
   \<and> AppendDecimalString ''1E5'' 9 2 ArrowArrayStart = Inl (Failed ADBC_STATUS_INVALID_DATA)"
proof -
  have d: "list_all is_digit ''12''" "list_all is_digit ''345''" "\<not> is_digit CHR ''E''" "list_all is_digit ''1''"
    by (simp_all add: is_digit_def less_eq_char_def)
  show ?thesis
    using decimal_exact [of "'' ''" "''12''" "''345''" 2 True "[]" True 9 ArrowArrayStart]
      decimal_exact [of "[]" "''1''" "[]" 2 False "''E5''" False 9 ArrowArrayStart] d
    by (simp add: blank_tail_def digit_val_def)
qed

end
