(* ===== verification/Convert.thy ===== *)
theory Convert
  imports Columns Utf Decimals
begin

text \<open>
  From the bound buffers of a rowset to Arrow values, \<^verbatim>\<open>src/odbc_reader.c\<close>: the length of a bound
  value and whether it was truncated, the piecewise \<^verbatim>\<open>SQLGetData\<close> read, the conversion of one value
  (\<open>AppendValue\<close>) and of a whole column at once (\<open>BulkAppendColumn\<close>).

  A slot's buffers are byte memory.  The driver enters through what its calls answer: \<open>set_pos\<close> for
  \<^verbatim>\<open>SQLSetPos\<close> and, per row and column, the list of its successive \<^verbatim>\<open>SQLGetData\<close> answers, after which it
  answers \<^verbatim>\<open>SQL_NO_DATA\<close>.  A \<^verbatim>\<open>SQLREAL\<close> that passes through a \<^verbatim>\<open>double\<close> keeps its four bytes.
\<close>

abbreviation (input) SQL_NULL_DATA :: int where "SQL_NULL_DATA \<equiv> - 1"
abbreviation (input) SQL_NO_TOTAL :: int where "SQL_NO_TOTAL \<equiv> - 4"

subsection \<open>The reader's state\<close>

record OdbcRowsetSlot =
  s_buffers :: "mem list"
  s_indicators :: "mem list"
  s_row_status :: "nat list"
  s_rows_fetched_raw :: int
  s_fetched :: nat
  s_first_row :: int
  s_eos :: bool
  s_needs_repair :: bool

record OdbcReader =
  r_opts :: OdbcReaderOptions
  r_cols :: "OdbcColumn list"
  r_rows_per_fetch :: nat
  r_rows_seen :: int
  r_rows_seen_exact :: bool
  r_rowsets_read :: int
  r_rowsets_repaired :: int
  r_adapt_open :: bool
  r_adapt_rows :: int
  r_rowset_restore :: bool
  r_rowset_full :: nat
  r_no_rows_fetched_ptr :: bool
  r_done :: bool
  r_bound :: bool
  r_all_bound :: bool
  r_slots :: "OdbcRowsetSlot list"
  r_cur_slot :: nat
  r_prefetching :: bool

text \<open>
  One answer of \<^verbatim>\<open>SQLGetData\<close>: no data, an error's status, or the 65536 bytes of the buffer after the
  call, the indicator, whether the call returned \<^verbatim>\<open>SQL_SUCCESS\<close>, and whether its first diagnostic is
  \<^verbatim>\<open>01004\<close> (truncation).
\<close>

datatype gd = GdNoData | GdError status | GdChunk mem int bool bool

record getdata_driver =
  set_pos :: "nat \<Rightarrow> status option"
  get_data :: "nat \<Rightarrow> nat \<Rightarrow> gd list"

subsection \<open>Lengths of bound values\<close>

definition var_ctype :: "c_type \<Rightarrow> bool" where
  "var_ctype t \<longleftrightarrow> t = SQL_C_CHAR \<or> t = SQL_C_WCHAR \<or> t = SQL_C_BINARY"

definition term_size :: "nat \<Rightarrow> c_type \<Rightarrow> nat" where
  "term_size wsize t = (if t = SQL_C_CHAR then 1 else if t = SQL_C_WCHAR then wsize else 0)"

definition BoundValueCap :: "nat \<Rightarrow> OdbcColumn \<Rightarrow> int" where
  "BoundValueCap wsize c = u64 (elem_size c - int (term_size wsize (ctype c)))"

definition BoundValueTruncated :: "nat \<Rightarrow> OdbcColumn \<Rightarrow> int \<Rightarrow> bool" where
  "BoundValueTruncated wsize c ind =
     (if \<not> var_ctype (ctype c) then False
      else if ind = SQL_NULL_DATA then False
      else ind = SQL_NO_TOTAL \<or> ind < 0 \<or> u64 ind > BoundValueCap wsize c)"

definition BoundValueLen :: "nat \<Rightarrow> OdbcColumn \<Rightarrow> int \<Rightarrow> nat" where
  "BoundValueLen wsize c ind =
     (if ind = SQL_NO_TOTAL \<or> ind < 0 then 0
      else let len = u64 ind; cap = u64 (elem_size c - int (term_size wsize (ctype c)))
           in nat (if len > cap then cap else len))"

subsection \<open>Reading a value with \<^verbatim>\<open>SQLGetData\<close>\<close>

definition PositionOnRow :: "getdata_driver \<Rightarrow> OdbcReader \<Rightarrow> nat \<Rightarrow> status option" where
  "PositionOnRow drv r row = (if r_rows_per_fetch r \<le> 1 then None else set_pos drv row)"

fun GetDataLoop :: "nat \<Rightarrow> bool \<Rightarrow> bool \<Rightarrow> gd list \<Rightarrow> mem \<Rightarrow> status + bool \<times> mem" where
  "GetDataLoop trm block first [] scratch =
     (if first \<and> block then Inl ADBC_STATUS_IO else Inr (False, scratch))"
| "GetDataLoop trm block first (GdNoData # gs) scratch =
     (if first \<and> block then Inl ADBC_STATUS_IO else Inr (False, scratch))"
| "GetDataLoop trm block first (GdError s # gs) scratch = Inl s"
| "GetDataLoop trm block first (GdChunk dst ind success state_01004 # gs) scratch =
     (if ind = SQL_NULL_DATA then Inr (True, scratch)
      else let got = (if ind = SQL_NO_TOTAL \<or> u64 ind \<ge> 65536 then 65536 - trm else nat (u64 ind));
               scratch = scratch @ take got dst
           in if success then Inr (False, scratch)
              else if state_01004 then GetDataLoop trm block False gs scratch
              else Inr (False, scratch))"

definition GetDataLong :: "nat \<Rightarrow> getdata_driver \<Rightarrow> OdbcReader \<Rightarrow> nat \<Rightarrow> nat \<Rightarrow> status + bool \<times> mem" where
  "GetDataLong wsize drv r i row =
     GetDataLoop (term_size wsize (ctype (r_cols r ! i))) (r_rows_per_fetch r > 1) True (get_data drv row i) []"

subsection \<open>One value\<close>

definition cur_slot :: "OdbcReader \<Rightarrow> OdbcRowsetSlot" where
  "cur_slot r = r_slots r ! r_cur_slot r"

definition col_indicator :: "OdbcReader \<Rightarrow> nat \<Rightarrow> nat \<Rightarrow> int" where
  "col_indicator r i row =
     OdbcIndicatorGet (s_indicators (cur_slot r) ! i) row (sqllen_32bit (r_opts r) \<or> ind_stride_32bit (r_opts r))"

text \<open>
  Where a value is: null or not, the bytes from its address on, its length, and whether it lies in
  the reader's scratch buffer.
\<close>

definition LoadValue :: "nat \<Rightarrow> getdata_driver \<Rightarrow> OdbcReader \<Rightarrow> nat \<Rightarrow> nat \<Rightarrow> status + bool \<times> mem \<times> nat \<times> bool" where
  "LoadValue wsize drv r i row =
     (let c = r_cols r ! i;
          reread = (case GetDataLong wsize drv r i row of
             Inl e \<Rightarrow> Inl e | Inr (is_null, scratch) \<Rightarrow> Inr (is_null, scratch, length scratch, True))
      in if bound c then
           (let ind = col_indicator r i row;
                is_null = (ind = SQL_NULL_DATA);
                data = drop (row * nat (elem_size c)) (s_buffers (cur_slot r) ! i)
            in if BoundValueTruncated wsize c ind then
                 (if getdata_repair (r_opts r) \<or> (r_rows_per_fetch r \<le> 1 \<and> getdata_bound (r_opts r)) then
                    (case PositionOnRow drv r row of Some e \<Rightarrow> Inl e | None \<Rightarrow> reread)
                  else Inr (is_null, data, if ind = SQL_NO_TOTAL \<or> ind < 0 then 0 else nat (BoundValueCap wsize c), False))
               else if ind = SQL_NO_TOTAL \<or> ind < 0 then Inr (is_null, data, 0, False)
               else Inr (is_null, data, nat (u64 ind), False))
         else reread)"

fun storage :: "OdbcFetchKind \<Rightarrow> arrow_layout" where
  "storage FETCH_BOOL = Bits" | "storage FETCH_BOOL_STR = Bits"
| "storage FETCH_I8 = Fixed 1" | "storage FETCH_U8 = Fixed 1"
| "storage FETCH_I16 = Fixed 2" | "storage FETCH_U16 = Fixed 2"
| "storage FETCH_I32 = Fixed 4" | "storage FETCH_U32 = Fixed 4" | "storage FETCH_F32 = Fixed 4"
| "storage FETCH_I64 = Fixed 8" | "storage FETCH_U64 = Fixed 8" | "storage FETCH_F64 = Fixed 8"
| "storage FETCH_DATE = Fixed 4" | "storage FETCH_TIME = Fixed 4" | "storage FETCH_TIME_MS = Fixed 4"
| "storage FETCH_TIME64 = Fixed 8" | "storage FETCH_TIMESTAMP = Fixed 8" | "storage FETCH_TIMESTAMP_TZ = Fixed 8"
| "storage FETCH_TIMESTAMP_TEXT = Fixed 8" | "storage FETCH_DECIMAL = Fixed 16"
| "storage FETCH_CHAR = Var" | "storage FETCH_WCHAR = Var" | "storage FETCH_BINARY = Var"

fun wide_units :: "nat \<Rightarrow> nat \<Rightarrow> mem \<Rightarrow> nat list" where
  "wide_units wsize 0 m = []"
| "wide_units wsize (Suc n) m = le_nat (take wsize m) # wide_units wsize n (drop wsize m)"

text \<open>
  \<open>Utf16ToUtf8\<close> where the output buffer is the input buffer: each code point is read from the
  memory as the earlier ones have left it.
\<close>

function Utf16InPlace :: "nat \<Rightarrow> nat \<Rightarrow> nat \<Rightarrow> nat \<Rightarrow> mem \<Rightarrow> mem" where
  "Utf16InPlace wsize n i k m =
     (if i \<ge> n then take k m
      else let ws = wide_units wsize (n - i) (drop (i * wsize) m);
               (cp, more) = Utf16Head wsize (hd ws) (tl ws);
               out = encode_cp cp
           in Utf16InPlace wsize n (i + 1 + more) (k + length out) (mem_write k out m))"
  by pat_completeness auto
termination by (relation "measure (\<lambda>(wsize, n, i, k, m). n - i)") auto

declare Utf16InPlace.simps [simp del]

definition date_days :: "mem \<Rightarrow> int" where
  "date_days d = DaysFromCivil (read_signed 2 d) (read_unsigned 2 (drop 2 d)) (read_unsigned 2 (drop 4 d))"

definition time_seconds :: "mem \<Rightarrow> int" where
  "time_seconds d = FetchTime \<lparr>t_hour = read_unsigned 2 d, t_minute = read_unsigned 2 (drop 2 d), t_second = read_unsigned 2 (drop 4 d)\<rparr>"

definition timestamp_at :: "mem \<Rightarrow> TIMESTAMP_STRUCT" where
  "timestamp_at d = \<lparr>year = read_signed 2 d, month = read_unsigned 2 (drop 2 d), day = read_unsigned 2 (drop 4 d),
     hour = read_unsigned 2 (drop 6 d), minute = read_unsigned 2 (drop 8 d), second = read_unsigned 2 (drop 10 d),
     fraction = read_unsigned 4 (drop 12 d)\<rparr>"

definition bool_char :: "nat \<Rightarrow> bool" where
  "bool_char ch \<longleftrightarrow> char_of ch \<in> {CHR ''t'', CHR ''T'', CHR ''1'', CHR ''y'', CHR ''Y''}"

text \<open>The \<^verbatim>\<open>switch\<close> of \<open>AppendValue\<close>.\<close>

definition parsed_int :: "nat \<Rightarrow> int option \<Rightarrow> arrow_array \<Rightarrow> convert_error + arrow_array" where
  "parsed_int w v a = (case v of None \<Rightarrow> Inl (Failed ADBC_STATUS_INVALID_DATA) | Some x \<Rightarrow> ArrowArrayAppendInt w x a)"

fun AppendKind :: "nat \<Rightarrow> OdbcColumn \<Rightarrow> OdbcFetchKind \<Rightarrow> mem \<Rightarrow> nat \<Rightarrow> bool \<Rightarrow> arrow_array \<Rightarrow> convert_error + arrow_array" where
  "AppendKind wsize c FETCH_BOOL data len in_scratch a = Inr (ArrowArrayAppendBool (data ! 0 \<noteq> 0) a)"
| "AppendKind wsize c FETCH_I8 data len in_scratch a = ArrowArrayAppendInt 1 (read_signed 1 data) a"
| "AppendKind wsize c FETCH_I16 data len in_scratch a = ArrowArrayAppendInt 2 (read_signed 2 data) a"
| "AppendKind wsize c FETCH_I32 data len in_scratch a = ArrowArrayAppendInt 4 (read_signed 4 data) a"
| "AppendKind wsize c FETCH_I64 data len in_scratch a = ArrowArrayAppendInt 8 (read_signed 8 data) a"
| "AppendKind wsize c FETCH_U8 data len in_scratch a = ArrowArrayAppendUInt 1 (read_unsigned 1 data) a"
| "AppendKind wsize c FETCH_U16 data len in_scratch a = ArrowArrayAppendUInt 2 (read_unsigned 2 data) a"
| "AppendKind wsize c FETCH_U32 data len in_scratch a = ArrowArrayAppendUInt 4 (read_unsigned 4 data) a"
| "AppendKind wsize c FETCH_U64 data len in_scratch a = ArrowArrayAppendUInt 8 (read_unsigned 8 data) a"
| "AppendKind wsize c FETCH_F32 data len in_scratch a = Inr (AppendFixed (take 4 data) a)"
| "AppendKind wsize c FETCH_F64 data len in_scratch a = Inr (AppendFixed (take 8 data) a)"
| "AppendKind wsize c FETCH_CHAR data len in_scratch a = ArrowArrayAppendBytes (take len data) a"
| "AppendKind wsize c FETCH_WCHAR data len in_scratch a =
     (let n = len div wsize in
      if in_scratch \<and> bound c
      then ArrowArrayAppendBytes (Utf16InPlace wsize n 0 0 (data @ replicate (Utf16Utf8MaxBytes wsize n + 1) 0)) a
      else ArrowArrayAppendBytes (snd (AppendUtf16 wsize (wide_units wsize n data))) a)"
| "AppendKind wsize c FETCH_BINARY data len in_scratch a = ArrowArrayAppendBytes (take len data) a"
| "AppendKind wsize c FETCH_DATE data len in_scratch a = ArrowArrayAppendInt 4 (date_days data) a"
| "AppendKind wsize c FETCH_TIME data len in_scratch a = ArrowArrayAppendInt 4 (time_seconds data) a"
| "AppendKind wsize c FETCH_TIME_MS data len in_scratch a =
     parsed_int 4 (ParseTimeScaled (map char_of (take len data)) (UnitFractionDigits (c_unit c))) a"
| "AppendKind wsize c FETCH_TIME64 data len in_scratch a =
     parsed_int 8 (ParseTimeScaled (map char_of (take len data)) (UnitFractionDigits (c_unit c))) a"
| "AppendKind wsize c FETCH_TIMESTAMP_TZ data len in_scratch a =
     parsed_int 8 (ParseTimestampUtcScaled (map char_of (take len data)) (UnitFractionDigits (c_unit c))) a"
| "AppendKind wsize c FETCH_TIMESTAMP_TEXT data len in_scratch a =
     parsed_int 8 (ParseTimestampUtcScaled (map char_of (take len data)) (UnitFractionDigits (c_unit c))) a"
| "AppendKind wsize c FETCH_TIMESTAMP data len in_scratch a =
     (case FetchTimestamp (c_unit c) (timestamp_at data) of None \<Rightarrow> Inl Undefined | Some v \<Rightarrow> ArrowArrayAppendInt 8 v a)"
| "AppendKind wsize c FETCH_BOOL_STR data len in_scratch a =
     Inr (ArrowArrayAppendBool (if len > 0 then bool_char (data ! 0) else False) a)"
| "AppendKind wsize c FETCH_DECIMAL data len in_scratch a =
     AppendDecimalString (map char_of (take len data)) (precision c) (scale c) a"

definition AppendValue :: "nat \<Rightarrow> getdata_driver \<Rightarrow> OdbcReader \<Rightarrow> nat \<Rightarrow> nat \<Rightarrow> arrow_array \<Rightarrow> convert_error + arrow_array" where
  "AppendValue wsize drv r i row a =
     (case LoadValue wsize drv r i row of
        Inl e \<Rightarrow> Inl (Failed e)
      | Inr (is_null, data, len, in_scratch) \<Rightarrow>
          (if is_null then Inr (ArrowArrayAppendNull (storage (kind (r_cols r ! i))) a)
           else AppendKind wsize (r_cols r ! i) (kind (r_cols r ! i)) data len in_scratch a))"

subsection \<open>A column at a time\<close>

fun MemcpyWidth :: "OdbcFetchKind \<Rightarrow> nat" where
  "MemcpyWidth FETCH_I8 = 1" | "MemcpyWidth FETCH_U8 = 1"
| "MemcpyWidth FETCH_I16 = 2" | "MemcpyWidth FETCH_U16 = 2"
| "MemcpyWidth FETCH_I32 = 4" | "MemcpyWidth FETCH_U32 = 4" | "MemcpyWidth FETCH_F32 = 4"
| "MemcpyWidth FETCH_I64 = 8" | "MemcpyWidth FETCH_U64 = 8" | "MemcpyWidth FETCH_F64 = 8"
| "MemcpyWidth _ = 0"

definition FixedArrowWidth :: "OdbcFetchKind \<Rightarrow> nat" where
  "FixedArrowWidth k =
     (let w = MemcpyWidth k in
      if w \<noteq> 0 then w
      else case k of
             FETCH_DATE \<Rightarrow> 4 | FETCH_TIME \<Rightarrow> 4 | FETCH_TIME_MS \<Rightarrow> 4
           | FETCH_TIMESTAMP \<Rightarrow> 8 | FETCH_TIMESTAMP_TZ \<Rightarrow> 8 | FETCH_TIMESTAMP_TEXT \<Rightarrow> 8 | FETCH_TIME64 \<Rightarrow> 8
           | FETCH_DECIMAL \<Rightarrow> 16
           | _ \<Rightarrow> 0)"

text \<open>The validity bits of a rowset, appended in runs of equal bits.\<close>

function ValidityRuns :: "bool list \<Rightarrow> bool list" where
  "ValidityRuns vs =
     (case vs of
        [] \<Rightarrow> []
      | v # _ \<Rightarrow> (let j = length (takeWhile (\<lambda>x. x = v) vs) in replicate j v @ ValidityRuns (drop j vs)))"
  by pat_completeness auto
termination by (relation "measure length") auto

declare ValidityRuns.simps [simp del]

definition BulkValidity :: "bool list \<Rightarrow> nat \<Rightarrow> arrow_array \<Rightarrow> arrow_array" where
  "BulkValidity valid nulls a =
     (if nulls = 0 \<and> a_bitmap a = None then a
      else a\<lparr>a_bitmap := Some ((case a_bitmap a of None \<Rightarrow> replicate (a_length a) True | Some b \<Rightarrow> b) @ ValidityRuns valid),
             a_nulls := a_nulls a + nulls\<rparr>)"

text \<open>\<^verbatim>\<open>secs * mul + fraction / div\<close> in signed 64-bit arithmetic.\<close>

definition BulkTimestamp :: "time_unit \<Rightarrow> TIMESTAMP_STRUCT \<Rightarrow> int option" where
  "BulkTimestamp u t =
     (let mul = (if u = SECOND then 1 else if u = MILLI then 1000 else if u = MICRO then 1000000 else 1000000000);
          dv = 1000000000 sdiv mul;
          secs = DaysFromCivil (year t) (month t) (day t) * 86400 + hour t * 3600 + minute t * 60 + second t
      in checked_s64 (secs * mul) \<bind> (\<lambda>x. checked_s64 (x + fraction t sdiv dv)))"

fun BulkTimestamps :: "(nat \<Rightarrow> int option) \<Rightarrow> nat list \<Rightarrow> mem option" where
  "BulkTimestamps f [] = Some []"
| "BulkTimestamps f (row # rows) =
     (case f row of None \<Rightarrow> None
      | Some v \<Rightarrow> (case BulkTimestamps f rows of None \<Rightarrow> None | Some m \<Rightarrow> Some (int_bytes 8 v @ m)))"

text \<open>The offsets and data of the variable-length kinds; \<open>at\<close> is the running 32-bit offset.\<close>

fun BulkVar :: "(nat \<Rightarrow> mem) \<Rightarrow> nat list \<Rightarrow> int \<Rightarrow> int list \<times> mem" where
  "BulkVar f [] at = ([], [])"
| "BulkVar f (row # rows) at =
     (let at = s32 (at + int (length (f row))); (o_rest, d) = BulkVar f rows at in (at # o_rest, f row @ d))"

text \<open>
  The data of a whole column, per kind: a copy of the buffer where it already has the Arrow layout, a
  conversion loop otherwise.
\<close>

definition BulkData :: "nat \<Rightarrow> OdbcColumn \<Rightarrow> (nat \<Rightarrow> int) \<Rightarrow> mem \<Rightarrow> nat \<Rightarrow> arrow_array \<Rightarrow> convert_error + arrow_array" where
  "BulkData wsize c ind base n a =
     (let k = kind c;
          stride = nat (elem_size c);
          at_row = (\<lambda>row. drop (row * stride) base);
          rows = [0..<n];
          width = MemcpyWidth k
      in
      if width > 0 then
        (if stride \<noteq> width then Inl (Failed ADBC_STATUS_NOT_IMPLEMENTED)
         else Inr (a\<lparr>a_data := a_data a @ take (n * width) base\<rparr>))
      else if k = FETCH_DATE \<or> k = FETCH_TIME then
        Inr (a\<lparr>a_data := a_data a @ concat (map (\<lambda>row. int_bytes 4 (if ind row = SQL_NULL_DATA then 0
            else s32 (if k = FETCH_DATE then date_days (at_row row) else time_seconds (at_row row)))) rows)\<rparr>)
      else if k = FETCH_TIMESTAMP then
        (case BulkTimestamps (\<lambda>row. if ind row = SQL_NULL_DATA then Some 0
                              else BulkTimestamp (c_unit c) (timestamp_at (at_row row))) rows of
           None \<Rightarrow> Inl Undefined
         | Some m \<Rightarrow> Inr (a\<lparr>a_data := a_data a @ m\<rparr>))
      else if k = FETCH_BOOL \<or> k = FETCH_BOOL_STR then
        Inr (a\<lparr>a_bits := fold (\<lambda>row bits. bits[a_length a + row :=
                (ind row \<noteq> SQL_NULL_DATA
                 \<and> (if k = FETCH_BOOL then at_row row ! 0 \<noteq> 0
                    else BoundValueLen wsize c (ind row) > 0 \<and> bool_char (at_row row ! 0)))])
            rows (FillBits (a_length a + n) (a_bits a))\<rparr>)
      else
        let len = (\<lambda>row. if ind row = SQL_NULL_DATA then 0 else BoundValueLen wsize c (ind row));
            src_bytes = sum_list (map len rows);
            max_bytes = (if k = FETCH_WCHAR then Utf16Utf8MaxBytes wsize (src_bytes div wsize) else src_bytes);
            start = a_offsets a ! a_length a
        in if start + int max_bytes > INT32_MAX then Inl (Failed ADBC_STATUS_NOT_IMPLEMENTED)
           else let (offs, d) = BulkVar (\<lambda>row. if k = FETCH_WCHAR then Utf16ToUtf8 wsize (wide_units wsize (len row div wsize) (at_row row))
                                          else take (len row) (at_row row)) rows start
                in Inr (a\<lparr>a_offsets := a_offsets a @ offs, a_data := a_data a @ d\<rparr>))"

definition BulkAppendColumn :: "nat \<Rightarrow> OdbcReader \<Rightarrow> nat \<Rightarrow> nat \<Rightarrow> arrow_array \<Rightarrow> convert_error + arrow_array" where
  "BulkAppendColumn wsize r i n a =
     (let c = r_cols r ! i;
          ind = (\<lambda>row. OdbcIndicatorGet (s_indicators (cur_slot r) ! i) row False);
          rows = [0..<n]
      in
      if sqllen_32bit (r_opts r) \<or> ind_stride_32bit (r_opts r) then Inl (Failed ADBC_STATUS_NOT_IMPLEMENTED)
      else if kind c \<in> {FETCH_DECIMAL, FETCH_TIME_MS, FETCH_TIME64, FETCH_TIMESTAMP_TZ, FETCH_TIMESTAMP_TEXT}
        then Inl (Failed ADBC_STATUS_NOT_IMPLEMENTED)
      else if var_ctype (ctype c) \<and> (\<exists>row \<in> set rows. BoundValueTruncated wsize c (ind row))
        then Inl (Failed ADBC_STATUS_NOT_IMPLEMENTED)
      else case BulkData wsize c ind (s_buffers (cur_slot r) ! i) n a of
             Inl e \<Rightarrow> Inl e
           | Inr b \<Rightarrow> Inr ((BulkValidity (map (\<lambda>row. ind row \<noteq> SQL_NULL_DATA) rows)
                            (length (filter (\<lambda>row. ind row = SQL_NULL_DATA) rows)) b)\<lparr>a_length := a_length a + n\<rparr>))"

text \<open>A column of a rowset value by value, as \<open>ConvertRowset\<close> does it when the bulk path declines.\<close>

fun AppendRows :: "nat \<Rightarrow> getdata_driver \<Rightarrow> OdbcReader \<Rightarrow> nat \<Rightarrow> nat list \<Rightarrow> arrow_array \<Rightarrow> convert_error + arrow_array" where
  "AppendRows wsize drv r i [] a = Inr a"
| "AppendRows wsize drv r i (row # rows) a =
     (case AppendValue wsize drv r i row a of Inl e \<Rightarrow> Inl e | Inr a' \<Rightarrow> AppendRows wsize drv r i rows a')"

section \<open>Bulk conversion and value-wise conversion agree\<close>

text \<open>What a value that was not truncated is: its Arrow payload, from the bytes at its address.\<close>

fun kind_value :: "nat \<Rightarrow> OdbcColumn \<Rightarrow> OdbcFetchKind \<Rightarrow> mem \<Rightarrow> int \<Rightarrow> arrow_value" where
  "kind_value wsize c FETCH_BOOL data ind = VBool (data ! 0 \<noteq> 0)"
| "kind_value wsize c FETCH_BOOL_STR data ind = VBool (0 < ind \<and> bool_char (data ! 0))"
| "kind_value wsize c FETCH_DATE data ind = VFixed (int_bytes 4 (date_days data))"
| "kind_value wsize c FETCH_TIME data ind = VFixed (int_bytes 4 (time_seconds data))"
| "kind_value wsize c FETCH_TIMESTAMP data ind = VFixed (int_bytes 8 (the (FetchTimestamp (c_unit c) (timestamp_at data))))"
| "kind_value wsize c FETCH_CHAR data ind = VBytes (take (nat ind) data)"
| "kind_value wsize c FETCH_BINARY data ind = VBytes (take (nat ind) data)"
| "kind_value wsize c FETCH_WCHAR data ind = VBytes (Utf16ToUtf8 wsize (wide_units wsize (nat ind div wsize) data))"
| "kind_value wsize c k data ind = VFixed (take (MemcpyWidth k) data)"

text \<open>The kinds the bulk path handles.\<close>

definition bulk_kind :: "OdbcFetchKind \<Rightarrow> bool" where
  "bulk_kind k \<longleftrightarrow> k \<notin> {FETCH_DECIMAL, FETCH_TIME_MS, FETCH_TIME64, FETCH_TIMESTAMP_TZ, FETCH_TIMESTAMP_TEXT}"

text \<open>
  What a bound buffer has to hold for a value: enough bytes, a date whose day number is a date32, a
  timestamp that neither overflows nor has a fraction of a second or more.
\<close>

definition cell_ok :: "OdbcColumn \<Rightarrow> mem \<Rightarrow> bool" where
  "cell_ok c data \<longleftrightarrow> bytes_ok data \<and> nat (elem_size c) \<le> length data
     \<and> (kind c = FETCH_DATE \<longrightarrow> INT32_MIN \<le> date_days data \<and> date_days data \<le> INT32_MAX)
     \<and> (kind c = FETCH_TIMESTAMP \<longrightarrow> fraction (timestamp_at data) < 1000000000
          \<and> (\<exists>v. FetchTimestamp (c_unit c) (timestamp_at data) = Some v \<and> is_s64 v))"

text \<open>The C type and width \<open>ClassifyColumn\<close> gives a column.\<close>

definition column_ok :: "OdbcColumn \<Rightarrow> bool" where
  "column_ok c \<longleftrightarrow> (var_ctype (ctype c) \<longleftrightarrow> fixed_width (kind c) = None)
     \<and> (\<forall>w. fixed_width (kind c) = Some w \<longrightarrow> elem_size c = w) \<and> elem_size c \<le> INT64_MAX"

lemma time_seconds_range: "bytes_ok d \<Longrightarrow> 0 \<le> time_seconds d \<and> time_seconds d \<le> INT32_MAX"
  using read_unsigned_bounds [of d 2] read_unsigned_bounds [of "drop 2 d" 2] read_unsigned_bounds [of "drop 4 d" 2]
  by (auto simp: time_seconds_def FetchTime_def bytes_ok_drop)

text \<open>One value: the array grows by exactly this value.\<close>

lemma AppendKind_grows:
  assumes "bulk_kind (kind c)" "column_ok c" "cell_ok c data" "arr_ok (storage (kind c)) a" "0 \<le> ind"
    and "\<And>bs. kind_value wsize c (kind c) data ind = VBytes bs \<Longrightarrow> a_offsets a ! a_length a + int (length bs) \<le> INT32_MAX"
  shows "\<exists>a'. AppendKind wsize c (kind c) data (nat ind) False a = Inr a'
       \<and> grows (storage (kind c)) a [True] [kind_value wsize c (kind c) data ind] a'"
proof -
  have b: "bytes_ok data" "nat (elem_size c) \<le> length data" using assms(3) by (simp_all add: cell_ok_def)
  have w: "fixed_width (kind c) = Some (int w) \<Longrightarrow> w \<le> length data" for w
    using assms(2) b(2) by (auto simp: column_ok_def)
  have s: "ArrowArrayAppendInt w (read_signed w data) a = Inr (AppendFixed (take w data) a)" if "0 < w" "w \<le> length data" for w
    using read_signed_bounds [OF that(1), of data] int_bytes_read_signed [OF b(1) that(2)] by (simp add: ArrowArrayAppendInt_def)
  have u: "ArrowArrayAppendUInt w (read_unsigned w data) a = Inr (AppendFixed (take w data) a)" if "w \<le> length data" for w
    using read_unsigned_bounds [OF b(1), of w] int_bytes_read_unsigned [OF b(1) that] by (simp add: ArrowArrayAppendUInt_def)
  note g = grows_AppendFixed [of _ a] grows_AppendBool [of a] grows_AppendBytes [of a]
  have i: "ArrowArrayAppendInt w v a = Inr (AppendFixed (int_bytes w v) a)" if "- (2 ^ (8 * w - 1)) \<le> v" "v < 2 ^ (8 * w - 1)" for w v
    using that by (simp add: ArrowArrayAppendInt_def)
  have y: "\<exists>a'. ArrowArrayAppendBytes bs a = Inr a' \<and> grows Var a [True] [VBytes bs] a'"
    if "kind_value wsize c (kind c) data ind = VBytes bs" "storage (kind c) = Var" for bs
    using assms(6) [OF that(1)] grows_AppendBytes [of a bs] assms(4) that(2) by (auto simp: ArrowArrayAppendBytes_def Let_def)
  show ?thesis
  proof (cases "kind c")
    case FETCH_TIMESTAMP
    then obtain v where "FetchTimestamp (c_unit c) (timestamp_at data) = Some v" "is_s64 v" using assms(3) by (auto simp: cell_ok_def)
    then show ?thesis using FETCH_TIMESTAMP assms(4) g(1) [of 8 "int_bytes 8 v"] i [of 8 v] by (simp add: is_s64_def)
  next
    case FETCH_DATE
    then show ?thesis using assms(3,4) g(1) [of 4 "int_bytes 4 (date_days data)"] i [of 4 "date_days data"] by (simp add: cell_ok_def)
  next
    case FETCH_TIME
    then show ?thesis using assms(4) g(1) [of 4 "int_bytes 4 (time_seconds data)"] i [of 4 "time_seconds data"]
      time_seconds_range [OF b(1)] by simp
  next
    case FETCH_BOOL
    then show ?thesis using assms(4) g(2) by simp
  next
    case FETCH_BOOL_STR
    have "(if 0 < nat ind then bool_char (data ! 0) else False) = (0 < ind \<and> bool_char (data ! 0))" by auto
    then show ?thesis using FETCH_BOOL_STR assms(4) g(2) by simp
  next
    case FETCH_CHAR
    then show ?thesis using y by simp
  next
    case FETCH_BINARY
    then show ?thesis using y by simp
  next
    case FETCH_WCHAR
    then show ?thesis using y by (simp add: AppendUtf16_def)
  next
    case FETCH_I8 then show ?thesis using assms(4) g(1) [of 1 "take 1 data"] s [of 1] w [of 1] by simp
  next
    case FETCH_I16 then show ?thesis using assms(4) g(1) [of 2 "take 2 data"] s [of 2] w [of 2] by simp
  next
    case FETCH_I32 then show ?thesis using assms(4) g(1) [of 4 "take 4 data"] s [of 4] w [of 4] by simp
  next
    case FETCH_I64 then show ?thesis using assms(4) g(1) [of 8 "take 8 data"] s [of 8] w [of 8] by simp
  next
    case FETCH_U8 then show ?thesis using assms(4) g(1) [of 1 "take 1 data"] u [of 1] w [of 1] by simp
  next
    case FETCH_U16 then show ?thesis using assms(4) g(1) [of 2 "take 2 data"] u [of 2] w [of 2] by simp
  next
    case FETCH_U32 then show ?thesis using assms(4) g(1) [of 4 "take 4 data"] u [of 4] w [of 4] by simp
  next
    case FETCH_U64 then show ?thesis using assms(4) g(1) [of 8 "take 8 data"] u [of 8] w [of 8] by simp
  next
    case FETCH_F32 then show ?thesis using assms(4) g(1) [of 4 "take 4 data"] w [of 4] by simp
  next
    case FETCH_F64 then show ?thesis using assms(4) g(1) [of 8 "take 8 data"] w [of 8] by simp
  qed (use assms(1) in \<open>simp_all add: bulk_kind_def\<close>)
qed

lemma col_indicator_bounds: "INT64_MIN \<le> col_indicator r i row \<and> col_indicator r i row \<le> INT64_MAX"
proof -
  have "INT64_MIN \<le> read_signed 8 m \<and> read_signed 8 m \<le> INT64_MAX" "INT64_MIN \<le> read_signed 4 m \<and> read_signed 4 m \<le> INT64_MAX" for m
    using read_signed_bounds [of 8 m] read_signed_bounds [of 4 m] by simp_all
  then show ?thesis by (simp add: col_indicator_def OdbcIndicatorGet_def)
qed

abbreviation row_data :: "OdbcReader \<Rightarrow> nat \<Rightarrow> nat \<Rightarrow> mem" where
  "row_data r i row \<equiv> drop (row * nat (elem_size (r_cols r ! i))) (s_buffers (cur_slot r) ! i)"

abbreviation row_valid :: "OdbcReader \<Rightarrow> nat \<Rightarrow> nat \<Rightarrow> bool" where
  "row_valid r i row \<equiv> col_indicator r i row \<noteq> SQL_NULL_DATA"

text \<open>The payload of a row that was fetched whole.\<close>

definition row_value :: "nat \<Rightarrow> OdbcReader \<Rightarrow> nat \<Rightarrow> nat \<Rightarrow> arrow_value" where
  "row_value wsize r i row =
     (if row_valid r i row
      then kind_value wsize (r_cols r ! i) (kind (r_cols r ! i)) (row_data r i row) (max 0 (col_indicator r i row))
      else null_value (storage (kind (r_cols r ! i))))"

definition row_ok :: "nat \<Rightarrow> OdbcReader \<Rightarrow> nat \<Rightarrow> nat \<Rightarrow> bool" where
  "row_ok wsize r i row \<longleftrightarrow> \<not> BoundValueTruncated wsize (r_cols r ! i) (col_indicator r i row)
     \<and> (row_valid r i row \<longrightarrow> cell_ok (r_cols r ! i) (row_data r i row))"

lemma AppendValue_bound:
  assumes "bound (r_cols r ! i)" "\<not> BoundValueTruncated wsize (r_cols r ! i) (col_indicator r i row)"
  shows "AppendValue wsize drv r i row a =
      (if row_valid r i row
       then AppendKind wsize (r_cols r ! i) (kind (r_cols r ! i)) (row_data r i row) (nat (max 0 (col_indicator r i row))) False a
       else Inr (ArrowArrayAppendNull (storage (kind (r_cols r ! i))) a))"
  using assms col_indicator_bounds [of r i row]
  by (auto simp: AppendValue_def LoadValue_def Let_def u64_id max_def)

lemma AppendValue_grows:
  assumes "bound (r_cols r ! i)" "bulk_kind (kind (r_cols r ! i))" "column_ok (r_cols r ! i)" "row_ok wsize r i row"
    and "arr_ok (storage (kind (r_cols r ! i))) a"
    and "storage (kind (r_cols r ! i)) = Var \<Longrightarrow> a_offsets a ! a_length a + int (vsize (row_value wsize r i row)) \<le> INT32_MAX"
  shows "\<exists>a'. AppendValue wsize drv r i row a = Inr a'
       \<and> grows (storage (kind (r_cols r ! i))) a [row_valid r i row] [row_value wsize r i row] a'"
proof (cases "row_valid r i row")
  case True
  let ?c = "r_cols r ! i" and ?v = "row_value wsize r i row"
  have v: "?v = kind_value wsize ?c (kind ?c) (row_data r i row) (max 0 (col_indicator r i row))"
    using True by (simp add: row_value_def)
  have var: "storage (kind ?c) = Var" if "?v = VBytes bs" for bs
    using that unfolding v by (cases "kind ?c") (simp_all add: bulk_kind_def)
  have "\<exists>a'. AppendKind wsize ?c (kind ?c) (row_data r i row) (nat (max 0 (col_indicator r i row))) False a = Inr a'
       \<and> grows (storage (kind ?c)) a [True] [?v] a'"
    unfolding v
  proof (rule AppendKind_grows)
    fix bs assume "kind_value wsize ?c (kind ?c) (row_data r i row) (max 0 (col_indicator r i row)) = VBytes bs"
    then show "a_offsets a ! a_length a + int (length bs) \<le> INT32_MAX" using assms(6) var v by simp
  qed (use assms True in \<open>auto simp: row_ok_def\<close>)
  then show ?thesis using AppendValue_bound [of r i wsize row drv a] assms(1,4) True by (simp add: row_ok_def)
next
  case False
  then show ?thesis using AppendValue_bound [of r i wsize row drv a] assms(1,4) grows_AppendNull [OF assms(5)]
    by (simp add: row_ok_def row_value_def)
qed

lemma AppendRows_grows:
  assumes "bound (r_cols r ! i)" "bulk_kind (kind (r_cols r ! i))" "column_ok (r_cols r ! i)"
    and "\<forall>row \<in> set rows. row_ok wsize r i row" "arr_ok (storage (kind (r_cols r ! i))) a"
    and "storage (kind (r_cols r ! i)) = Var \<Longrightarrow>
         a_offsets a ! a_length a + int (sum_list (map (\<lambda>row. vsize (row_value wsize r i row)) rows)) \<le> INT32_MAX"
  shows "\<exists>a'. AppendRows wsize drv r i rows a = Inr a'
       \<and> grows (storage (kind (r_cols r ! i))) a (map (row_valid r i) rows) (map (row_value wsize r i) rows) a'"
  using assms(4-6)
proof (induction rows arbitrary: a)
  case Nil
  then show ?case by (simp add: grows_refl)
next
  case (Cons row rows)
  let ?l = "storage (kind (r_cols r ! i))" and ?v = "row_value wsize r i"
  have fits: "?l = Var \<Longrightarrow> a_offsets a ! a_length a + int (vsize (?v row)) \<le> INT32_MAX" using Cons.prems(3) by simp
  obtain b where b: "AppendValue wsize drv r i row a = Inr b" "grows ?l a [row_valid r i row] [?v row] b"
    using AppendValue_grows [OF assms(1-3) _ Cons.prems(2) fits] Cons.prems(1) by auto
  have ok: "arr_ok ?l b" using b(2) by (simp add: grows_def)
  have off: "a_offsets b ! a_length b = a_offsets a ! a_length a + int (vsize (?v row))" if "?l = Var"
    using b(2) Cons.prems(2) var_offset [of a] var_offset [of b] that by (simp add: grows_def arr_ok_def del: layout_ok.simps)
  obtain a' where a': "AppendRows wsize drv r i rows b = Inr a'" "grows ?l b (map (row_valid r i) rows) (map ?v rows) a'"
  proof -
    have "a_offsets b ! a_length b + int (sum_list (map (\<lambda>row. vsize (?v row)) rows)) \<le> INT32_MAX" if "?l = Var"
      using off [OF that] Cons.prems(3) [OF that] by simp
    then show thesis using Cons.IH [OF _ ok] Cons.prems(1) that by auto
  qed
  show ?case using b(1) a'(1) grows_trans [OF b(2) a'(2)] by simp
qed

subsection \<open>The bulk path\<close>

lemma ValidityRuns_id: "ValidityRuns vs = vs"
proof (induction vs rule: ValidityRuns.induct)
  case (1 vs)
  show ?case
  proof (cases vs)
    case (Cons v ws)
    have "replicate (length (takeWhile (\<lambda>x. x = v) vs)) v = takeWhile (\<lambda>x. x = v) vs"
      by (metis (mono_tags, lifting) replicate_length_same set_takeWhileD)
    with 1 [of v ws] Cons show ?thesis
      by (subst ValidityRuns.simps) (metis (no_types, lifting) list.simps(5) takeWhile_dropWhile_id dropWhile_eq_drop)
  qed (simp add: ValidityRuns.simps)
qed

lemma BulkValidity_grows:
  assumes "arr_ok l a" "a_bitmap b = a_bitmap a" "a_nulls b = a_nulls a" "a_length b = a_length a"
    and "nulls = length (filter Not bs)" "a' = (BulkValidity bs nulls b)\<lparr>a_length := a_length a + length bs\<rparr>"
    and "payload l a' = payload l a @ vs" "layout_ok l a'" "length vs = length bs"
  shows "grows l a bs vs a'"
proof -
  have "validity a' = validity a @ bs \<and> a_nulls a' = a_nulls a + length (filter Not bs)"
  proof (cases "nulls = 0 \<and> a_bitmap b = None")
    case True
    then have "\<forall>x \<in> set bs. x" using assms(5) by (auto simp: filter_empty_conv)
    then have "bs = replicate (length bs) True" by (induction bs) auto
    then show ?thesis using True assms by (simp add: BulkValidity_def validity_def flip: replicate_add) (metis replicate_add)
  next
    case False
    then show ?thesis using assms(2-6) by (auto simp: BulkValidity_def validity_def ValidityRuns_id split: option.splits)
  qed
  then show ?thesis using assms by (simp add: grows_def arr_ok_def)
qed

lemma mem_slice_concat:
  assumes "\<And>k. length (f k) = w"
  shows "k < n \<Longrightarrow> mem_slice (k * w) w (concat (map f [0..<n])) = f k" "length (concat (map f [0..<n])) = w * n"
proof -
  have len: "length (concat (map f [0..<n])) = w * n" for n by (induction n) (auto simp: assms algebra_simps)
  then show "length (concat (map f [0..<n])) = w * n" .
  show "mem_slice (k * w) w (concat (map f [0..<n])) = f k" if "k < n" for k
    using that
  proof (induction n)
    case (Suc n)
    show ?case
    proof (cases "k = n")
      case True
      then show ?thesis using mem_slice_append(2) [OF len [of n], of 0 "f n"] assms by (simp add: mem_slice_def)
    next
      case False
      then show ?thesis using Suc mem_slice_append(1) [OF len [of n], of k "f n"] by simp
    qed
  qed simp
qed

lemma BulkTimestamps_concat:
  "BulkTimestamps f rows = Some m \<Longrightarrow> (\<forall>row \<in> set rows. f row \<noteq> None) \<and> m = concat (map (\<lambda>row. int_bytes 8 (the (f row))) rows)"
  by (induction rows arbitrary: m) (auto split: option.splits)

lemma fold_set_bits:
  assumes "p + n \<le> length bits"
  shows "length (fold (\<lambda>row bits. bits[p + row := v row]) [0..<n] bits) = length bits
       \<and> (\<forall>k<length bits. fold (\<lambda>row bits. bits[p + row := v row]) [0..<n] bits ! k
            = (if p \<le> k \<and> k < p + n then v (k - p) else bits ! k))"
  using assms
proof (induction n)
  case (Suc n)
  then show ?case by (auto simp: nth_list_update)
qed auto

lemma payload_BulkVar:
  assumes "layout_ok Var a" "BulkVar f rows (a_offsets a ! a_length a) = (offs, d)"
    and "a_offsets a ! a_length a + int (sum_list (map (\<lambda>row. length (f row)) rows)) \<le> INT32_MAX"
    and "a_length a' = a_length a + length rows" "a_data a' = a_data a @ d" "a_offsets a' = a_offsets a @ offs"
  shows "payload Var a' = payload Var a @ map (\<lambda>row. VBytes (f row)) rows \<and> layout_ok Var a'"
  using assms
proof (induction rows arbitrary: a offs d)
  case Nil
  then have "a_length a' = a_length a" "a_data a' = a_data a" "a_offsets a' = a_offsets a" by auto
  then have e: "array_elem Var a' = array_elem Var a" by (auto intro!: ext)
  with Nil show ?case by (simp add: payload_def)
next
  case (Cons row rows)
  let ?at = "a_offsets a ! a_length a"
  define b where "b = a\<lparr>a_length := a_length a + 1, a_data := a_data a @ f row, a_offsets := a_offsets a @ [?at + int (length (f row))]\<rparr>"
  have at: "0 \<le> ?at" "length (a_offsets a) = Suc (a_length a)" using Cons.prems(1) by auto
  have s: "s32 (?at + int (length (f row))) = ?at + int (length (f row))"
    using at Cons.prems(3) by (intro s32_id) auto
  obtain o' d' where o': "BulkVar f rows (?at + int (length (f row))) = (o', d')" "offs = (?at + int (length (f row))) # o'" "d = f row @ d'"
    using Cons.prems(2) s by (auto simp: Let_def split: prod.splits)
  have bf: "a_offsets b ! a_length b = ?at + int (length (f row))" using at by (simp add: b_def nth_append)
  have p: "payload Var b = payload Var a @ [VBytes (f row)]" "layout_ok Var b"
    using payload_var_one [OF Cons.prems(1), of b "f row"] by (simp_all add: b_def del: layout_ok.simps)
  have "payload Var a' = payload Var b @ map (\<lambda>row. VBytes (f row)) rows \<and> layout_ok Var a'"
    using Cons.prems(3-6) o' by (intro Cons.IH [OF p(2), of o' d']) (auto simp: bf b_def nth_append at)
  then show ?case using p(1) by simp
qed

text \<open>The bulk timestamp formula is the per-value one for every fraction below a second.\<close>

lemma BulkTimestamp_Fetch:
  assumes "BulkTimestamp u t = Some v" "0 \<le> fraction t" "fraction t < 1000000000"
  shows "FetchTimestamp u t = Some v \<and> is_s64 v"
proof -
  have z: "fraction t sdiv 1000000000 = 0" using assms(2,3) by (simp add: sdiv_nonneg)
  have d: "(1000000000::int) sdiv 1000 = 1000000" "(1000000000::int) sdiv 1000000 = 1000" "x sdiv 1 = (x::int)" "(1000000000::int) sdiv 1000000000 = 1" for x
    by (simp_all add: sdiv_nonneg)
  show ?thesis using assms(1) z d
    by (cases u) (auto simp: BulkTimestamp_def FetchTimestamp_def Let_def checked_s64_def split: if_splits)
qed

lemma timestamp_at_fraction: "bytes_ok d \<Longrightarrow> 0 \<le> fraction (timestamp_at d)"
  using read_unsigned_bounds [of "drop 12 d" 4] by (simp add: timestamp_at_def bytes_ok_drop)

text \<open>The buffer the bulk path reserves for the text of a rowset is large enough.\<close>

lemma length_wide_units [simp]: "length (wide_units wsize n m) = n"
  by (induction n arbitrary: m) auto

definition var_bytes :: "nat \<Rightarrow> bool \<Rightarrow> nat \<Rightarrow> mem \<Rightarrow> mem" where
  "var_bytes wsize wide len data =
     (if wide then Utf16ToUtf8 wsize (wide_units wsize (len div wsize) data) else take len data)"

lemma var_bytes_bound:
  assumes "wsize = 2 \<or> wsize = 4"
  shows "sum_list (map (\<lambda>row. length (var_bytes wsize wide (len row) (data row))) rows)
       \<le> (if wide then Utf16Utf8MaxBytes wsize (sum_list (map len rows) div wsize) else sum_list (map len rows))"
proof (cases wide)
  case True
  let ?f = "if wsize < 4 then 3 else (4::nat)"
  have one: "length (var_bytes wsize True n m) \<le> n div wsize * ?f" for n m
    using conjunct2 [OF utf8_output_bound [OF assms, of "wide_units wsize (n div wsize) m"]]
    by (simp add: var_bytes_def Utf16Utf8MaxBytes_def)
  have "sum_list (map (\<lambda>row. length (var_bytes wsize True (len row) (data row))) rows) \<le> sum_list (map len rows) div wsize * ?f"
  proof (induction rows)
    case (Cons row rows)
    have "len row div wsize + sum_list (map len rows) div wsize \<le> (len row + sum_list (map len rows)) div wsize"
      using div_add1_eq [of "len row"] by (metis le_add1)
    then have "(len row div wsize + sum_list (map len rows) div wsize) * ?f \<le> (len row + sum_list (map len rows)) div wsize * ?f"
      by (rule mult_le_mono1)
    with Cons one [of "len row" "data row"] show ?case by (simp add: add_mult_distrib)
  qed simp
  then show ?thesis using True by (simp add: Utf16Utf8MaxBytes_def)
next
  case False
  have "sum_list (map (\<lambda>row. length (var_bytes wsize False (len row) (data row))) rows) \<le> sum_list (map len rows)"
    by (intro sum_list_mono) (simp add: var_bytes_def)
  then show ?thesis using False by simp
qed

lemma BulkValidity_fields [simp]:
  "a_data (BulkValidity bs k a) = a_data a" "a_bits (BulkValidity bs k a) = a_bits a" "a_offsets (BulkValidity bs k a) = a_offsets a"
  by (simp_all add: BulkValidity_def)

lemma storage_memcpy: "MemcpyWidth k \<noteq> 0 \<Longrightarrow> storage k = Fixed (MemcpyWidth k)"
  by (cases k) auto

lemma kind_value_memcpy: "MemcpyWidth k \<noteq> 0 \<Longrightarrow> kind_value wsize c k data ind = VFixed (take (MemcpyWidth k) data)"
  by (cases k) auto

lemma bulk_kinds:
  "bulk_kind k \<Longrightarrow> MemcpyWidth k \<noteq> 0 \<or> k \<in> {FETCH_DATE, FETCH_TIME, FETCH_TIMESTAMP, FETCH_BOOL, FETCH_BOOL_STR, FETCH_CHAR, FETCH_BINARY, FETCH_WCHAR}"
  by (cases k) (auto simp: bulk_kind_def)

lemma BoundValueLen_whole:
  assumes "column_ok c" "var_ctype (ctype c)" "\<not> BoundValueTruncated wsize c ind" "ind \<noteq> SQL_NULL_DATA" "ind \<le> INT64_MAX"
  shows "BoundValueLen wsize c ind = nat ind \<and> 0 \<le> ind"
  using assms u64_id [of ind] by (auto simp: BoundValueLen_def BoundValueTruncated_def BoundValueCap_def Let_def)

text \<open>
  The rowset buffers the bulk path reads: \<open>n\<close> elements of the column's width, date32 dates, and
  fractions below a second.
\<close>

definition rowset_ok :: "OdbcReader \<Rightarrow> nat \<Rightarrow> nat \<Rightarrow> bool" where
  "rowset_ok r i n \<longleftrightarrow>
     (let c = r_cols r ! i in
      bound c \<and> column_ok c \<and> bytes_ok (s_buffers (cur_slot r) ! i)
      \<and> n * nat (elem_size c) \<le> length (s_buffers (cur_slot r) ! i)
      \<and> (\<forall>row<n. row_valid r i row \<longrightarrow>
           (kind c = FETCH_DATE \<longrightarrow> INT32_MIN \<le> date_days (row_data r i row) \<and> date_days (row_data r i row) \<le> INT32_MAX)
         \<and> (kind c = FETCH_TIMESTAMP \<longrightarrow> fraction (timestamp_at (row_data r i row)) < 1000000000)))"

lemma rowset_ok_row: "rowset_ok r i n \<Longrightarrow> row < n \<Longrightarrow> bytes_ok (row_data r i row) \<and> nat (elem_size (r_cols r ! i)) \<le> length (row_data r i row)"
proof -
  assume ok: "rowset_ok r i n" and "row < n"
  then have "Suc row * nat (elem_size (r_cols r ! i)) \<le> n * nat (elem_size (r_cols r ! i))" by (intro mult_le_mono1) simp
  then show ?thesis using ok by (auto simp: rowset_ok_def Let_def)
qed

lemma filter_nulls: "length (filter (\<lambda>row. ind row = SQL_NULL_DATA) rows) = length (filter Not (map (\<lambda>row. ind row \<noteq> SQL_NULL_DATA) rows))"
  by (induction rows) auto

text \<open>The end of the bulk path: validity bits and the length, on top of the data in \<open>b\<close>.\<close>

definition bulk_done :: "OdbcReader \<Rightarrow> nat \<Rightarrow> nat \<Rightarrow> arrow_array \<Rightarrow> arrow_array \<Rightarrow> arrow_array" where
  "bulk_done r i n a b =
     (BulkValidity (map (row_valid r i) [0..<n]) (length (filter Not (map (row_valid r i) [0..<n]))) b)\<lparr>a_length := a_length a + n\<rparr>"

text \<open>The bulk path answered: which guards were passed, and what it did then.\<close>

lemma bulk_guards:
  assumes "BulkAppendColumn wsize r i n a = Inr a'" "column_ok (r_cols r ! i)"
  shows "bulk_kind (kind (r_cols r ! i)) \<and> (\<forall>row<n. \<not> BoundValueTruncated wsize (r_cols r ! i) (col_indicator r i row))
       \<and> (\<exists>b. BulkData wsize (r_cols r ! i) (col_indicator r i) (s_buffers (cur_slot r) ! i) n a = Inr b \<and> a' = bulk_done r i n a b)"
proof -
  let ?c = "r_cols r ! i" and ?ind = "\<lambda>row. OdbcIndicatorGet (s_indicators (cur_slot r) ! i) row False"
  have q: "\<not> sqllen_32bit (r_opts r)" "\<not> ind_stride_32bit (r_opts r)" and k: "bulk_kind (kind ?c)"
    and t: "\<not> (var_ctype (ctype ?c) \<and> (\<exists>row \<in> set [0..<n]. BoundValueTruncated wsize ?c (?ind row)))"
    and e: "\<exists>b. BulkData wsize ?c ?ind (s_buffers (cur_slot r) ! i) n a = Inr b \<and> a' = (BulkValidity (map (\<lambda>row. ?ind row \<noteq> SQL_NULL_DATA) [0..<n])
                            (length (filter (\<lambda>row. ?ind row = SQL_NULL_DATA) [0..<n])) b)\<lparr>a_length := a_length a + n\<rparr>"
    using assms(1) unfolding BulkAppendColumn_def Let_def bulk_kind_def by (auto split: if_splits sum.splits)
  have i: "OdbcIndicatorGet (s_indicators (cur_slot r) ! i) row False = col_indicator r i row" for row
    using q by (simp add: col_indicator_def)
  show ?thesis using k t e unfolding i bulk_done_def filter_nulls [symmetric] by (auto simp: BoundValueTruncated_def)
qed

lemma bulk_done_fields [simp]:
  "a_data (bulk_done r i n a b) = a_data b" "a_bits (bulk_done r i n a b) = a_bits b" "a_offsets (bulk_done r i n a b) = a_offsets b"
  "a_length (bulk_done r i n a b) = a_length a + n"
  by (simp_all add: bulk_done_def)

lemma bulk_done_grows:
  assumes "arr_ok l a" "a_bitmap b = a_bitmap a" "a_nulls b = a_nulls a" "a_length b = a_length a"
    and "payload l (bulk_done r i n a b) = payload l a @ vs \<and> layout_ok l (bulk_done r i n a b)" "length vs = n"
  shows "grows l a (map (row_valid r i) [0..<n]) vs (bulk_done r i n a b)"
  using BulkValidity_grows [OF assms(1-4) refl refl, of "map (row_valid r i) [0..<n]" vs] assms(5,6)
  by (simp add: bulk_done_def)

lemma bulk_grows_fixed:
  assumes "arr_ok (Fixed w) a" "length bs = w * n"
  shows "grows (Fixed w) a (map (row_valid r i) [0..<n]) (map (\<lambda>k. VFixed (mem_slice (k * w) w bs)) [0..<n])
     (bulk_done r i n a (a\<lparr>a_data := a_data a @ bs\<rparr>))"
proof -
  let ?a' = "bulk_done r i n a (a\<lparr>a_data := a_data a @ bs\<rparr>)"
  have ok: "layout_ok (Fixed w) a" using assms(1) by (simp add: arr_ok_def)
  note p = payload_fixed [OF ok assms(2), of ?a']
  show ?thesis using assms(1) p by (intro bulk_done_grows) (simp_all del: layout_ok.simps)
qed

lemma bulk_memcpy:
  assumes "BulkAppendColumn wsize r i n a = Inr a'" "rowset_ok r i n" "MemcpyWidth (kind (r_cols r ! i)) = w" "w \<noteq> 0"
    and "arr_ok (Fixed w) a"
  shows "\<exists>vs. grows (Fixed w) a (map (row_valid r i) [0..<n]) vs a' \<and> (\<forall>k<n. row_valid r i k \<longrightarrow> vs ! k = row_value wsize r i k)"
proof -
  let ?base = "s_buffers (cur_slot r) ! i" and ?c = "r_cols r ! i"
  have c: "column_ok ?c" using assms(2) by (simp add: rowset_ok_def Let_def)
  obtain b where b: "BulkData wsize ?c (col_indicator r i) (s_buffers (cur_slot r) ! i) n a = Inr b" "a' = bulk_done r i n a b"
    using bulk_guards [OF assms(1) c] by blast
  have w: "nat (elem_size ?c) = w" and a': "a' = bulk_done r i n a (a\<lparr>a_data := a_data a @ take (n * w) ?base\<rparr>)"
    using b assms(3,4) by (auto simp: BulkData_def Let_def split: if_splits)
  have len: "length (take (n * w) ?base) = w * n" using assms(2) w by (simp add: rowset_ok_def Let_def algebra_simps)
  have k: "row_value wsize r i k = VFixed (mem_slice (k * w) w (take (n * w) ?base))" if "k < n" "row_valid r i k" for k
    using that assms(3,4) by (simp add: row_value_def kind_value_memcpy mem_slice_take w) (simp add: mem_slice_def)
  show ?thesis unfolding a'
    by (rule exI, rule conjI, rule bulk_grows_fixed [OF assms(5) len]) (simp add: k)
qed

lemma bulk_days:
  assumes "BulkAppendColumn wsize r i n a = Inr a'" "rowset_ok r i n" "kind (r_cols r ! i) = FETCH_DATE \<or> kind (r_cols r ! i) = FETCH_TIME"
    and "arr_ok (Fixed 4) a"
  shows "\<exists>vs. grows (Fixed 4) a (map (row_valid r i) [0..<n]) vs a' \<and> (\<forall>k<n. row_valid r i k \<longrightarrow> vs ! k = row_value wsize r i k)"
proof -
  let ?c = "r_cols r ! i"
  have c: "column_ok ?c" using assms(2) by (simp add: rowset_ok_def Let_def)
  obtain b where b: "BulkData wsize ?c (col_indicator r i) (s_buffers (cur_slot r) ! i) n a = Inr b" "a' = bulk_done r i n a b"
    using bulk_guards [OF assms(1) c] by blast
  define f where "f row = int_bytes 4 (if col_indicator r i row = SQL_NULL_DATA then 0
     else s32 (if kind ?c = FETCH_DATE then date_days (row_data r i row) else time_seconds (row_data r i row)))" for row
  have a': "a' = bulk_done r i n a (a\<lparr>a_data := a_data a @ concat (map f [0..<n])\<rparr>)"
    using b assms(3) unfolding f_def [abs_def] by (auto simp: BulkData_def Let_def)
  have f: "length (f k) = 4" for k by (simp add: f_def)
  have k: "row_value wsize r i k = VFixed (mem_slice (k * 4) 4 (concat (map f [0..<n])))" if "k < n" "row_valid r i k" for k
  proof -
    have "s32 (time_seconds (row_data r i k)) = time_seconds (row_data r i k)"
      using time_seconds_range [of "row_data r i k"] rowset_ok_row [OF assms(2) that(1)] by (intro s32_id) auto
    moreover have "kind ?c = FETCH_DATE \<Longrightarrow> s32 (date_days (row_data r i k)) = date_days (row_data r i k)"
      using assms(2) that by (intro s32_id) (auto simp: rowset_ok_def Let_def)
    ultimately show ?thesis using mem_slice_concat(1) [of f 4 k n] f that assms(3) by (auto simp: row_value_def f_def)
  qed
  show ?thesis unfolding a'
    by (rule exI, rule conjI, rule bulk_grows_fixed [OF assms(4) mem_slice_concat(2) [of f 4 n]]) (simp_all add: k f)
qed

lemma bulk_stamps:
  assumes "BulkAppendColumn wsize r i n a = Inr a'" "rowset_ok r i n" "kind (r_cols r ! i) = FETCH_TIMESTAMP" "arr_ok (Fixed 8) a"
  shows "(\<exists>vs. grows (Fixed 8) a (map (row_valid r i) [0..<n]) vs a' \<and> (\<forall>k<n. row_valid r i k \<longrightarrow> vs ! k = row_value wsize r i k))
       \<and> (\<forall>k<n. row_valid r i k \<longrightarrow> (\<exists>v. FetchTimestamp (c_unit (r_cols r ! i)) (timestamp_at (row_data r i k)) = Some v \<and> is_s64 v))"
proof -
  let ?c = "r_cols r ! i"
  have c: "column_ok ?c" using assms(2) by (simp add: rowset_ok_def Let_def)
  obtain b where b: "BulkData wsize ?c (col_indicator r i) (s_buffers (cur_slot r) ! i) n a = Inr b" "a' = bulk_done r i n a b"
    using bulk_guards [OF assms(1) c] by blast
  define f where "f row = (if col_indicator r i row = SQL_NULL_DATA then Some 0
      else BulkTimestamp (c_unit ?c) (timestamp_at (row_data r i row)))" for row
  obtain m where m: "BulkTimestamps f [0..<n] = Some m" and a': "a' = bulk_done r i n a (a\<lparr>a_data := a_data a @ m\<rparr>)"
    using b assms(3) unfolding f_def [abs_def] by (auto simp: BulkData_def Let_def split: option.splits)
  note mm = BulkTimestamps_concat [OF m]
  let ?g = "\<lambda>row. int_bytes 8 (the (f row))"
  have v: "FetchTimestamp (c_unit ?c) (timestamp_at (row_data r i k)) = f k \<and> (\<exists>v. f k = Some v \<and> is_s64 v)"
    if k: "k < n" "row_valid r i k" for k
  proof -
    obtain v where "f k = Some v" using bspec [OF conjunct1 [OF mm], of k] k(1) by auto
    then have "BulkTimestamp (c_unit ?c) (timestamp_at (row_data r i k)) = Some v" using k by (simp add: f_def)
    moreover have "fraction (timestamp_at (row_data r i k)) < 1000000000" "0 \<le> fraction (timestamp_at (row_data r i k))"
      using assms(2,3) k rowset_ok_row [OF assms(2) k(1)] timestamp_at_fraction by (auto simp: rowset_ok_def Let_def)
    ultimately show ?thesis using BulkTimestamp_Fetch [of "c_unit ?c" _ v] \<open>f k = Some v\<close> by auto
  qed
  have "row_value wsize r i k = VFixed (mem_slice (k * 8) 8 m)" if "k < n" "row_valid r i k" for k
    using that mem_slice_concat(1) [of ?g 8 k n] v [OF that] assms(3) mm by (auto simp: row_value_def)
  moreover have "length m = 8 * n" using mm mem_slice_concat(2) [of ?g 8 n] by simp
  ultimately have "\<exists>vs. grows (Fixed 8) a (map (row_valid r i) [0..<n]) vs a' \<and> (\<forall>k<n. row_valid r i k \<longrightarrow> vs ! k = row_value wsize r i k)"
    unfolding a' by (intro exI [of _ "map (\<lambda>k. VFixed (mem_slice (k * 8) 8 m)) [0..<n]"] conjI bulk_grows_fixed [OF assms(4)]) simp_all
  then show ?thesis using v by metis
qed

lemma bulk_bools:
  assumes "BulkAppendColumn wsize r i n a = Inr a'" "rowset_ok r i n" "kind (r_cols r ! i) = FETCH_BOOL \<or> kind (r_cols r ! i) = FETCH_BOOL_STR"
    and "arr_ok Bits a"
  shows "\<exists>vs. grows Bits a (map (row_valid r i) [0..<n]) vs a' \<and> (\<forall>k<n. row_valid r i k \<longrightarrow> vs ! k = row_value wsize r i k)"
proof -
  let ?c = "r_cols r ! i"
  have c: "column_ok ?c" using assms(2) by (simp add: rowset_ok_def Let_def)
  note g = bulk_guards [OF assms(1) c]
  obtain b where b: "BulkData wsize ?c (col_indicator r i) (s_buffers (cur_slot r) ! i) n a = Inr b" "a' = bulk_done r i n a b"
    using g by blast
  define v where "v row = (row_valid r i row
       \<and> (if kind ?c = FETCH_BOOL then row_data r i row ! 0 \<noteq> 0
          else BoundValueLen wsize ?c (col_indicator r i row) > 0 \<and> bool_char (row_data r i row ! 0)))" for row
  let ?fill = "FillBits (a_length a + n) (a_bits a)"
  have bb: "b = a\<lparr>a_bits := fold (\<lambda>row bits. bits[a_length a + row := v row]) [0..<n] ?fill\<rparr>"
    using b(1) assms(3) unfolding v_def [abs_def] by (auto simp: BulkData_def Let_def)
  have len: "length ?fill = 8 * BytesForBits (a_length a + n)" "a_length a \<le> length (a_bits a)"
    using assms(4) BytesForBits_le [of "a_length a"] by (auto simp: arr_ok_def intro: length_FillBits)
  then have fits: "a_length a + n \<le> length ?fill" using BytesForBits_le [of "a_length a + n"] by simp
  note f = fold_set_bits [OF fits, of v]
  have p: "payload Bits a' = payload Bits a @ map (\<lambda>k. VBool (v k)) [0..<n] \<and> layout_ok Bits a'"
    using payload_bits [of a a' n v] assms(4) f len fits by (simp add: b(2) bb arr_ok_def nth_FillBits)
  have "v k = (0 < col_indicator r i k \<and> bool_char (row_data r i k ! 0))" if "k < n" "row_valid r i k" "kind ?c = FETCH_BOOL_STR" for k
  proof -
    have "var_ctype (ctype ?c)" using c that(3) by (simp add: column_ok_def)
    then show ?thesis using that g BoundValueLen_whole [OF c, of wsize "col_indicator r i k"] col_indicator_bounds [of r i k]
      by (auto simp: v_def)
  qed
  moreover have "v k = (row_data r i k ! 0 \<noteq> 0)" if "row_valid r i k" "kind ?c = FETCH_BOOL" for k using that by (simp add: v_def)
  ultimately have vals: "\<forall>k<n. row_valid r i k \<longrightarrow> map (\<lambda>k. VBool (v k)) [0..<n] ! k = row_value wsize r i k"
    using assms(3) by (auto simp: row_value_def)
  have "grows Bits a (map (row_valid r i) [0..<n]) (map (\<lambda>k. VBool (v k)) [0..<n]) a'"
    using assms(4) p unfolding b(2) by (intro bulk_done_grows) (simp_all add: bb)
  with vals show ?thesis by blast
qed

lemma bulk_vars:
  assumes "BulkAppendColumn wsize r i n a = Inr a'" "rowset_ok r i n" "storage (kind (r_cols r ! i)) = Var"
    and "arr_ok Var a" "wsize = 2 \<or> wsize = 4"
  shows "(\<exists>vs. grows Var a (map (row_valid r i) [0..<n]) vs a' \<and> (\<forall>k<n. vs ! k = row_value wsize r i k))
       \<and> a_offsets a ! a_length a + int (sum_list (map (\<lambda>row. vsize (row_value wsize r i row)) [0..<n])) \<le> INT32_MAX"
proof -
  let ?c = "r_cols r ! i" and ?start = "a_offsets a ! a_length a"
  let ?wide = "kind ?c = FETCH_WCHAR"
  have k: "kind ?c = FETCH_CHAR \<or> kind ?c = FETCH_BINARY \<or> ?wide" using assms(3) by (cases "kind ?c") auto
  have c: "column_ok ?c" "var_ctype (ctype ?c)" using assms(2) k by (auto simp: rowset_ok_def Let_def column_ok_def)
  note g = bulk_guards [OF assms(1) c(1)]
  obtain b where b: "BulkData wsize ?c (col_indicator r i) (s_buffers (cur_slot r) ! i) n a = Inr b" "a' = bulk_done r i n a b"
    using g by blast
  define len where "len row = (if col_indicator r i row = SQL_NULL_DATA then 0 else BoundValueLen wsize ?c (col_indicator r i row))" for row
  define f where "f row = var_bytes wsize ?wide (len row) (row_data r i row)" for row
  have max: "?start + int (if ?wide then Utf16Utf8MaxBytes wsize (sum_list (map len [0..<n]) div wsize) else sum_list (map len [0..<n])) \<le> INT32_MAX"
    and bb: "\<exists>offs d. BulkVar f [0..<n] ?start = (offs, d) \<and> b = a\<lparr>a_offsets := a_offsets a @ offs, a_data := a_data a @ d\<rparr>"
    using b(1) k unfolding len_def [abs_def] f_def [abs_def] var_bytes_def by (auto simp: BulkData_def Let_def split: if_splits prod.splits)
  then obtain offs d where od: "BulkVar f [0..<n] ?start = (offs, d)" "b = a\<lparr>a_offsets := a_offsets a @ offs, a_data := a_data a @ d\<rparr>"
    by blast
  have sum: "?start + int (sum_list (map (\<lambda>row. length (f row)) [0..<n])) \<le> INT32_MAX"
    using max var_bytes_bound [OF assms(5), of ?wide len "row_data r i" "[0..<n]"] unfolding f_def by linarith
  have p: "payload Var a' = payload Var a @ map (\<lambda>row. VBytes (f row)) [0..<n] \<and> layout_ok Var a'"
    using assms(4) by (intro payload_BulkVar [OF _ od(1) sum]) (simp_all add: b(2) od(2) arr_ok_def del: layout_ok.simps)
  have vals: "row_value wsize r i row = VBytes (f row)" if "row < n" for row
  proof (cases "row_valid r i row")
    case True
    then have "len row = nat (max 0 (col_indicator r i row))"
      using BoundValueLen_whole [OF c, of wsize "col_indicator r i row"] g that col_indicator_bounds [of r i row] by (auto simp: len_def)
    then show ?thesis using True k by (auto simp: row_value_def f_def var_bytes_def)
  next
    case False
    then show ?thesis using assms(3) by (simp add: row_value_def f_def var_bytes_def len_def)
  qed
  have "grows Var a (map (row_valid r i) [0..<n]) (map (\<lambda>row. VBytes (f row)) [0..<n]) a'"
    using assms(4) p unfolding b(2) by (intro bulk_done_grows) (simp_all add: od(2))
  then have "\<exists>vs. grows Var a (map (row_valid r i) [0..<n]) vs a' \<and> (\<forall>k<n. vs ! k = row_value wsize r i k)"
    by (intro exI conjI) (auto simp: vals)
  moreover have "sum_list (map (\<lambda>row. vsize (row_value wsize r i row)) [0..<n]) = sum_list (map (\<lambda>row. length (f row)) [0..<n])"
    by (intro arg_cong [of _ _ sum_list] map_cong refl) (simp add: vals)
  ultimately show ?thesis using sum by presburger
qed

text \<open>The bulk path, for every kind it handles.\<close>

lemma bulk_grows:
  assumes "BulkAppendColumn wsize r i n a = Inr a'" "rowset_ok r i n" "arr_ok (storage (kind (r_cols r ! i))) a" "wsize = 2 \<or> wsize = 4"
  shows "(\<exists>vs. grows (storage (kind (r_cols r ! i))) a (map (row_valid r i) [0..<n]) vs a'
              \<and> (\<forall>k<n. row_valid r i k \<or> storage (kind (r_cols r ! i)) = Var \<longrightarrow> vs ! k = row_value wsize r i k))
       \<and> (\<forall>row<n. row_ok wsize r i row)
       \<and> (storage (kind (r_cols r ! i)) = Var \<longrightarrow>
          a_offsets a ! a_length a + int (sum_list (map (\<lambda>row. vsize (row_value wsize r i row)) [0..<n])) \<le> INT32_MAX)"
proof -
  let ?c = "r_cols r ! i"
  have c: "column_ok ?c" using assms(2) by (simp add: rowset_ok_def Let_def)
  note g = bulk_guards [OF assms(1) c]
  have stamps: "kind ?c = FETCH_TIMESTAMP \<Longrightarrow> \<forall>k<n. row_valid r i k \<longrightarrow>
      (\<exists>v. FetchTimestamp (c_unit ?c) (timestamp_at (row_data r i k)) = Some v \<and> is_s64 v)"
    using bulk_stamps [OF assms(1,2)] assms(3) by simp
  have "\<forall>row<n. row_ok wsize r i row"
    using g rowset_ok_row [OF assms(2)] assms(2) stamps by (auto simp: row_ok_def cell_ok_def rowset_ok_def Let_def)
  moreover consider "MemcpyWidth (kind ?c) \<noteq> 0" | "kind ?c = FETCH_DATE \<or> kind ?c = FETCH_TIME" | "kind ?c = FETCH_TIMESTAMP"
    | "kind ?c = FETCH_BOOL \<or> kind ?c = FETCH_BOOL_STR" | "storage (kind ?c) = Var"
    using bulk_kinds [of "kind ?c"] g by auto
  then have "(\<exists>vs. grows (storage (kind ?c)) a (map (row_valid r i) [0..<n]) vs a'
          \<and> (\<forall>k<n. row_valid r i k \<or> storage (kind ?c) = Var \<longrightarrow> vs ! k = row_value wsize r i k))
     \<and> (storage (kind ?c) = Var \<longrightarrow> a_offsets a ! a_length a + int (sum_list (map (\<lambda>row. vsize (row_value wsize r i row)) [0..<n])) \<le> INT32_MAX)"
  proof cases
    case 1
    then show ?thesis using bulk_memcpy [OF assms(1,2) refl] assms(3) storage_memcpy [of "kind ?c"] by simp
  next
    case 2
    moreover from this have "storage (kind ?c) = Fixed 4" by auto
    ultimately show ?thesis using bulk_days [OF assms(1,2)] assms(3) by simp
  next
    case 3
    then show ?thesis using bulk_stamps [OF assms(1,2)] assms(3) by simp
  next
    case 4
    moreover from this have "storage (kind ?c) = Bits" by auto
    ultimately show ?thesis using bulk_bools [OF assms(1,2)] assms(3) by simp
  next
    case 5
    then show ?thesis using bulk_vars [OF assms(1,2)] assms(3,4) by simp
  qed
  ultimately show ?thesis by blast
qed

text \<open>When it declines, it says so with \<^verbatim>\<open>ADBC_STATUS_NOT_IMPLEMENTED\<close>: no value overflows.\<close>

lemma BulkTimestamp_complete:
  assumes "FetchTimestamp u t = Some v" "is_s64 v" "0 \<le> fraction t" "fraction t < 1000000000"
  shows "BulkTimestamp u t = Some v"
proof -
  have z: "fraction t sdiv 1000000000 = 0" using assms(3,4) by (simp add: sdiv_nonneg)
  have d: "(1000000000::int) sdiv 1000 = 1000000" "(1000000000::int) sdiv 1000000 = 1000" "x sdiv 1 = (x::int)" "(1000000000::int) sdiv 1000000000 = 1" for x
    by (simp_all add: sdiv_nonneg)
  show ?thesis using assms(1,2) z d
    by (cases u) (auto simp: BulkTimestamp_def FetchTimestamp_def Let_def checked_s64_def split: if_splits)
qed

lemma BulkTimestamps_total: "\<forall>row \<in> set rows. f row \<noteq> None \<Longrightarrow> \<exists>m. BulkTimestamps f rows = Some m"
  by (induction rows) auto

lemma bulk_declines:
  assumes "BulkAppendColumn wsize r i n a = Inl e" "rowset_ok r i n" "\<forall>row<n. row_ok wsize r i row"
  shows "e = Failed ADBC_STATUS_NOT_IMPLEMENTED"
proof (rule ccontr)
  let ?c = "r_cols r ! i"
  let ?f = "\<lambda>row. if col_indicator r i row = SQL_NULL_DATA then Some 0 else BulkTimestamp (c_unit ?c) (timestamp_at (row_data r i row))"
  assume ne: "e \<noteq> Failed ADBC_STATUS_NOT_IMPLEMENTED"
  then have q: "\<not> sqllen_32bit (r_opts r)" "\<not> ind_stride_32bit (r_opts r)"
    and e: "BulkData wsize ?c (\<lambda>row. OdbcIndicatorGet (s_indicators (cur_slot r) ! i) row False) (s_buffers (cur_slot r) ! i) n a = Inl e"
    using assms(1) unfolding BulkAppendColumn_def Let_def by (auto split: if_splits sum.splits)
  have i: "OdbcIndicatorGet (s_indicators (cur_slot r) ! i) row False = col_indicator r i row" for row
    using q by (simp add: col_indicator_def)
  have "kind ?c = FETCH_TIMESTAMP" "BulkTimestamps ?f [0..<n] = None"
    using e ne unfolding i by (auto simp: BulkData_def Let_def split: if_splits option.splits prod.splits)
  moreover have "\<forall>row \<in> set [0..<n]. ?f row \<noteq> None"
  proof
    fix row assume "row \<in> set [0..<n]"
    then have k: "row < n" by simp
    show "?f row \<noteq> None"
      using assms(3) k \<open>kind ?c = FETCH_TIMESTAMP\<close> BulkTimestamp_complete [of "c_unit ?c" "timestamp_at (row_data r i row)"]
        timestamp_at_fraction [of "row_data r i row"] rowset_ok_row [OF assms(2) k] by (auto simp: row_ok_def cell_ok_def)
  qed
  ultimately show False using BulkTimestamps_total [of "[0..<n]" ?f] by auto
qed

lemma mask_eq: "length vs = length ws \<Longrightarrow> (\<And>k. k < length bs \<Longrightarrow> bs ! k \<Longrightarrow> vs ! k = ws ! k) \<Longrightarrow> mask bs vs = mask bs ws"
  by (intro nth_equalityI) (auto simp: mask_def)

text \<open>
  C8. Converting a rowset a column at a time is the same as converting it value by value: whenever
  the bulk path answers, the per-value path succeeds too, whatever the driver's calls would answer, and both
  arrays are well-formed with the same length, null count, nulls and values, for every column
  kind, also where the bytes under a null differ.
\<close>

theorem bulk_equals_per_value:
  assumes "BulkAppendColumn wsize r i n a = Inr a'" "rowset_ok r i n"
    and "arr_ok (storage (kind (r_cols r ! i))) a" "wsize = 2 \<or> wsize = 4"
  shows "\<exists>b. AppendRows wsize drv r i [0..<n] a = Inr b
       \<and> array_values (storage (kind (r_cols r ! i))) a' = array_values (storage (kind (r_cols r ! i))) b
       \<and> a_length a' = a_length b \<and> a_nulls a' = a_nulls b \<and> validity a' = validity b
       \<and> arr_ok (storage (kind (r_cols r ! i))) a' \<and> arr_ok (storage (kind (r_cols r ! i))) b"
proof -
  let ?c = "r_cols r ! i" and ?l = "storage (kind (r_cols r ! i))"
  obtain vs where vs: "grows ?l a (map (row_valid r i) [0..<n]) vs a'"
      "\<forall>k<n. row_valid r i k \<or> ?l = Var \<longrightarrow> vs ! k = row_value wsize r i k"
    and ok: "\<forall>row<n. row_ok wsize r i row"
    and fits: "?l = Var \<longrightarrow> a_offsets a ! a_length a + int (sum_list (map (\<lambda>row. vsize (row_value wsize r i row)) [0..<n])) \<le> INT32_MAX"
    using bulk_grows [OF assms] by blast
  have c: "bound ?c" "column_ok ?c" using assms(2) by (simp_all add: rowset_ok_def Let_def)
  have k: "bulk_kind (kind ?c)" using bulk_guards [OF assms(1) c(2)] by blast
  obtain b where b: "AppendRows wsize drv r i [0..<n] a = Inr b"
    "grows ?l a (map (row_valid r i) [0..<n]) (map (row_value wsize r i) [0..<n]) b"
    using AppendRows_grows [OF c(1) k c(2), of "[0..<n]" wsize a drv] ok fits assms(3) by auto
  have "mask (map (row_valid r i) [0..<n]) vs = mask (map (row_valid r i) [0..<n]) (map (row_value wsize r i) [0..<n])"
    using vs by (intro mask_eq) (auto simp: grows_def)
  then have "array_values ?l a' = array_values ?l b"
    using grows_values [OF assms(3) vs(1)] grows_values [OF assms(3) b(2)] by simp
  moreover have "validity a' = validity b" "arr_ok ?l a'" "arr_ok ?l b" using vs(1) b(2) by (simp_all add: grows_def)
  ultimately show ?thesis using b(1) by (auto simp: arr_ok_def)
qed

text \<open>A rowset of two 16-bit integers, the second null.\<close>

definition demo_int_column :: OdbcColumn where
  "demo_int_column = \<lparr>c_name = ''a'', sql_type = 5, column_size = 5, decimal_digits = 0, nullable = 1, kind = FETCH_I16,
     ctype = SQL_C_SSHORT, elem_size = 2, bound = True, clipped = False, trunc_bytes = 0, c_unit = SECOND, precision = 0, scale = 0\<rparr>"

definition demo_reader :: "OdbcColumn \<Rightarrow> mem \<Rightarrow> mem \<Rightarrow> nat \<Rightarrow> OdbcReader" where
  "demo_reader c buf ind n = \<lparr>r_opts = demo_opts, r_cols = [c], r_rows_per_fetch = n, r_rows_seen = 0, r_rows_seen_exact = True,
     r_rowsets_read = 0, r_rowsets_repaired = 0, r_adapt_open = False, r_adapt_rows = 0, r_rowset_restore = False,
     r_rowset_full = n, r_no_rows_fetched_ptr = False, r_done = False, r_bound = True, r_all_bound = True,
     r_slots = [\<lparr>s_buffers = [buf], s_indicators = [ind], s_row_status = replicate n 0, s_rows_fetched_raw = int n, s_fetched = n,
       s_first_row = 1, s_eos = False, s_needs_repair = False\<rparr>], r_cur_slot = 0, r_prefetching = False\<rparr>"

definition demo_int_reader :: OdbcReader where
  "demo_int_reader = demo_reader demo_int_column [0xFE, 0xFF, 7, 0] (int_bytes 8 2 @ int_bytes 8 (- 1)) 2"

lemma demo_int_bulk: "\<exists>a'. BulkAppendColumn 2 demo_int_reader 0 2 ArrowArrayStart = Inr a'"
  by (simp add: BulkAppendColumn_def BulkData_def demo_int_reader_def demo_reader_def demo_int_column_def cur_slot_def demo_opts_def
      var_ctype_def Let_def)

lemma demo_int_ok: "rowset_ok demo_int_reader 0 2"
  by (simp add: rowset_ok_def demo_int_reader_def demo_reader_def demo_int_column_def cur_slot_def column_ok_def var_ctype_def Let_def)

theorem bulk_equals_per_value_witness:
  "\<exists>a' b. BulkAppendColumn 2 demo_int_reader 0 2 ArrowArrayStart = Inr a'
     \<and> AppendRows 2 \<lparr>set_pos = (\<lambda>_. None), get_data = (\<lambda>_ _. [])\<rparr> demo_int_reader 0 [0..<2] ArrowArrayStart = Inr b
     \<and> array_values (Fixed 2) a' = array_values (Fixed 2) b"
proof -
  have "storage (kind (r_cols demo_int_reader ! 0)) = Fixed 2" by (simp add: demo_int_reader_def demo_reader_def demo_int_column_def)
  then show ?thesis
    using demo_int_bulk bulk_equals_per_value [OF _ demo_int_ok arr_ok_start, of 2 _ "\<lparr>set_pos = (\<lambda>_. None), get_data = (\<lambda>_ _. [])\<rparr>"]
    by fastforce
qed

section \<open>Long values\<close>

text \<open>
  How ODBC has a driver answer \<^verbatim>\<open>SQLGetData\<close> with a buffer of 65536 bytes for the value \<open>v\<close>: pieces
  with room for the terminator, each but the last with \<^verbatim>\<open>01004\<close> and, as the indicator, either what was
  left before the call or \<^verbatim>\<open>SQL_NO_TOTAL\<close>.
\<close>

definition gd_buffer :: "mem \<Rightarrow> mem" where
  "gd_buffer piece = piece @ replicate (65536 - length piece) 0"

function gd_pieces :: "nat \<Rightarrow> bool \<Rightarrow> mem \<Rightarrow> gd list" where
  "gd_pieces trm no_total v =
     (if length v \<le> 65536 - trm \<or> 65536 \<le> trm then [GdChunk (gd_buffer v) (int (length v)) True False]
      else GdChunk (gd_buffer (take (65536 - trm) v)) (if no_total then SQL_NO_TOTAL else int (length v)) False True
           # gd_pieces trm no_total (drop (65536 - trm) v))"
  by pat_completeness auto
termination by (relation "measure (\<lambda>(trm, no_total, v). length v)") auto

declare gd_pieces.simps [simp del]

lemma GetDataLoop_pieces:
  assumes "trm \<in> {0, 1, 2, 4}" "trm \<le> 1 \<or> trm dvd length v" "int (length v) \<le> INT64_MAX"
  shows "GetDataLoop trm block first (gd_pieces trm no_total v) scratch = Inr (False, scratch @ v)"
  using assms
proof (induction trm no_total v arbitrary: first scratch rule: gd_pieces.induct)
  case (1 trm no_total v)
  let ?n = "65536 - trm"
  have u: "u64 (int (length v)) = int (length v)" using 1(4) by (intro u64_id) auto
  have t: "take k (gd_buffer w) = take k w" if "k \<le> length w" for k w using that by (simp add: gd_buffer_def)
  show ?case
  proof (cases "length v \<le> ?n")
    case True
    have "65536 \<le> length v \<Longrightarrow> 65536 - trm = length v" using True by simp
    then show ?thesis using True t [of "length v" v] u
      by (subst gd_pieces.simps) (auto simp: Let_def not_le)
  next
    case False
    have big: "65536 \<le> length v"
    proof (cases "trm \<le> 1")
      case False
      then obtain q where q: "length v = trm * q" "trm = 2 \<or> trm = 4" using 1(2,3) by (auto elim: dvdE)
      then show ?thesis using \<open>\<not> length v \<le> ?n\<close> by (elim disjE; simp; presburger)
    qed (use \<open>\<not> length v \<le> ?n\<close> in simp)
    have dvd: "trm \<le> 1 \<or> trm dvd length (drop ?n v)"
    proof -
      have "trm dvd ?n" if "trm = 2 \<or> trm = 4" using that by auto
      then show ?thesis using 1(2,3) by (auto simp: dvd_diff_nat)
    qed
    have len: "int (length (drop ?n v)) \<le> INT64_MAX" using 1(4) by simp
    have guard: "\<not> (length v \<le> 65536 - trm \<or> 65536 \<le> trm)" using False 1(2) by auto
    have ind: "(if no_total then SQL_NO_TOTAL else int (length v)) \<noteq> SQL_NULL_DATA"
      "(if no_total then SQL_NO_TOTAL else int (length v)) = SQL_NO_TOTAL \<or> u64 (if no_total then SQL_NO_TOTAL else int (length v)) \<ge> 65536"
      using u big by simp_all
    have ih: "GetDataLoop trm block False (gd_pieces trm no_total (drop ?n v)) (scratch @ take ?n v) = Inr (False, (scratch @ take ?n v) @ drop ?n v)"
      using 1(1) [OF guard 1(2) dvd len] .
    show ?thesis
      using ih t [of ?n "take ?n v"] guard ind False
      by (subst gd_pieces.simps) (simp only: if_False if_True GetDataLoop.simps Let_def length_take min_def append_take_drop_id append_assoc, simp)
  qed
qed


definition demo_text_column :: "OdbcFetchKind \<Rightarrow> c_type \<Rightarrow> bool \<Rightarrow> OdbcColumn" where
  "demo_text_column k t b = \<lparr>c_name = ''t'', sql_type = -1, column_size = 0, decimal_digits = 0, nullable = 1, kind = k,
     ctype = t, elem_size = 4, bound = b, clipped = True, trunc_bytes = 0, c_unit = SECOND, precision = 0, scale = 0\<rparr>"


text \<open>
  A wide-character value that outgrew its bound buffer is corrupted by its repair.  The re-read
  value lies in the reader's scratch buffer and is transcoded into that same buffer, because the
  test for the separate buffer is whether the column is bound: the three bytes of the first
  character of U+4E2D U+6587 overwrite half of the second before it is read.  The same units
  transcoded from another buffer come out right, as they do for an unbound column.
\<close>

theorem repaired_wide_value_corrupted:
  "(let drv = \<lparr>set_pos = (\<lambda>_. None), get_data = (\<lambda>_ _. [GdChunk [0x2D, 0x4E, 0x87, 0x65] 4 True False])\<rparr>;
        utf8 = [0xE4, 0xB8, 0xAD, 0xE6, 0x96, 0x87];
        r = (\<lambda>b. demo_reader (demo_text_column FETCH_WCHAR SQL_C_WCHAR b) [0x2D, 0x4E, 0, 0] (int_bytes 8 4) 1)
    in map_sum id a_data (AppendValue 2 drv (r False) 0 0 ArrowArrayStart) = Inr utf8
       \<and> Utf16ToUtf8 2 [0x4E2D, 0x6587] = utf8
       \<and> map_sum id a_data (AppendValue 2 drv (r True) 0 0 ArrowArrayStart) \<noteq> Inr utf8)"
proof -
  let ?m = "[0x2D, 0x4E, 0x87, 0x65] @ replicate 7 0 :: mem"
  have e: "encode_cp 0x4E2D = [0xE4, 0xB8, 0xAD]" "encode_cp 0x6587 = [0xE6, 0x96, 0x87]" "encode_cp 0x65AD = [0xE6, 0x96, 0xAD]"
    by (simp_all add: encode_cp_utf8 utf8_def)
  have w: "wide_units 2 2 (0x2D # 0x4E # 0x87 # 0x65 # m) = [0x4E2D, 0x6587]" "wide_units 2 1 (0xAD # 0x65 # m) = [0x65AD]" for m
    by (simp_all add: numeral_2_eq_2)
  have u: "Utf16ToUtf8 2 [0x4E2D, 0x6587] = [0xE4, 0xB8, 0xAD, 0xE6, 0x96, 0x87]"
    using e by (simp add: Utf16Head_def wide_cp_def)
  note h = Utf16Head_def wide_cp_def mem_write_def Let_def e
  have "Utf16InPlace 2 2 0 0 ?m = Utf16InPlace 2 2 1 3 (0xE4 # 0xB8 # 0xAD # 0x65 # replicate 7 0)"
    by (subst Utf16InPlace.simps) (simp add: w(1) h numeral_3_eq_3)
  also have "\<dots> = Utf16InPlace 2 2 2 6 (0xE4 # 0xB8 # 0xAD # 0xE6 # 0x96 # 0xAD # replicate 5 0)"
    using w(2) by (subst Utf16InPlace.simps) (simp add: h flip: numeral_2_eq_2)
  also have "\<dots> = [0xE4, 0xB8, 0xAD, 0xE6, 0x96, 0xAD]" by (subst Utf16InPlace.simps) simp
  finally have p: "Utf16InPlace 2 2 0 0 ?m = [0xE4, 0xB8, 0xAD, 0xE6, 0x96, 0xAD]" .
  note d = AppendValue_def LoadValue_def GetDataLong_def PositionOnRow_def demo_reader_def demo_text_column_def demo_opts_def cur_slot_def
    col_indicator_def OdbcIndicatorGet_def BoundValueTruncated_def BoundValueCap_def var_ctype_def term_size_def
    mem_slice_def read_signed_int_bytes AppendUtf16_def Utf16Utf8MaxBytes_def ArrowArrayAppendBytes_def AppendValid_def ArrowArrayStart_def u64_def Let_def
  show ?thesis using u p p [unfolded numeral_2_eq_2] w(1) by (simp add: d flip: numeral_2_eq_2)
qed

end
