(* ===== verification/Reader.thy ===== *)
theory Reader
  imports Convert
begin

text \<open>
  The fetch loop of \<^verbatim>\<open>src/odbc_reader.c\<close>: how large a rowset is bound, reading rowsets into Arrow
  batches, repairing rowsets whose values were cut, and giving up bindings that are too narrow.

  The driver is what its calls answer.  A cursor's position is the number of rows it has produced,
  which the reader counts in \<^verbatim>\<open>rows_seen\<close>: \<open>oc_fetch p n\<close> is \<^verbatim>\<open>SQLFetch\<close> with a rowset of \<open>n\<close> rows
  after \<open>p\<close> rows, \<open>oc_scroll k\<close> is \<^verbatim>\<open>SQLFetchScroll(SQL_FETCH_ABSOLUTE, k)\<close> with a rowset of one row, and
  \<open>oc_getdata p\<close> answers \<^verbatim>\<open>SQLSetPos\<close> and \<^verbatim>\<open>SQLGetData\<close> in the rowset after \<open>p\<close> rows.  Where a call
  returns only success or failure, \<open>Some\<close> is the status its diagnostics map to.

  A fetch loop over an arbitrary driver may not end, so it takes fuel and is \<open>None\<close> without it;
  \<open>reader_delivers_table\<close> shows which fuel suffices for a driver that serves a table.
\<close>

abbreviation (input) SQL_ROW_NOROW :: nat where "SQL_ROW_NOROW \<equiv> 3"
abbreviation (input) SQL_ROW_ERROR :: nat where "SQL_ROW_ERROR \<equiv> 5"

subsection \<open>The driver\<close>

datatype fetch_answer = FetchNoData | FetchError status | Fetched "mem list" "mem list" "nat list" int

record odbc_cursor =
  oc_fetch :: "int \<Rightarrow> nat \<Rightarrow> fetch_answer"
  oc_scroll :: "int \<Rightarrow> fetch_answer"
  oc_getdata :: "int \<Rightarrow> getdata_driver"
  oc_resize :: "nat \<Rightarrow> status option"
  oc_bind :: "nat \<Rightarrow> status option"
  oc_rows_fetched_ptr :: bool
  oc_mutex :: bool
  oc_cond :: bool
  oc_thread :: bool

subsection \<open>Rowset slots\<close>

definition ADBC_ODBC_MAX_PREFETCH :: int where "ADBC_ODBC_MAX_PREFETCH = 8"
definition ODBC_ADAPT_WINDOW_ROWS :: int where "ODBC_ADAPT_WINDOW_ROWS = 256"
definition ODBC_ADAPT_PROBE_ROWS :: nat where "ODBC_ADAPT_PROBE_ROWS = 128"
definition ODBC_ADAPT_REREAD_BUDGET :: int where "ODBC_ADAPT_REREAD_BUDGET = 256"

text \<open>Whether there is a reason not to prefetch, \<open>None\<close> if not.\<close>

datatype refusal = UnboundColumn | OneRowAtATime | NoRowCount | NarrowColumn

definition PrefetchRefusalReason :: "OdbcReader \<Rightarrow> refusal option" where
  "PrefetchRefusalReason r =
     (if \<not> r_all_bound r then Some UnboundColumn
      else if r_rows_per_fetch r \<le> 1 then Some OneRowAtATime
      else if r_no_rows_fetched_ptr r then Some NoRowCount
      else if list_ex clipped (r_cols r) then Some NarrowColumn
      else None)"

definition ReaderUseSlot :: "OdbcReader \<Rightarrow> nat \<Rightarrow> OdbcReader" where
  "ReaderUseSlot r sl = r\<lparr>r_cur_slot := sl\<rparr>"

fun BindCols :: "(nat \<Rightarrow> status option) \<Rightarrow> OdbcColumn list \<Rightarrow> nat \<Rightarrow> status option" where
  "BindCols bnd [] i = None"
| "BindCols bnd (c # cs) i =
     (if \<not> bound c then BindCols bnd cs (i + 1)
      else case bnd i of Some e \<Rightarrow> Some e | None \<Rightarrow> BindCols bnd cs (i + 1))"

definition ReaderBindSlot :: "odbc_cursor \<Rightarrow> OdbcReader \<Rightarrow> nat \<Rightarrow> status option" where
  "ReaderBindSlot drv r sl = BindCols (oc_bind drv) (r_cols r) 0"

text \<open>The bytes of one row of the bound buffers, with its indicators.\<close>

definition row_bytes :: "OdbcColumn list \<Rightarrow> int" where
  "row_bytes cs = sum_list (map (\<lambda>c. u64 (elem_size c) + 8) (filter bound cs))"

definition RowsetRows :: "OdbcReaderOptions \<Rightarrow> OdbcColumn list \<Rightarrow> nat" where
  "RowsetRows opts cs =
     (let all_bound = list_all bound cs;
          rows = (if all_bound then u64 (batch_size opts) else 1);
          rows = (if rows < 1 then 1 else rows);
          rows = (if rowset_bytes opts > 0 \<and> rows > 1 then
                    (let rb = u64 (row_bytes cs) in
                     if rb > 0 then
                       (let fit = rowset_bytes opts div rb; fit = (if fit < 1 then 1 else fit)
                        in if fit < rows then fit else rows)
                     else rows)
                  else rows);
          rows = (if min_buffer_rows opts > 0 \<and> all_bound
                  then u64 (u64 (rows + min_buffer_rows opts - 1) div min_buffer_rows opts * min_buffer_rows opts) else rows)
      in nat rows)"

definition RowsetCapacity :: "OdbcReaderOptions \<Rightarrow> nat \<Rightarrow> nat" where
  "RowsetCapacity opts rows =
     (if min_buffer_rows opts > 0 \<and> int rows < min_buffer_rows opts then nat (min_buffer_rows opts) else rows)"

definition new_slot :: "OdbcColumn list \<Rightarrow> nat \<Rightarrow> OdbcRowsetSlot" where
  "new_slot cs capacity =
     \<lparr>s_buffers = map (\<lambda>c. if bound c then replicate (capacity * nat (elem_size c)) 0 else []) cs,
      s_indicators = map (\<lambda>c. replicate (capacity * 8) 0) cs, s_row_status = replicate capacity 0,
      s_rows_fetched_raw = 0, s_fetched = 0, s_first_row = 0, s_eos = False, s_needs_repair = False\<rparr>"

text \<open>The rowset size: what the options allow, the probe of the width adaptation, what the driver takes.\<close>

definition NegotiateRowset :: "odbc_cursor \<Rightarrow> OdbcReader \<Rightarrow> OdbcReader" where
  "NegotiateRowset drv r =
     (let opts = r_opts r; cs = r_cols r; rows = RowsetRows opts cs;
          r = r\<lparr>r_all_bound := list_all bound cs, r_rows_per_fetch := rows, r_rowset_full := rows\<rparr>;
          r = (if getdata_repair opts \<and> rows > 1 \<and> \<not> fixed_rowset opts \<and> list_ex (\<lambda>c. bound c \<and> clipped c) cs
               then r\<lparr>r_adapt_open := True\<rparr> else r);
          r = (if r_adapt_open r \<and> min_buffer_rows opts \<le> 0 \<and> r_rows_per_fetch r > ODBC_ADAPT_PROBE_ROWS
               then r\<lparr>r_rows_per_fetch := ODBC_ADAPT_PROBE_ROWS\<rparr> else r);
          r = (if oc_resize drv (r_rows_per_fetch r) \<noteq> None then r\<lparr>r_rows_per_fetch := 1\<rparr> else r);
          r = (if \<not> oc_rows_fetched_ptr drv then r\<lparr>r_no_rows_fetched_ptr := True, r_rows_per_fetch := 1\<rparr> else r)
      in if r_rows_per_fetch r \<le> 1 then r\<lparr>r_adapt_open := False, r_rowset_full := 1\<rparr> else r)"

text \<open>Without a thread the reader fetches for itself, out of slot 0.\<close>

definition PrefetchStart :: "odbc_cursor \<Rightarrow> OdbcReader \<Rightarrow> status + OdbcReader" where
  "PrefetchStart drv r =
     (if \<not> oc_mutex drv then Inl ADBC_STATUS_INTERNAL
      else if \<not> oc_cond drv then Inl ADBC_STATUS_INTERNAL
      else if \<not> oc_thread drv then Inr r
      else Inr (r\<lparr>r_prefetching := True\<rparr>))"

definition ReaderBind :: "odbc_cursor \<Rightarrow> OdbcReader \<Rightarrow> status + OdbcReader" where
  "ReaderBind drv r =
     (let opts = r_opts r; cs = r_cols r;
          capacity = RowsetCapacity opts (RowsetRows opts cs);
          r = NegotiateRowset drv r;
          nslots = (if prefetch opts > 0 \<and> PrefetchRefusalReason r = None
                    then nat (min (s32 (prefetch opts)) ADBC_ODBC_MAX_PREFETCH) + 1 else 1);
          r = (if nslots > 1 then r\<lparr>r_adapt_open := False\<rparr> else r);
          r = ReaderUseSlot (r\<lparr>r_slots := replicate nslots (new_slot cs capacity)\<rparr>) 0
      in case ReaderBindSlot drv r 0 of
           Some e \<Rightarrow> Inl e
         | None \<Rightarrow> (let r = r\<lparr>r_bound := True\<rparr> in if nslots > 1 then PrefetchStart drv r else Inr r))"

subsection \<open>Rowsets that were fetched\<close>

definition RowsetTruncated :: "nat \<Rightarrow> OdbcReader \<Rightarrow> OdbcRowsetSlot \<Rightarrow> nat \<Rightarrow> bool" where
  "RowsetTruncated wsize r slot n =
     list_ex (\<lambda>i. let c = r_cols r ! i in bound c \<and> var_ctype (ctype c)
        \<and> list_ex (\<lambda>row. BoundValueTruncated wsize c (OdbcIndicatorGet (s_indicators slot ! i) row (sqllen_32bit (r_opts r) \<or> ind_stride_32bit (r_opts r))))
            [0..<n]) [0..<length (r_cols r)]"

definition ReaderResizeRowset :: "odbc_cursor \<Rightarrow> OdbcReader \<Rightarrow> nat \<Rightarrow> bool" where
  "ReaderResizeRowset drv r rows = (if fixed_rowset (r_opts r) then False else oc_resize drv rows = None)"

definition ResolveFetched :: "OdbcReader \<Rightarrow> OdbcRowsetSlot \<Rightarrow> nat" where
  "ResolveFetched r slot =
     (if r_no_rows_fetched_ptr r then 1 else nat (OdbcReadULen (s_rows_fetched_raw slot) (sqllen_32bit (r_opts r))))"

definition RowsetIsBulk :: "OdbcReader \<Rightarrow> nat \<Rightarrow> bool" where
  "RowsetIsBulk r n =
     (if n = 0 then False
      else list_all (\<lambda>row. let st = s_row_status (cur_slot r) ! row in st \<noteq> SQL_ROW_NOROW \<and> st \<noteq> SQL_ROW_ERROR) [0..<n])"

text \<open>One row, the columns \<open>is\<close> in order.\<close>

fun AppendCols :: "nat \<Rightarrow> getdata_driver \<Rightarrow> OdbcReader \<Rightarrow> nat \<Rightarrow> nat list \<Rightarrow> arrow_array list \<Rightarrow> convert_error + arrow_array list" where
  "AppendCols wsize gdrv r row [] batch = Inr batch"
| "AppendCols wsize gdrv r row (i # is) batch =
     (case AppendValue wsize gdrv r i row (batch ! i) of
        Inl e \<Rightarrow> Inl e
      | Inr a \<Rightarrow> AppendCols wsize gdrv r row is (batch[i := a]))"

text \<open>The bound columns of a rowset, column by column, with the fall-back to single values.\<close>

fun BulkCols :: "nat \<Rightarrow> getdata_driver \<Rightarrow> OdbcReader \<Rightarrow> nat \<Rightarrow> nat list \<Rightarrow> arrow_array list \<Rightarrow> convert_error + arrow_array list" where
  "BulkCols wsize gdrv r n [] batch = Inr batch"
| "BulkCols wsize gdrv r n (i # is) batch =
     (if \<not> bound (r_cols r ! i) then BulkCols wsize gdrv r n is batch
      else case (case BulkAppendColumn wsize r i n (batch ! i) of
                   Inl (Failed ADBC_STATUS_NOT_IMPLEMENTED) \<Rightarrow> AppendRows wsize gdrv r i [0..<n] (batch ! i)
                 | res \<Rightarrow> res) of
             Inl e \<Rightarrow> Inl e
           | Inr a \<Rightarrow> BulkCols wsize gdrv r n is (batch[i := a]))"

fun RowsCols :: "nat \<Rightarrow> getdata_driver \<Rightarrow> OdbcReader \<Rightarrow> nat list \<Rightarrow> nat list \<Rightarrow> arrow_array list \<Rightarrow> convert_error + arrow_array list" where
  "RowsCols wsize gdrv r [] is batch = Inr batch"
| "RowsCols wsize gdrv r (row # rows) is batch =
     (case AppendCols wsize gdrv r row is batch of Inl e \<Rightarrow> Inl e | Inr b \<Rightarrow> RowsCols wsize gdrv r rows is b)"

fun RowwiseLoop :: "nat \<Rightarrow> getdata_driver \<Rightarrow> OdbcReader \<Rightarrow> nat list \<Rightarrow> arrow_array list \<times> nat \<Rightarrow> convert_error + arrow_array list \<times> nat" where
  "RowwiseLoop wsize gdrv r [] (batch, tot) = Inr (batch, tot)"
| "RowwiseLoop wsize gdrv r (row # rows) (batch, tot) =
     (let st = s_row_status (cur_slot r) ! row in
      if st = SQL_ROW_NOROW then RowwiseLoop wsize gdrv r rows (batch, tot)
      else if st = SQL_ROW_ERROR then Inl (Failed ADBC_STATUS_IO)
      else case AppendCols wsize gdrv r row [0..<length (r_cols r)] batch of
             Inl e \<Rightarrow> Inl e
           | Inr b \<Rightarrow> RowwiseLoop wsize gdrv r rows (b, tot + 1))"

definition ConvertRowset :: "nat \<Rightarrow> getdata_driver \<Rightarrow> OdbcReader \<Rightarrow> nat \<Rightarrow> bool \<Rightarrow> arrow_array list \<times> nat \<Rightarrow> convert_error + arrow_array list \<times> nat" where
  "ConvertRowset wsize gdrv r n bulk bt =
     (if bulk then
        (case BulkCols wsize gdrv r n [0..<length (r_cols r)] (fst bt) of
           Inl e \<Rightarrow> Inl e
         | Inr b \<Rightarrow>
             (case (if r_all_bound r then Inr b
                    else RowsCols wsize gdrv r [0..<n] (filter (\<lambda>i. \<not> bound (r_cols r ! i)) [0..<length (r_cols r)]) b) of
                Inl e \<Rightarrow> Inl e
              | Inr b \<Rightarrow> Inr (b, snd bt + n)))
      else RowwiseLoop wsize gdrv r [0..<n] bt)"

text \<open>The rowset \<^verbatim>\<open>SQLFetch\<close> left in the current slot.\<close>

definition store_rowset :: "OdbcReader \<Rightarrow> mem list \<Rightarrow> mem list \<Rightarrow> nat list \<Rightarrow> int \<Rightarrow> OdbcReader" where
  "store_rowset r bufs inds sts raw =
     r\<lparr>r_slots := (r_slots r)[r_cur_slot r := (cur_slot r)\<lparr>s_buffers := bufs, s_indicators := inds, s_row_status := sts, s_rows_fetched_raw := raw\<rparr>]\<rparr>"

subsection \<open>Repairing a rowset\<close>

fun RepairLoop :: "nat \<Rightarrow> odbc_cursor \<Rightarrow> OdbcReader \<Rightarrow> int \<Rightarrow> nat list \<Rightarrow> arrow_array list \<Rightarrow> convert_error + arrow_array list" where
  "RepairLoop wsize drv r start [] batch = Inr batch"
| "RepairLoop wsize drv r start (k # ks) batch =
     (case oc_scroll drv (start + int k) of
        FetchNoData \<Rightarrow> Inl (Failed ADBC_STATUS_UNKNOWN)
      | FetchError e \<Rightarrow> Inl (Failed e)
      | Fetched bufs inds sts raw \<Rightarrow>
          (case AppendCols wsize (oc_getdata drv (start + int k - 1)) (store_rowset r bufs inds sts raw) 0 [0..<length (r_cols r)] batch of
             Inl e \<Rightarrow> Inl e
           | Inr b \<Rightarrow> RepairLoop wsize drv r start ks b))"

definition RepairRowset :: "nat \<Rightarrow> odbc_cursor \<Rightarrow> OdbcReader \<Rightarrow> int \<Rightarrow> nat \<Rightarrow> arrow_array list \<Rightarrow> convert_error + arrow_array list" where
  "RepairRowset wsize drv r start n batch =
     (case oc_resize drv 1 of
        Some e \<Rightarrow> Inl (Failed e)
      | None \<Rightarrow>
          (case RepairLoop wsize drv (r\<lparr>r_rows_per_fetch := 1\<rparr>) start [0..<n] batch of
             Inl e \<Rightarrow> Inl e
           | Inr b \<Rightarrow> (case oc_resize drv (r_rows_per_fetch r) of Some e \<Rightarrow> Inl (Failed e) | None \<Rightarrow> Inr b)))"

subsection \<open>Giving up a binding\<close>

text \<open>The columns from \<open>from\<close> on, unbound one after the other.\<close>

fun UnbindCols :: "(nat \<Rightarrow> status option) \<Rightarrow> nat list \<Rightarrow> OdbcReader \<Rightarrow> status + OdbcReader" where
  "UnbindCols bnd [] r = Inr r"
| "UnbindCols bnd (i # is) r =
     (if \<not> bound (r_cols r ! i) then UnbindCols bnd is r
      else case bnd i of
             Some e \<Rightarrow> Inl e
           | None \<Rightarrow> UnbindCols bnd is
               (r\<lparr>r_cols := (r_cols r)[i := (r_cols r ! i)\<lparr>bound := False, clipped := False\<rparr>],
                  r_slots := map (\<lambda>s. s\<lparr>s_buffers := (s_buffers s)[i := []]\<rparr>) (r_slots r)\<rparr>))"

definition ReaderUnbindFrom :: "odbc_cursor \<Rightarrow> OdbcReader \<Rightarrow> nat \<Rightarrow> status + OdbcReader" where
  "ReaderUnbindFrom drv r from =
     (if r_rows_per_fetch r > 1 \<and> \<not> ReaderResizeRowset drv r 1
      then Inr (r\<lparr>r_rowset_restore := \<not> fixed_rowset (r_opts r)\<rparr>)
      else let r = (if r_rows_per_fetch r > 1 then r\<lparr>r_rows_per_fetch := 1\<rparr> else r)
           in case UnbindCols (oc_bind drv) [from..<length (r_cols r)] r of
                Inl e \<Rightarrow> Inl e
              | Inr r \<Rightarrow> Inr (ReaderUseSlot (r\<lparr>r_all_bound := False\<rparr>) (r_cur_slot r)))"

text \<open>The bytes that had to be read again for one column of the rowset.\<close>

definition TruncBytes :: "nat \<Rightarrow> OdbcReader \<Rightarrow> nat \<Rightarrow> nat \<Rightarrow> int" where
  "TruncBytes wsize r i n =
     (let c = r_cols r ! i in
      sum_list (map (\<lambda>row. let ind = col_indicator r i row in if ind > elem_size c then ind else elem_size c)
        (filter (\<lambda>row. BoundValueTruncated wsize c (col_indicator r i row)) [0..<n])))"

text \<open>The count of re-read bytes goes on, and then the first column that cost too much.\<close>

definition CountTruncated :: "nat \<Rightarrow> OdbcReader \<Rightarrow> nat \<Rightarrow> OdbcReader" where
  "CountTruncated wsize r n =
     r\<lparr>r_cols := map (\<lambda>i. let c = r_cols r ! i in
           if bound c \<and> clipped c \<and> var_ctype (ctype c) then c\<lparr>trunc_bytes := trunc_bytes c + TruncBytes wsize r i n\<rparr> else c)
         [0..<length (r_cols r)],
       r_adapt_rows := r_adapt_rows r + int n\<rparr>"

definition AdaptVictim :: "OdbcReader \<Rightarrow> nat option" where
  "AdaptVictim r =
     find (\<lambda>i. let c = r_cols r ! i in bound c \<and> clipped c \<and> trunc_bytes c > r_adapt_rows r * ODBC_ADAPT_REREAD_BUDGET)
       [0..<length (r_cols r)]"

definition AdaptBindWidth :: "nat \<Rightarrow> odbc_cursor \<Rightarrow> OdbcReader \<Rightarrow> nat \<Rightarrow> status + OdbcReader" where
  "AdaptBindWidth wsize drv r n =
     (let r = CountTruncated wsize r n
      in if r_adapt_rows r < ODBC_ADAPT_WINDOW_ROWS then Inr r
         else let r = r\<lparr>r_adapt_open := False\<rparr>
              in case AdaptVictim r of
                   Some i \<Rightarrow> ReaderUnbindFrom drv r i
                 | None \<Rightarrow> Inr (r\<lparr>r_rowset_restore := True\<rparr>))"

subsection \<open>The next batch\<close>

text \<open>
  What the fetch thread publishes, in order: a filled slot, or the failure it stopped with; the list
  ends when the thread has stopped and the ring is drained.
\<close>

datatype published = PubSlot OdbcRowsetSlot | PubFailed status

definition PrefetchNextRowset :: "nat \<Rightarrow> odbc_cursor \<Rightarrow> OdbcReader \<Rightarrow> published list \<Rightarrow> arrow_array list \<times> nat
    \<Rightarrow> convert_error + (OdbcReader \<times> published list \<times> arrow_array list \<times> nat)" where
  "PrefetchNextRowset wsize drv r pub bt =
     (case pub of
        [] \<Rightarrow> Inr (r\<lparr>r_prefetching := False, r_done := True\<rparr>, [], bt)
      | PubFailed e # _ \<Rightarrow> Inl (Failed e)
      | PubSlot slot # rest \<Rightarrow>
          (if s_eos slot then Inr (r\<lparr>r_prefetching := False, r_done := True\<rparr>, rest, bt)
           else
             let r = r\<lparr>r_slots := (r_slots r)[r_cur_slot r := slot]\<rparr> in
             if s_needs_repair slot then
               (let r = r\<lparr>r_prefetching := False\<rparr> in
                case ReaderBindSlot drv r (r_cur_slot r) of
                  Some e \<Rightarrow> Inl (Failed e)
                | None \<Rightarrow>
                    (case RepairRowset wsize drv r (s_first_row slot) (s_fetched slot) (fst bt) of
                       Inl e \<Rightarrow> Inl e
                     | Inr b \<Rightarrow> Inr (r\<lparr>r_rowsets_read := r_rowsets_read r + 1, r_rowsets_repaired := r_rowsets_repaired r + 1,
                                       r_rows_seen := s_first_row slot + int (s_fetched slot) - 1\<rparr>,
                                     rest, b, snd bt + s_fetched slot)))
             else
               let bulk = RowsetIsBulk r (s_fetched slot);
                   r = r\<lparr>r_rows_seen_exact := (r_rows_seen_exact r \<and> bulk), r_rowsets_read := r_rowsets_read r + 1,
                          r_rows_seen := s_first_row slot + int (s_fetched slot) - 1\<rparr>
               in case ConvertRowset wsize (oc_getdata drv (s_first_row slot - 1)) r (s_fetched slot) bulk bt of
                    Inl e \<Rightarrow> Inl e
                  | Inr bt \<Rightarrow> Inr (r, rest, bt)))"

text \<open>The reader's counters after a rowset of \<open>n\<close> rows, and after one that was repaired.\<close>

definition NoteRowset :: "OdbcReader \<Rightarrow> nat \<Rightarrow> bool \<Rightarrow> OdbcReader" where
  "NoteRowset r n bulk =
     r\<lparr>r_rows_seen := r_rows_seen r + int n, r_rows_seen_exact := (r_rows_seen_exact r \<and> bulk), r_rowsets_read := r_rowsets_read r + 1\<rparr>"

definition NoteRepair :: "odbc_cursor \<Rightarrow> OdbcReader \<Rightarrow> OdbcReader" where
  "NoteRepair drv r =
     (let r = r\<lparr>r_rowsets_repaired := r_rowsets_repaired r + 1\<rparr>
      in if r_rowsets_repaired r \<ge> 4 \<and> r_rowsets_repaired r * 4 \<ge> r_rowsets_read r * 3 \<and> ReaderResizeRowset drv r 1
         then r\<lparr>r_rows_per_fetch := 1\<rparr> else r)"

definition must_refetch :: "nat \<Rightarrow> OdbcReader \<Rightarrow> nat \<Rightarrow> bool \<Rightarrow> bool" where
  "must_refetch wsize r n bulk \<longleftrightarrow> bulk \<and> r_rows_seen_exact r \<and> r_rows_per_fetch r > 1 \<and> \<not> getdata_repair (r_opts r)
     \<and> refetch_repair (r_opts r) \<and> \<not> fixed_rowset (r_opts r) \<and> RowsetTruncated wsize r (cur_slot r) n"

text \<open>
  One \<^verbatim>\<open>SQLFetch\<close> and what follows it in the loop of \<open>ReaderNextBatch\<close>: the reader, the batch, and
  whether the loop is left by a \<^verbatim>\<open>break\<close>.
\<close>

definition FetchStep :: "nat \<Rightarrow> odbc_cursor \<Rightarrow> OdbcReader \<Rightarrow> arrow_array list \<times> nat
    \<Rightarrow> convert_error + (OdbcReader \<times> (arrow_array list \<times> nat) \<times> bool)" where
  "FetchStep wsize drv r bt =
     (let p = r_rows_seen r in
      case oc_fetch drv p (r_rows_per_fetch r) of
        FetchNoData \<Rightarrow> Inr (r\<lparr>r_done := True\<rparr>, bt, True)
      | FetchError e \<Rightarrow> Inl (Failed e)
      | Fetched bufs inds sts raw \<Rightarrow>
          (let r = store_rowset r bufs inds sts raw;
               n = ResolveFetched r (cur_slot r);
               bulk = RowsetIsBulk r n;
               r = NoteRowset r n bulk
           in
           if must_refetch wsize r n bulk then
             (case RepairRowset wsize drv r (p + 1) n (fst bt) of
                Inl e \<Rightarrow> Inl e
              | Inr b \<Rightarrow> Inr (NoteRepair drv r, (b, snd bt + n), False))
           else
             case ConvertRowset wsize (oc_getdata drv p) r n bulk bt of
               Inl e \<Rightarrow> Inl e
             | Inr bt \<Rightarrow>
                 (case (if r_adapt_open r \<and> bulk then AdaptBindWidth wsize drv r n else Inr r) of
                    Inl e \<Rightarrow> Inl (Failed e)
                  | Inr r \<Rightarrow> Inr (r, bt, r_rows_per_fetch r = 1 \<and> int (snd bt) \<ge> batch_size (r_opts r)))))"

fun BatchLoop :: "nat \<Rightarrow> nat \<Rightarrow> odbc_cursor \<Rightarrow> OdbcReader \<Rightarrow> published list \<Rightarrow> arrow_array list \<times> nat
    \<Rightarrow> (convert_error + (OdbcReader \<times> published list \<times> arrow_array list \<times> nat)) option" where
  "BatchLoop 0 wsize drv r pub bt = None"
| "BatchLoop (Suc fuel) wsize drv r pub bt =
     (if (snd bt = 0 \<or> int (snd bt + r_rows_per_fetch r) \<le> batch_size (r_opts r)) \<and> \<not> r_done r then
        (if r_prefetching r then
           (case PrefetchNextRowset wsize drv r pub bt of
              Inl e \<Rightarrow> Some (Inl e)
            | Inr (r, pub, bt) \<Rightarrow> BatchLoop fuel wsize drv r pub bt)
         else
           (case FetchStep wsize drv r bt of
              Inl e \<Rightarrow> Some (Inl e)
            | Inr (r, bt, leave) \<Rightarrow> if leave then Some (Inr (r, pub, bt)) else BatchLoop fuel wsize drv r pub bt))
      else Some (Inr (r, pub, bt)))"

definition ReaderNextBatch :: "nat \<Rightarrow> nat \<Rightarrow> odbc_cursor \<Rightarrow> OdbcReader \<Rightarrow> published list
    \<Rightarrow> (convert_error + (OdbcReader \<times> published list \<times> (arrow_array list \<times> nat) option)) option" where
  "ReaderNextBatch fuel wsize drv r pub =
     (case (if \<not> r_bound r then ReaderBind drv r else Inr r) of
        Inl e \<Rightarrow> Some (Inl (Failed e))
      | Inr r \<Rightarrow>
          (let r = (if r_rowset_restore r
                    then let r = r\<lparr>r_rowset_restore := False\<rparr>
                         in if ReaderResizeRowset drv r (r_rowset_full r) then r\<lparr>r_rows_per_fetch := r_rowset_full r\<rparr> else r
                    else r)
           in case BatchLoop fuel wsize drv r pub (replicate (length (r_cols r)) ArrowArrayStart, 0) of
                None \<Rightarrow> None
              | Some (Inl e) \<Rightarrow> Some (Inl e)
              | Some (Inr (r, pub, bt)) \<Rightarrow> Some (Inr (r, pub, if snd bt = 0 then None else Some bt))))"

text \<open>A failed batch ends the stream: \<open>Inl\<close> is the status handed to the caller.\<close>

definition ReaderGetNext :: "nat \<Rightarrow> nat \<Rightarrow> odbc_cursor \<Rightarrow> OdbcReader \<Rightarrow> published list
    \<Rightarrow> (OdbcReader \<times> published list \<times> (convert_error + (arrow_array list \<times> nat) option)) option" where
  "ReaderGetNext fuel wsize drv r pub =
     (if r_done r then Some (r, pub, Inr None)
      else case ReaderNextBatch fuel wsize drv r pub of
             None \<Rightarrow> None
           | Some (Inl e) \<Rightarrow> Some (r\<lparr>r_done := True\<rparr>, pub, Inl e)
           | Some (Inr (r, pub, out)) \<Rightarrow> Some (r, pub, Inr out))"

definition ReaderDefaults :: "OdbcReaderOptions \<Rightarrow> OdbcReaderOptions" where
  "ReaderDefaults opts =
     (let opts = (if batch_size opts \<le> 0 then opts\<lparr>batch_size := 1024\<rparr> else opts);
          opts = (if max_bind_bytes opts \<le> 0 then opts\<lparr>max_bind_bytes := 32768\<rparr> else opts);
          opts = (if long_bind_bytes opts \<le> 0 then opts\<lparr>long_bind_bytes := 2048\<rparr> else opts)
      in if rowset_bytes opts \<le> 0 then opts\<lparr>rowset_bytes := 8 * 1024 * 1024\<rparr> else opts)"

definition OdbcReaderInit :: "bool \<Rightarrow> int \<Rightarrow> hstmt \<Rightarrow> OdbcReaderOptions \<Rightarrow> status + nat \<Rightarrow> (nat \<Rightarrow> status + col_desc)
    \<Rightarrow> status + (OdbcReader \<times> arrow_field list)" where
  "OdbcReaderInit win32 wsize h opts ncols describe =
     (let opts = ReaderDefaults opts in
      case DescribeColumns win32 wsize h opts ncols describe of
        Inl e \<Rightarrow> Inl e
      | Inr cs \<Rightarrow>
          Inr (\<lparr>r_opts = opts, r_cols = cs, r_rows_per_fetch = 0, r_rows_seen = 0, r_rows_seen_exact = True, r_rowsets_read = 0,
                r_rowsets_repaired = 0, r_adapt_open = False, r_adapt_rows = 0, r_rowset_restore = False, r_rowset_full = 0,
                r_no_rows_fetched_ptr = False, r_done = False, r_bound = False, r_all_bound = False, r_slots = [], r_cur_slot = 0,
                r_prefetching = False\<rparr>, BuildSchema cs))"

section \<open>Bound buffers are never overrun\<close>

text \<open>
  What keeps a driver inside the reader's memory: every slot has room for the rowset size in force,
  and for the one the reader goes back to, in each bound column's buffer, in its indicators and in
  the row status array.
\<close>

definition slot_fits :: "nat \<Rightarrow> OdbcColumn list \<Rightarrow> OdbcRowsetSlot \<Rightarrow> bool" where
  "slot_fits cap cs s \<longleftrightarrow> length (s_buffers s) = length cs \<and> length (s_indicators s) = length cs \<and> length (s_row_status s) = cap
     \<and> (\<forall>i<length cs. length (s_indicators s ! i) = cap * 8
          \<and> (bound (cs ! i) \<longrightarrow> length (s_buffers s ! i) = cap * nat (elem_size (cs ! i))))"

definition reader_fits :: "OdbcReader \<Rightarrow> bool" where
  "reader_fits r \<longleftrightarrow> (\<exists>cap. 1 \<le> r_rows_per_fetch r \<and> r_rows_per_fetch r \<le> cap \<and> r_rowset_full r \<le> cap \<and> 1 \<le> r_rowset_full r
     \<and> r_cur_slot r < length (r_slots r) \<and> list_all (slot_fits cap (r_cols r)) (r_slots r))"

text \<open>A fetch that writes only inside the buffers it was given, whatever it writes there.\<close>

definition same_shape :: "OdbcRowsetSlot \<Rightarrow> mem list \<Rightarrow> mem list \<Rightarrow> nat list \<Rightarrow> bool" where
  "same_shape s bufs inds sts \<longleftrightarrow> map length bufs = map length (s_buffers s) \<and> map length inds = map length (s_indicators s)
     \<and> length sts = length (s_row_status s)"

text \<open>Options as the option parsers leave them.\<close>

definition options_ok :: "OdbcReaderOptions \<Rightarrow> bool" where
  "options_ok opts \<longleftrightarrow> 0 < batch_size opts \<and> batch_size opts \<le> INT64_MAX \<and> 0 \<le> rowset_bytes opts
     \<and> 0 \<le> min_buffer_rows opts \<and> min_buffer_rows opts \<le> INT64_MAX"

lemma round_up:
  assumes "0 < (m::int)" "0 < x"
  shows "x \<le> (x + m - 1) div m * m \<and> (x + m - 1) div m * m \<le> x + m - 1"
proof -
  have "(x + m - 1) div m * m = x + m - 1 - (x + m - 1) mod m" by (simp add: minus_mod_eq_div_mult)
  moreover have "0 \<le> (x + m - 1) mod m" "(x + m - 1) mod m < m" using assms by simp_all
  ultimately show ?thesis by linarith
qed

lemma RowsetRows_bounds:
  assumes "options_ok opts" "row_bytes cs \<le> UINT64_MAX" "0 \<le> row_bytes cs"
  shows "1 \<le> RowsetRows opts cs
       \<and> (min_buffer_rows opts = 0 \<and> 0 < rowset_bytes opts \<longrightarrow> RowsetRows opts cs = 1 \<or> int (RowsetRows opts cs) * row_bytes cs \<le> rowset_bytes opts)"
proof -
  define rb where "rb = u64 (row_bytes cs)"
  have rb: "rb = row_bytes cs" "0 \<le> rb" using assms(2,3) by (simp_all add: rb_def u64_id)
  define rows0 where "rows0 = (if list_all bound cs then u64 (batch_size opts) else 1)"
  have r0: "1 \<le> rows0" "rows0 \<le> INT64_MAX" using assms(1) by (auto simp: rows0_def options_ok_def u64_id)
  define rows where "rows = (if rowset_bytes opts > 0 \<and> rows0 > 1 then
       if rb > 0 then let fit = rowset_bytes opts div rb; fit = (if fit < 1 then 1 else fit) in if fit < rows0 then fit else rows0
       else rows0 else rows0)"
  have r: "1 \<le> rows" "rows \<le> INT64_MAX" using r0 by (auto simp: rows_def Let_def)
  have budget: "rows = 1 \<or> rows * rb \<le> rowset_bytes opts" if "0 < rowset_bytes opts"
  proof -
    consider "rb = 0" | "0 < rb" using rb(2) by linarith
    then show ?thesis
    proof cases
      case 2
      have "rows = 1 \<or> rows \<le> rowset_bytes opts div rb" using 2 that r0 by (auto simp: rows_def Let_def)
      moreover have "rows * rb \<le> rowset_bytes opts div rb * rb" if "rows \<le> rowset_bytes opts div rb"
        using that rb(2) by (rule mult_right_mono)
      moreover have "rowset_bytes opts div rb * rb \<le> rowset_bytes opts"
        using pos_mod_sign [OF 2, of "rowset_bytes opts"] by (simp add: minus_mod_eq_div_mult [symmetric])
      ultimately show ?thesis by linarith
    qed (use that in simp)
  qed
  have e: "RowsetRows opts cs = nat (if min_buffer_rows opts > 0 \<and> list_all bound cs
      then u64 (u64 (rows + min_buffer_rows opts - 1) div min_buffer_rows opts * min_buffer_rows opts) else rows)"
  proof -
    have n: "(rows0 < 1) = False" using r0 by simp
    show ?thesis unfolding RowsetRows_def Let_def rows0_def [symmetric] rb_def [symmetric] by (simp only: n if_False rows_def Let_def)
  qed
  show ?thesis
  proof (cases "min_buffer_rows opts > 0 \<and> list_all bound cs")
    case True
    let ?m = "min_buffer_rows opts"
    have "u64 (rows + ?m - 1) = rows + ?m - 1" using r True assms(1) by (intro u64_id) (auto simp: options_ok_def)
    moreover from round_up [of ?m rows] have "u64 ((rows + ?m - 1) div ?m * ?m) = (rows + ?m - 1) div ?m * ?m"
      using r True assms(1) by (intro u64_id) (auto simp: options_ok_def)
    ultimately have "RowsetRows opts cs = nat ((rows + ?m - 1) div ?m * ?m)" using e True by simp
    then show ?thesis using round_up [of ?m rows] r True by (simp add: nat_le_eq_zle Suc_le_eq)
  next
    case False
    have e': "RowsetRows opts cs = nat rows" using e by (simp add: False)
    show ?thesis using budget r unfolding e' rb(1) by auto
  qed
qed

lemma RowsetCapacity_ge: "rows \<le> RowsetCapacity opts rows"
  by (auto simp: RowsetCapacity_def)

lemma new_slot_fits: "slot_fits cap cs (new_slot cs cap)"
  by (simp add: slot_fits_def new_slot_def)

lemma NegotiateRowset_fields [simp]: "r_cols (NegotiateRowset drv r) = r_cols r" "r_opts (NegotiateRowset drv r) = r_opts r"
  by (simp_all add: NegotiateRowset_def Let_def)

lemma NegotiateRowset_rows:
  assumes "1 \<le> RowsetRows (r_opts r) (r_cols r)"
  shows "1 \<le> r_rows_per_fetch (NegotiateRowset drv r)" "r_rows_per_fetch (NegotiateRowset drv r) \<le> RowsetRows (r_opts r) (r_cols r)"
    "1 \<le> r_rowset_full (NegotiateRowset drv r)" "r_rowset_full (NegotiateRowset drv r) \<le> RowsetRows (r_opts r) (r_cols r)"
  using assms by (simp_all add: NegotiateRowset_def Let_def ODBC_ADAPT_PROBE_ROWS_def)

lemma ReaderBind_result:
  assumes "ReaderBind drv r = Inr r'"
  shows "r_cols r' = r_cols r \<and> r_opts r' = r_opts r \<and> r_cur_slot r' = 0
    \<and> (\<exists>k>0. r_slots r' = replicate k (new_slot (r_cols r) (RowsetCapacity (r_opts r) (RowsetRows (r_opts r) (r_cols r)))))
    \<and> r_rows_per_fetch r' = r_rows_per_fetch (NegotiateRowset drv r) \<and> r_rowset_full r' = r_rowset_full (NegotiateRowset drv r)"
  using assms unfolding ReaderBind_def PrefetchStart_def Let_def ReaderUseSlot_def by (auto split: option.splits if_splits)

text \<open>
  C33. The rowset the reader binds fits its buffers and the memory budget.  Whatever the driver refuses
  (a block cursor, the row count pointer), the rowset size in force is at least one row and never
  more than the rows every slot was allocated for, and unless the driver needs a minimum chunk the
  bound buffers of a slot of more than one row stay within \<^verbatim>\<open>rowset_bytes\<close>.
\<close>

theorem ReaderBind_fits:
  assumes "ReaderBind drv r = Inr r'" "options_ok (r_opts r)" "0 \<le> row_bytes (r_cols r)" "row_bytes (r_cols r) \<le> UINT64_MAX"
  shows "reader_fits r'
       \<and> (min_buffer_rows (r_opts r) = 0 \<and> 0 < rowset_bytes (r_opts r) \<longrightarrow>
          r_rows_per_fetch r' = 1 \<or> int (r_rows_per_fetch r') * row_bytes (r_cols r') \<le> rowset_bytes (r_opts r))"
proof -
  let ?n = "RowsetRows (r_opts r) (r_cols r)"
  let ?cap = "RowsetCapacity (r_opts r) ?n"
  note n = RowsetRows_bounds [OF assms(2,4,3)]
  note f = ReaderBind_result [OF assms(1)]
  note le = NegotiateRowset_rows [OF conjunct1 [OF n], of drv]
  have "reader_fits r'"
    unfolding reader_fits_def using le f n RowsetCapacity_ge [of ?n "r_opts r"] new_slot_fits [of ?cap "r_cols r"]
    by (intro exI [of _ ?cap]) (auto simp: list_all_iff)
  moreover have "r_rows_per_fetch r' = 1 \<or> int (r_rows_per_fetch r') * row_bytes (r_cols r') \<le> rowset_bytes (r_opts r)"
    if "min_buffer_rows (r_opts r) = 0" "0 < rowset_bytes (r_opts r)"
  proof -
    have "int (r_rows_per_fetch r') * row_bytes (r_cols r) \<le> int ?n * row_bytes (r_cols r)" using le(2) f assms(3) by (intro mult_right_mono) auto
    then show ?thesis using n that le f by auto
  qed
  ultimately show ?thesis by blast
qed

definition demo_cursor :: "(int \<Rightarrow> nat \<Rightarrow> fetch_answer) \<Rightarrow> odbc_cursor" where
  "demo_cursor f = \<lparr>oc_fetch = f, oc_scroll = (\<lambda>_. FetchNoData), oc_getdata = (\<lambda>_. \<lparr>set_pos = (\<lambda>_. None), get_data = (\<lambda>_ _. [])\<rparr>),
     oc_resize = (\<lambda>_. None), oc_bind = (\<lambda>_. None), oc_rows_fetched_ptr = True, oc_mutex = True, oc_cond = True, oc_thread = True\<rparr>"

definition demo_unbound :: OdbcReader where
  "demo_unbound = (demo_reader demo_int_column [] [] 0)\<lparr>r_bound := False, r_slots := [], r_rows_seen := 0\<rparr>"

lemma demo_RowsetRows: "RowsetRows demo_opts [demo_int_column] = 1024"
  by (simp add: RowsetRows_def demo_opts_def demo_int_column_def row_bytes_def u64_def)

lemma BindCols_succeeds: "(\<And>i. bnd i = None) \<Longrightarrow> BindCols bnd cs i = None"
  by (induction bnd cs i rule: BindCols.induct) auto

lemma ReaderBind_succeeds: "(\<And>i. oc_bind drv i = None) \<Longrightarrow> oc_mutex drv \<Longrightarrow> oc_cond drv \<Longrightarrow> \<exists>r'. ReaderBind drv r = Inr r'"
  by (simp add: ReaderBind_def PrefetchStart_def ReaderBindSlot_def BindCols_succeeds Let_def)

theorem ReaderBind_fits_witness:
  "\<exists>r'. ReaderBind (demo_cursor (\<lambda>_ _. FetchNoData)) demo_unbound = Inr r' \<and> reader_fits r'"
proof -
  obtain r' where r': "ReaderBind (demo_cursor (\<lambda>_ _. FetchNoData)) demo_unbound = Inr r'"
    using ReaderBind_succeeds [of "demo_cursor (\<lambda>_ _. FetchNoData)" demo_unbound] by (auto simp: demo_cursor_def)
  have "options_ok (r_opts demo_unbound)" "0 \<le> row_bytes (r_cols demo_unbound)" "row_bytes (r_cols demo_unbound) \<le> UINT64_MAX"
    by (simp_all add: options_ok_def demo_unbound_def demo_reader_def demo_opts_def row_bytes_def demo_int_column_def u64_def)
  from ReaderBind_fits [OF r' this] r' show ?thesis by blast
qed

text \<open>Nothing the loop does to the reader leaves the buffers too small.\<close>

lemma slot_fits_store:
  "slot_fits cap cs s \<Longrightarrow> same_shape s bufs inds sts
   \<Longrightarrow> slot_fits cap cs (s\<lparr>s_buffers := bufs, s_indicators := inds, s_row_status := sts, s_rows_fetched_raw := raw\<rparr>)"
  unfolding slot_fits_def same_shape_def by (auto simp: list_eq_iff_nth_eq)

lemma reader_fits_store:
  assumes "reader_fits r" "same_shape (cur_slot r) bufs inds sts"
  shows "reader_fits (store_rowset r bufs inds sts raw)"
proof -
  from assms(1) obtain cap where cap: "1 \<le> r_rows_per_fetch r" "r_rows_per_fetch r \<le> cap" "r_rowset_full r \<le> cap" "1 \<le> r_rowset_full r"
    "r_cur_slot r < length (r_slots r)" "list_all (slot_fits cap (r_cols r)) (r_slots r)" by (auto simp: reader_fits_def)
  have "slot_fits cap (r_cols r) (cur_slot r)" using cap(5,6) by (simp add: cur_slot_def list_all_length)
  from slot_fits_store [OF this assms(2), of raw] cap show ?thesis
    unfolding reader_fits_def store_rowset_def
    by (intro exI [of _ cap]) (auto simp: list_all_length nth_list_update)
qed

lemma reader_fits_cong:
  assumes "reader_fits r" "r_slots r' = r_slots r" "r_cols r' = r_cols r" "r_cur_slot r' = r_cur_slot r"
    and "r_rows_per_fetch r' = r_rows_per_fetch r \<or> r_rows_per_fetch r' = 1 \<or> r_rows_per_fetch r' = r_rowset_full r"
    and "r_rowset_full r' = r_rowset_full r"
  shows "reader_fits r'"
proof -
  from assms(1) obtain cap where "1 \<le> r_rows_per_fetch r" "r_rows_per_fetch r \<le> cap" "r_rowset_full r \<le> cap" "1 \<le> r_rowset_full r"
    "r_cur_slot r < length (r_slots r)" "list_all (slot_fits cap (r_cols r)) (r_slots r)" by (auto simp: reader_fits_def)
  then show ?thesis unfolding reader_fits_def using assms(2-6) by (intro exI [of _ cap]) auto
qed

lemma UnbindCols_fits:
  "UnbindCols bnd is r = Inr r' \<Longrightarrow> list_all (\<lambda>i. i < length (r_cols r)) is \<Longrightarrow> reader_fits r \<Longrightarrow> reader_fits r'"
proof (induction bnd "is" r arbitrary: r' rule: UnbindCols.induct)
  case (2 bnd i "is" r)
  let ?r = "r\<lparr>r_cols := (r_cols r)[i := (r_cols r ! i)\<lparr>bound := False, clipped := False\<rparr>],
                  r_slots := map (\<lambda>s. s\<lparr>s_buffers := (s_buffers s)[i := []]\<rparr>) (r_slots r)\<rparr>"
  show ?case
  proof (cases "bound (r_cols r ! i)")
    case True
    then have b: "bnd i = None" "UnbindCols bnd is ?r = Inr r'" using 2(3) by (auto split: option.splits)
    from 2(5) obtain cap where cap: "1 \<le> r_rows_per_fetch r" "r_rows_per_fetch r \<le> cap" "r_rowset_full r \<le> cap" "1 \<le> r_rowset_full r"
      "r_cur_slot r < length (r_slots r)" "list_all (slot_fits cap (r_cols r)) (r_slots r)" by (auto simp: reader_fits_def)
    have "slot_fits cap (r_cols ?r) (s\<lparr>s_buffers := (s_buffers s)[i := []]\<rparr>)" if "slot_fits cap (r_cols r) s" for s
      using that 2(4) by (auto simp: slot_fits_def nth_list_update)
    then have "reader_fits ?r" unfolding reader_fits_def using cap by (intro exI [of _ cap]) (auto simp: list_all_iff)
    then show ?thesis using 2(2) [OF _ b(1) b(2)] True 2(4) by simp
  next
    case False
    then show ?thesis using 2(1) [OF _ _ _ 2(5)] 2(3,4) by simp
  qed
qed simp

lemma ReaderUnbindFrom_fits:
  assumes "ReaderUnbindFrom drv r from = Inr r'" "reader_fits r"
  shows "reader_fits r'"
proof (cases "r_rows_per_fetch r > 1 \<and> \<not> ReaderResizeRowset drv r 1")
  case True
  then show ?thesis using assms(1) by (auto simp: ReaderUnbindFrom_def intro: reader_fits_cong [OF assms(2)])
next
  case False
  let ?r = "if r_rows_per_fetch r > 1 then r\<lparr>r_rows_per_fetch := 1\<rparr> else r"
  obtain r1 where r1: "UnbindCols (oc_bind drv) [from..<length (r_cols ?r)] ?r = Inr r1"
    and r': "r' = ReaderUseSlot (r1\<lparr>r_all_bound := False\<rparr>) (r_cur_slot r1)"
    using assms(1) False unfolding ReaderUnbindFrom_def Let_def by (auto split: sum.splits)
  have "reader_fits ?r" by (rule reader_fits_cong [OF assms(2)]) auto
  then have "reader_fits r1" by (intro UnbindCols_fits [OF r1]) (auto simp: list_all_iff)
  then show ?thesis unfolding r' ReaderUseSlot_def by (rule reader_fits_cong) auto
qed

lemma CountTruncated_fits: "reader_fits r \<Longrightarrow> reader_fits (CountTruncated wsize r n)"
proof -
  let ?cs = "r_cols (CountTruncated wsize r n)"
  have same: "length ?cs = length (r_cols r)" "\<And>i. i < length ?cs \<Longrightarrow> bound (?cs ! i) = bound (r_cols r ! i) \<and> elem_size (?cs ! i) = elem_size (r_cols r ! i)"
    by (simp_all add: CountTruncated_def Let_def)
  have s: "slot_fits cap ?cs = slot_fits cap (r_cols r)" for cap using same by (auto simp: slot_fits_def)
  assume "reader_fits r"
  then show ?thesis unfolding reader_fits_def s by (simp add: CountTruncated_def)
qed

lemma AdaptBindWidth_fits:
  assumes "AdaptBindWidth wsize drv r n = Inr r'" "reader_fits r"
  shows "reader_fits r'"
proof -
  let ?r = "CountTruncated wsize r n"
  have c: "reader_fits (?r\<lparr>r_adapt_open := False\<rparr>)" "reader_fits (?r\<lparr>r_adapt_open := False, r_rowset_restore := True\<rparr>)"
    by (rule reader_fits_cong [OF CountTruncated_fits [OF assms(2)]]; simp)+
  show ?thesis using assms(1) CountTruncated_fits [OF assms(2)] c ReaderUnbindFrom_fits
    unfolding AdaptBindWidth_def Let_def by (auto split: if_splits option.splits)
qed

lemma NoteRowset_fits: "reader_fits r \<Longrightarrow> reader_fits (NoteRowset r n bulk)"
  by (erule reader_fits_cong) (auto simp: NoteRowset_def)

lemma NoteRepair_fits: "reader_fits r \<Longrightarrow> reader_fits (NoteRepair drv r)"
  by (erule reader_fits_cong) (auto simp: NoteRepair_def Let_def)

text \<open>
  C22. The invariant of the previous property holds throughout a result set: a fetch that stays inside the buffers it was
  given, followed by conversion, repair, and the collapse to one row or the unbinding of columns that
  turn out too narrow, leaves a reader whose next fetch fits its buffers again.
\<close>

theorem FetchStep_keeps_fit:
  assumes "FetchStep wsize drv r bt = Inr (r', bt', leave)" "reader_fits r"
    and "\<And>bufs inds sts raw. oc_fetch drv (r_rows_seen r) (r_rows_per_fetch r) = Fetched bufs inds sts raw \<Longrightarrow> same_shape (cur_slot r) bufs inds sts"
  shows "reader_fits r'"
proof (cases "oc_fetch drv (r_rows_seen r) (r_rows_per_fetch r)")
  case FetchNoData
  then show ?thesis using assms(1) by (auto simp: FetchStep_def Let_def intro: reader_fits_cong [OF assms(2)])
next
  case (FetchError e)
  then show ?thesis using assms(1) by (simp add: FetchStep_def Let_def)
next
  case (Fetched bufs inds sts raw)
  define r1 where "r1 = NoteRowset (store_rowset r bufs inds sts raw) (ResolveFetched (store_rowset r bufs inds sts raw) (cur_slot (store_rowset r bufs inds sts raw)))
    (RowsetIsBulk (store_rowset r bufs inds sts raw) (ResolveFetched (store_rowset r bufs inds sts raw) (cur_slot (store_rowset r bufs inds sts raw))))"
  have f: "reader_fits r1" unfolding r1_def by (rule NoteRowset_fits [OF reader_fits_store [OF assms(2) assms(3) [OF Fetched]]])
  from assms(1) have "r' = NoteRepair drv r1 \<or> (\<exists>n. AdaptBindWidth wsize drv r1 n = Inr r') \<or> r' = r1"
    unfolding FetchStep_def Let_def Fetched fetch_answer.case r1_def [symmetric] by (auto split: if_splits sum.splits)
  then show ?thesis using f NoteRepair_fits AdaptBindWidth_fits by auto
qed

section \<open>A result set arrives complete and in order\<close>

text \<open>What one cell of a rowset means, and how many bytes of text it is.\<close>

definition cell :: "nat \<Rightarrow> OdbcReader \<Rightarrow> nat \<Rightarrow> nat \<Rightarrow> arrow_value option" where
  "cell wsize r i row = (if row_valid r i row then Some (row_value wsize r i row) else None)"

fun opt_size :: "arrow_value option \<Rightarrow> nat" where
  "opt_size None = 0"
| "opt_size (Some v) = vsize v"

text \<open>An array under construction holds the values \<open>vals\<close>.\<close>

definition col_holds :: "arrow_layout \<Rightarrow> arrow_array \<Rightarrow> arrow_value option list \<Rightarrow> bool" where
  "col_holds l a vals \<longleftrightarrow> arr_ok l a \<and> array_values l a = vals
     \<and> (l = Var \<longrightarrow> a_offsets a ! a_length a = int (sum_list (map opt_size vals)))"

lemma col_holds_start: "col_holds l ArrowArrayStart []"
  using arr_ok_start [of l] by (simp add: col_holds_def array_values_def payload_def mask_def ArrowArrayStart_def)

lemma opt_size_cell: "storage (kind (r_cols r ! i)) = Var \<Longrightarrow> opt_size (cell wsize r i k) = vsize (row_value wsize r i k)"
  by (simp add: cell_def row_value_def)

lemma grows_holds:
  assumes "col_holds l a vals" "grows l a (map (row_valid r i) [0..<n]) vs a'" "l = storage (kind (r_cols r ! i))"
    and "\<forall>k<n. row_valid r i k \<or> l = Var \<longrightarrow> vs ! k = row_value wsize r i k"
  shows "col_holds l a' (vals @ map (cell wsize r i) [0..<n])"
proof -
  have ok: "arr_ok l a" "array_values l a = vals" using assms(1) by (simp_all add: col_holds_def)
  have len: "length vs = n" using assms(2) by (simp add: grows_def)
  have "mask (map (row_valid r i) [0..<n]) vs = map (cell wsize r i) [0..<n]"
    using assms(4) len by (intro nth_equalityI) (auto simp: mask_def cell_def)
  then have v: "array_values l a' = vals @ map (cell wsize r i) [0..<n]" using grows_values [OF ok(1) assms(2)] ok(2) by simp
  have "a_offsets a' ! a_length a' = int (sum_list (map opt_size (vals @ map (cell wsize r i) [0..<n])))" if var: "l = Var"
  proof -
    have "vs = map (row_value wsize r i) [0..<n]" using assms(4) len var by (intro nth_equalityI) auto
    then have "map vsize vs = map opt_size (map (cell wsize r i) [0..<n])"
      using var assms(3) opt_size_cell [of r i wsize] by simp
    then show ?thesis using assms(1,2) var var_offset [of a] var_offset [of a'] by (simp add: grows_def arr_ok_def col_holds_def del: layout_ok.simps)
  qed
  then show ?thesis using v assms(2) by (simp add: col_holds_def grows_def)
qed

lemma column_converts:
  assumes "rowset_ok r i n" "\<forall>row<n. row_ok wsize r i row" "bulk_kind (kind (r_cols r ! i))" "wsize = 2 \<or> wsize = 4"
    and "col_holds (storage (kind (r_cols r ! i))) a vals"
    and "int (sum_list (map opt_size (vals @ map (cell wsize r i) [0..<n]))) \<le> INT32_MAX"
  shows "\<exists>a'. (case BulkAppendColumn wsize r i n a of
                  Inl (Failed ADBC_STATUS_NOT_IMPLEMENTED) \<Rightarrow> AppendRows wsize gdrv r i [0..<n] a
                | res \<Rightarrow> res) = Inr a'
       \<and> col_holds (storage (kind (r_cols r ! i))) a' (vals @ map (cell wsize r i) [0..<n])"
proof -
  let ?c = "r_cols r ! i" and ?l = "storage (kind (r_cols r ! i))"
  have ok: "arr_ok ?l a" using assms(5) by (simp add: col_holds_def)
  have c: "bound ?c" "column_ok ?c" using assms(1) by (simp_all add: rowset_ok_def Let_def)
  show ?thesis
  proof (cases "BulkAppendColumn wsize r i n a")
    case (Inr a')
    obtain vs where vs: "grows ?l a (map (row_valid r i) [0..<n]) vs a'"
      "\<forall>k<n. row_valid r i k \<or> ?l = Var \<longrightarrow> vs ! k = row_value wsize r i k"
      using bulk_grows [OF Inr assms(1) ok assms(4)] by blast
    from grows_holds [OF assms(5) vs(1) refl vs(2)] show ?thesis using Inr by simp
  next
    case (Inl e)
    then have e: "e = Failed ADBC_STATUS_NOT_IMPLEMENTED" by (rule bulk_declines [OF _ assms(1,2)])
    have fits: "a_offsets a ! a_length a + int (sum_list (map (\<lambda>row. vsize (row_value wsize r i row)) [0..<n])) \<le> INT32_MAX" if "?l = Var"
    proof -
      have "map (\<lambda>row. vsize (row_value wsize r i row)) [0..<n] = map opt_size (map (cell wsize r i) [0..<n])"
        using opt_size_cell [OF that, of wsize] by simp
      then have "sum_list (map (\<lambda>row. vsize (row_value wsize r i row)) [0..<n]) = sum_list (map opt_size (map (cell wsize r i) [0..<n]))"
        by (rule arg_cong)
      moreover have "a_offsets a ! a_length a = int (sum_list (map opt_size vals))" using assms(5) that by (simp add: col_holds_def)
      ultimately show ?thesis using assms(6) by (simp only: map_append sum_list_append of_nat_add)
    qed
    obtain a' where a': "AppendRows wsize gdrv r i [0..<n] a = Inr a'"
      "grows ?l a (map (row_valid r i) [0..<n]) (map (row_value wsize r i) [0..<n]) a'"
      using AppendRows_grows [OF c(1) assms(3) c(2), of "[0..<n]" wsize a gdrv] assms(2) ok fits by auto
    have "col_holds ?l a' (vals @ map (cell wsize r i) [0..<n])" by (rule grows_holds [OF assms(5) a'(2) refl]) simp
    then show ?thesis using Inl e a'(1) by simp
  qed
qed

text \<open>All the columns of a rowset.\<close>

definition batch_holds :: "OdbcColumn list \<Rightarrow> arrow_array list \<Rightarrow> arrow_value option list list \<Rightarrow> bool" where
  "batch_holds cs batch rows \<longleftrightarrow> length batch = length cs
     \<and> (\<forall>i<length cs. col_holds (storage (kind (cs ! i))) (batch ! i) (map (\<lambda>row. row ! i) rows))"

definition rowset_rows :: "nat \<Rightarrow> OdbcReader \<Rightarrow> nat \<Rightarrow> arrow_value option list list" where
  "rowset_rows wsize r n = map (\<lambda>row. map (\<lambda>i. cell wsize r i row) [0..<length (r_cols r)]) [0..<n]"

lemma BulkCols_holds:
  assumes "\<forall>i<length (r_cols r). rowset_ok r i n \<and> (\<forall>row<n. row_ok wsize r i row) \<and> bulk_kind (kind (r_cols r ! i))"
    and "wsize = 2 \<or> wsize = 4" "distinct is" "\<forall>i \<in> set is. i < length (r_cols r)" "length batch = length (r_cols r)"
    and "\<forall>i \<in> set is. col_holds (storage (kind (r_cols r ! i))) (batch ! i) (vals i)
           \<and> int (sum_list (map opt_size (vals i @ map (cell wsize r i) [0..<n]))) \<le> INT32_MAX"
  shows "\<exists>b. BulkCols wsize gdrv r n is batch = Inr b \<and> length b = length batch \<and> (\<forall>i. i \<notin> set is \<longrightarrow> b ! i = batch ! i)
       \<and> (\<forall>i \<in> set is. col_holds (storage (kind (r_cols r ! i))) (b ! i) (vals i @ map (cell wsize r i) [0..<n]))"
  using assms(3-6)
proof (induction "is" arbitrary: batch)
  case (Cons i "is")
  have i: "i < length (r_cols r)" "i < length batch" using Cons.prems by auto
  have b: "bound (r_cols r ! i)" using assms(1) i(1) by (simp add: rowset_ok_def Let_def)
  obtain a' where a': "(case BulkAppendColumn wsize r i n (batch ! i) of
                  Inl (Failed ADBC_STATUS_NOT_IMPLEMENTED) \<Rightarrow> AppendRows wsize gdrv r i [0..<n] (batch ! i)
                | res \<Rightarrow> res) = Inr a'" "col_holds (storage (kind (r_cols r ! i))) a' (vals i @ map (cell wsize r i) [0..<n])"
    using column_converts [of r i n wsize "batch ! i" "vals i" gdrv] assms(1,2) i Cons.prems(4) by auto
  have "\<forall>j \<in> set is. col_holds (storage (kind (r_cols r ! j))) (batch[i := a'] ! j) (vals j)
           \<and> int (sum_list (map opt_size (vals j @ map (cell wsize r j) [0..<n]))) \<le> INT32_MAX"
  proof
    fix j assume j: "j \<in> set is"
    then have "batch[i := a'] ! j = batch ! j" using Cons.prems(1) by (intro nth_list_update_neq) auto
    then show "col_holds (storage (kind (r_cols r ! j))) (batch[i := a'] ! j) (vals j)
           \<and> int (sum_list (map opt_size (vals j @ map (cell wsize r j) [0..<n]))) \<le> INT32_MAX"
      using Cons.prems(4) j by (simp only: list.set_intros)
  qed
  then obtain b' where b': "BulkCols wsize gdrv r n is (batch[i := a']) = Inr b'" "length b' = length batch"
    "\<forall>j. j \<notin> set is \<longrightarrow> b' ! j = batch[i := a'] ! j"
    "\<forall>j \<in> set is. col_holds (storage (kind (r_cols r ! j))) (b' ! j) (vals j @ map (cell wsize r j) [0..<n])"
    using Cons.IH [of "batch[i := a']"] Cons.prems(1-3) by auto
  have "BulkCols wsize gdrv r n (i # is) batch = Inr b'" using b a'(1) b'(1) by simp
  moreover have "b' ! i = a'" using b'(3) Cons.prems(1) i(2) by simp
  moreover have "\<forall>j. j \<notin> set (i # is) \<longrightarrow> b' ! j = batch ! j" using b'(3) by (auto simp: nth_list_update)
  ultimately show ?case using b'(2,4) a'(2) by auto
qed simp

lemma ConvertRowset_holds:
  assumes "\<forall>i<length (r_cols r). rowset_ok r i n \<and> (\<forall>row<n. row_ok wsize r i row) \<and> bulk_kind (kind (r_cols r ! i))"
    and "wsize = 2 \<or> wsize = 4" "r_all_bound r" "batch_holds (r_cols r) batch rows"
    and "\<forall>i<length (r_cols r). int (sum_list (map (\<lambda>row. opt_size (row ! i)) (rows @ rowset_rows wsize r n))) \<le> INT32_MAX"
  shows "\<exists>b. ConvertRowset wsize gdrv r n True (batch, tot) = Inr (b, tot + n) \<and> batch_holds (r_cols r) b (rows @ rowset_rows wsize r n)"
proof -
  let ?is = "[0..<length (r_cols r)]" and ?vals = "\<lambda>i. map (\<lambda>row. row ! i) rows"
  have col: "map (\<lambda>row. row ! i) (rowset_rows wsize r n) = map (cell wsize r i) [0..<n]" if "i < length (r_cols r)" for i
    using that by (simp add: rowset_rows_def)
  have h: "\<forall>i \<in> set ?is. col_holds (storage (kind (r_cols r ! i))) (batch ! i) (?vals i)
           \<and> int (sum_list (map opt_size (?vals i @ map (cell wsize r i) [0..<n]))) \<le> INT32_MAX"
  proof
    fix i assume "i \<in> set ?is"
    then have i: "i < length (r_cols r)" by simp
    have "map opt_size (?vals i @ map (cell wsize r i) [0..<n]) = map (\<lambda>row. opt_size (row ! i)) (rows @ rowset_rows wsize r n)"
      unfolding col [OF i, symmetric] by simp
    then have "sum_list (map opt_size (?vals i @ map (cell wsize r i) [0..<n])) = sum_list (map (\<lambda>row. opt_size (row ! i)) (rows @ rowset_rows wsize r n))"
      by (rule arg_cong)
    moreover have "col_holds (storage (kind (r_cols r ! i))) (batch ! i) (?vals i)" using assms(4) i by (simp add: batch_holds_def)
    ultimately show "col_holds (storage (kind (r_cols r ! i))) (batch ! i) (?vals i)
           \<and> int (sum_list (map opt_size (?vals i @ map (cell wsize r i) [0..<n]))) \<le> INT32_MAX"
      using assms(5) i by simp
  qed
  obtain b where b: "BulkCols wsize gdrv r n ?is batch = Inr b" "length b = length batch"
    "\<forall>i \<in> set ?is. col_holds (storage (kind (r_cols r ! i))) (b ! i) (?vals i @ map (cell wsize r i) [0..<n])"
    using BulkCols_holds [OF assms(1,2), of ?is batch ?vals gdrv] h assms(4) by (auto simp: batch_holds_def)
  have "batch_holds (r_cols r) b (rows @ rowset_rows wsize r n)"
    using b(2,3) assms(4) col by (auto simp: batch_holds_def)
  then show ?thesis using b(1) assms(3) by (simp add: ConvertRowset_def)
qed

text \<open>
  A driver that serves the table \<open>tbl\<close>: \<^verbatim>\<open>SQLFetch\<close> with a rowset of \<open>n\<close> rows answers \<^verbatim>\<open>SQL_NO_DATA\<close>
  after the last row, and otherwise reports how many rows it wrote, marks none of them as missing or
  failed, and leaves memory that decodes to the next rows of the table, no value cut.
\<close>

definition rowset_holds :: "nat \<Rightarrow> OdbcReader \<Rightarrow> nat \<Rightarrow> arrow_value option list list \<Rightarrow> bool" where
  "rowset_holds wsize r n rows \<longleftrightarrow> rowset_rows wsize r n = rows
     \<and> (\<forall>i<length (r_cols r). rowset_ok r i n \<and> (\<forall>row<n. row_ok wsize r i row) \<and> bulk_kind (kind (r_cols r ! i)))"

definition serves :: "nat \<Rightarrow> odbc_cursor \<Rightarrow> OdbcReaderOptions \<Rightarrow> OdbcColumn list \<Rightarrow> arrow_value option list list \<Rightarrow> bool" where
  "serves wsize drv opts cs tbl \<longleftrightarrow> (\<forall>p n. 0 < n \<longrightarrow>
     (if length tbl \<le> p then oc_fetch drv (int p) n = FetchNoData
      else \<exists>bufs inds sts raw. oc_fetch drv (int p) n = Fetched bufs inds sts raw
        \<and> OdbcReadULen raw (sqllen_32bit opts) = int (min n (length tbl - p))
        \<and> (\<forall>j<min n (length tbl - p). sts ! j \<noteq> SQL_ROW_NOROW \<and> sts ! j \<noteq> SQL_ROW_ERROR)
        \<and> (\<forall>r. r_cols r = cs \<and> r_opts r = opts \<and> s_buffers (cur_slot r) = bufs \<and> s_indicators (cur_slot r) = inds
             \<longrightarrow> rowset_holds wsize r (min n (length tbl - p)) (take (min n (length tbl - p)) (drop p tbl)))))"

text \<open>A reader in the middle of such a result set.\<close>

definition steady :: "OdbcReaderOptions \<Rightarrow> OdbcColumn list \<Rightarrow> OdbcReader \<Rightarrow> bool" where
  "steady opts cs r \<longleftrightarrow> r_cols r = cs \<and> r_opts r = opts \<and> r_all_bound r \<and> \<not> r_adapt_open r \<and> \<not> r_prefetching r
     \<and> \<not> r_rowset_restore r \<and> r_bound r \<and> 1 \<le> r_rows_per_fetch r \<and> r_cur_slot r < length (r_slots r)
     \<and> (r_no_rows_fetched_ptr r \<longrightarrow> r_rows_per_fetch r = 1)"

lemma cur_slot_store [simp]:
  "r_cur_slot r < length (r_slots r) \<Longrightarrow>
   cur_slot (store_rowset r bufs inds sts raw) = (cur_slot r)\<lparr>s_buffers := bufs, s_indicators := inds, s_row_status := sts, s_rows_fetched_raw := raw\<rparr>"
  by (simp add: cur_slot_def store_rowset_def)

lemma store_rowset_fields [simp]:
  "r_cols (store_rowset r bufs inds sts raw) = r_cols r" "r_opts (store_rowset r bufs inds sts raw) = r_opts r"
  "r_no_rows_fetched_ptr (store_rowset r bufs inds sts raw) = r_no_rows_fetched_ptr r"
  by (simp_all add: store_rowset_def)

lemma cur_slot_NoteRowset [simp]: "cur_slot (NoteRowset r n bulk) = cur_slot r"
  by (simp add: cur_slot_def NoteRowset_def)

lemma RowsetTruncated_whole:
  "\<forall>i<length (r_cols r). \<forall>row<n. row_ok wsize r i row \<Longrightarrow> \<not> RowsetTruncated wsize r (cur_slot r) n"
  by (auto simp: RowsetTruncated_def list_ex_iff row_ok_def col_indicator_def Let_def)

lemma FetchStep_serves:
  assumes "serves wsize drv opts cs tbl" "steady opts cs r" "r_rows_seen r = int p" "p < length tbl" "wsize = 2 \<or> wsize = 4"
    and "batch_holds cs batch rows" "k = min (r_rows_per_fetch r) (length tbl - p)"
    and "\<forall>i<length cs. int (sum_list (map (\<lambda>row. opt_size (row ! i)) (rows @ take k (drop p tbl)))) \<le> INT32_MAX"
  shows "\<exists>r' b. FetchStep wsize drv r (batch, tot) = Inr (r', (b, tot + k), r_rows_per_fetch r = 1 \<and> int (tot + k) \<ge> batch_size opts)
       \<and> steady opts cs r' \<and> r_rows_seen r' = int (p + k) \<and> r_rows_per_fetch r' = r_rows_per_fetch r \<and> r_done r' = r_done r
       \<and> batch_holds cs b (rows @ take k (drop p tbl))"
proof -
  let ?n = "r_rows_per_fetch r"
  note st = assms(2) [unfolded steady_def]
  have n: "0 < ?n" "k \<noteq> 0" using st assms(4,7) by auto
  obtain bufs inds sts raw where f: "oc_fetch drv (int p) ?n = Fetched bufs inds sts raw" "OdbcReadULen raw (sqllen_32bit opts) = int k"
    "\<forall>j<k. sts ! j \<noteq> SQL_ROW_NOROW \<and> sts ! j \<noteq> SQL_ROW_ERROR"
    "\<forall>r. r_cols r = cs \<and> r_opts r = opts \<and> s_buffers (cur_slot r) = bufs \<and> s_indicators (cur_slot r) = inds
             \<longrightarrow> rowset_holds wsize r k (take k (drop p tbl))"
    using assms(1,4,7) n(1) unfolding serves_def by (metis not_le)
  let ?r0 = "store_rowset r bufs inds sts raw"
  have s: "cur_slot ?r0 = (cur_slot r)\<lparr>s_buffers := bufs, s_indicators := inds, s_row_status := sts, s_rows_fetched_raw := raw\<rparr>" using st by simp
  have k: "ResolveFetched ?r0 (cur_slot ?r0) = k"
    using f(2) st n assms(4,7) by (auto simp: ResolveFetched_def)
  have bulk: "RowsetIsBulk ?r0 k" using f(3) n(2) by (simp add: RowsetIsBulk_def s list_all_iff Let_def)
  define r1 where "r1 = NoteRowset ?r0 k True"
  have r1: "r_cols r1 = cs" "r_opts r1 = opts" "s_buffers (cur_slot r1) = bufs" "s_indicators (cur_slot r1) = inds"
    "r_all_bound r1" "\<not> r_adapt_open r1" "r_rows_per_fetch r1 = ?n" "r_rows_seen r1 = int (p + k)" "steady opts cs r1" "r_done r1 = r_done r"
    using st s assms(3) by (simp_all add: r1_def NoteRowset_def store_rowset_def steady_def cur_slot_def)
  have h: "rowset_holds wsize r1 k (take k (drop p tbl))" using f(4) r1(1-4) by blast
  then have rr: "rowset_rows wsize r1 k = take k (drop p tbl)" and cols: "\<forall>i<length (r_cols r1). rowset_ok r1 i k \<and> (\<forall>row<k. row_ok wsize r1 i row) \<and> bulk_kind (kind (r_cols r1 ! i))"
    by (simp_all add: rowset_holds_def)
  obtain b where b: "ConvertRowset wsize (oc_getdata drv (int p)) r1 k True (batch, tot) = Inr (b, tot + k)" "batch_holds cs b (rows @ take k (drop p tbl))"
    using ConvertRowset_holds [OF cols assms(5) r1(5), of batch rows "oc_getdata drv (int p)" tot] assms(6,8) unfolding r1(1) rr by blast
  have m: "\<not> must_refetch wsize r1 k True" using RowsetTruncated_whole [of r1 k wsize] cols by (simp add: must_refetch_def)
  have "FetchStep wsize drv r (batch, tot) = Inr (r1, (b, tot + k), ?n = 1 \<and> int (tot + k) \<ge> batch_size opts)"
  proof -
    have e: "RowsetIsBulk ?r0 k = True" "must_refetch wsize r1 k True = False" using bulk m by simp_all
    have "FetchStep wsize drv r (batch, tot) = (case Inr (b, tot + k) of Inl e \<Rightarrow> Inl e
             | Inr bt \<Rightarrow> (case (if r_adapt_open r1 \<and> True then AdaptBindWidth wsize drv r1 k else Inr r1) of
                    Inl e \<Rightarrow> Inl (Failed e)
                  | Inr r \<Rightarrow> Inr (r, bt, r_rows_per_fetch r = 1 \<and> int (snd bt) \<ge> batch_size (r_opts r))))"
      by (simp only: FetchStep_def Let_def assms(3) f(1) fetch_answer.case k e(1) r1_def [symmetric] e(2) if_False b(1))
    then show ?thesis using r1(2,6,7) by simp
  qed
  then show ?thesis using r1 b(2) by blast
qed

lemma take_drop_split: "p \<le> q \<Longrightarrow> q \<le> s \<Longrightarrow> take (q - p) (drop p xs) @ take (s - q) (drop q xs) = take (s - p) (drop p xs)"
  using take_add [of "q - p" "s - q" "drop p xs"] by simp

lemma take_sizes: "int (sum_list (map f (xs @ take k ys))) \<le> int (sum_list (map f (xs @ (ys :: 'a list))))" for f :: "'a \<Rightarrow> nat"
proof -
  have "sum_list (map f (take k ys)) \<le> sum_list (map f (take k ys)) + sum_list (map f (drop k ys))" by simp
  also have "\<dots> = sum_list (map f ys)" by (simp flip: sum_list_append map_append)
  finally show ?thesis by simp
qed

lemma BatchLoop_serves:
  assumes "serves wsize drv opts cs tbl" "wsize = 2 \<or> wsize = 4" "0 < batch_size opts"
    and "length tbl - p < fuel" "steady opts cs r" "r_rows_seen r = int p" "p \<le> length tbl" "\<not> r_done r" "batch_holds cs batch rows"
    and "\<forall>i<length cs. int (sum_list (map (\<lambda>row. opt_size (row ! i)) (rows @ drop p tbl))) \<le> INT32_MAX"
    and "int tot \<le> max (batch_size opts) (int (r_rows_per_fetch r))"
  shows "\<exists>r' b q. BatchLoop fuel wsize drv r pub (batch, tot) = Some (Inr (r', pub, b, tot + (q - p)))
       \<and> p \<le> q \<and> q \<le> length tbl \<and> steady opts cs r' \<and> r_rows_seen r' = int q \<and> r_rows_per_fetch r' = r_rows_per_fetch r
       \<and> batch_holds cs b (rows @ take (q - p) (drop p tbl))
       \<and> (tot = 0 \<and> q = p \<longrightarrow> r_done r') \<and> (r_done r' \<longrightarrow> q = length tbl)
       \<and> int (tot + (q - p)) \<le> max (batch_size opts) (int (r_rows_per_fetch r))"
  using assms(4-11)
proof (induction fuel arbitrary: r p batch rows tot)
  case (Suc fuel)
  let ?n = "r_rows_per_fetch r" and ?bs = "batch_size opts"
  have st: "r_opts r = opts" "\<not> r_prefetching r" "1 \<le> ?n" using Suc.prems(2) by (auto simp: steady_def)
  show ?case
  proof (cases "tot = 0 \<or> int (tot + ?n) \<le> ?bs")
    case False
    then show ?thesis using Suc.prems st by (intro exI [of _ r] exI [of _ batch] exI [of _ p]) simp
  next
    case go: True
    show ?thesis
    proof (cases "p = length tbl")
      case True
      have "oc_fetch drv (int p) ?n = FetchNoData" using assms(1) st(3) True by (auto simp: serves_def)
      then have "BatchLoop (Suc fuel) wsize drv r pub (batch, tot) = Some (Inr (r\<lparr>r_done := True\<rparr>, pub, batch, tot))"
        using go Suc.prems(3,5) st by (simp add: FetchStep_def)
      then show ?thesis using Suc.prems True by (intro exI [of _ "r\<lparr>r_done := True\<rparr>"] exI [of _ batch] exI [of _ p]) (simp add: steady_def)
    next
      case False
      then have p: "p < length tbl" using Suc.prems(4) by simp
      define k where "k = min ?n (length tbl - p)"
      have k: "1 \<le> k" "k \<le> ?n" "p + k \<le> length tbl" using p st(3) by (auto simp: k_def)
      have size: "\<forall>i<length cs. int (sum_list (map (\<lambda>row. opt_size (row ! i)) (rows @ take k (drop p tbl)))) \<le> INT32_MAX"
        using Suc.prems(7) take_sizes [of "\<lambda>row. opt_size (row ! _)" rows k "drop p tbl"] by (meson order_trans)
      obtain r1 b1 where f: "FetchStep wsize drv r (batch, tot) = Inr (r1, (b1, tot + k), ?n = 1 \<and> int (tot + k) \<ge> ?bs)"
        "steady opts cs r1" "r_rows_seen r1 = int (p + k)" "r_rows_per_fetch r1 = ?n" "\<not> r_done r1" "batch_holds cs b1 (rows @ take k (drop p tbl))"
        using FetchStep_serves [OF assms(1) Suc.prems(2,3) p assms(2) Suc.prems(6) k_def size, of tot] Suc.prems(5) by auto
      have bound: "int (tot + k) \<le> max ?bs (int ?n)" using go k(2) by auto
      show ?thesis
      proof (cases "?n = 1 \<and> int (tot + k) \<ge> ?bs")
        case True
        then have "BatchLoop (Suc fuel) wsize drv r pub (batch, tot) = Some (Inr (r1, pub, b1, tot + k))"
          using go Suc.prems(5) st f(1) by simp
        then show ?thesis using f k bound by (intro exI [of _ r1] exI [of _ b1] exI [of _ "p + k"]) simp
      next
        case False
        have step: "BatchLoop (Suc fuel) wsize drv r pub (batch, tot) = BatchLoop fuel wsize drv r1 pub (b1, tot + k)"
        proof -
          have leave: "(?n = 1 \<and> int (tot + k) \<ge> ?bs) = False" using False by simp
          show ?thesis using go Suc.prems(5) st f(1) [unfolded leave] by simp
        qed
        have "\<forall>i<length cs. int (sum_list (map (\<lambda>row. opt_size (row ! i)) ((rows @ take k (drop p tbl)) @ drop (p + k) tbl))) \<le> INT32_MAX"
          using Suc.prems(7) by (metis append_assoc append_take_drop_id drop_drop add.commute)
        moreover have "length tbl - (p + k) < fuel" using Suc.prems(1) k by linarith
        ultimately obtain r' b q where ih: "BatchLoop fuel wsize drv r1 pub (b1, tot + k) = Some (Inr (r', pub, b, tot + k + (q - (p + k))))"
          "p + k \<le> q" "q \<le> length tbl" "steady opts cs r'" "r_rows_seen r' = int q" "r_rows_per_fetch r' = ?n"
          "batch_holds cs b ((rows @ take k (drop p tbl)) @ take (q - (p + k)) (drop (p + k) tbl))"
          "r_done r' \<longrightarrow> q = length tbl" "int (tot + k + (q - (p + k))) \<le> max ?bs (int ?n)"
          using Suc.IH [of "p + k" r1 b1 "rows @ take k (drop p tbl)" "tot + k"] f k(3) bound by auto
        have "take k (drop p tbl) @ take (q - (p + k)) (drop (p + k) tbl) = take (q - p) (drop p tbl)"
          using take_drop_split [of p "p + k" q tbl] ih(2) by simp
        moreover have "tot + k + (q - (p + k)) = tot + (q - p)" using ih(2) by simp
        ultimately show ?thesis using step ih k by (intro exI [of _ r'] exI [of _ b] exI [of _ q]) auto
      qed
    qed
  qed
qed simp

text \<open>The caller: \<^verbatim>\<open>get_next\<close> until the stream ends or fails.\<close>

fun ReadStream :: "nat \<Rightarrow> nat \<Rightarrow> nat \<Rightarrow> odbc_cursor \<Rightarrow> OdbcReader \<Rightarrow> published list \<Rightarrow> (convert_error + (arrow_array list \<times> nat) list) option" where
  "ReadStream 0 fuel wsize drv r pub = None"
| "ReadStream (Suc calls) fuel wsize drv r pub =
     (case ReaderGetNext fuel wsize drv r pub of
        None \<Rightarrow> None
      | Some (r, pub, Inl e) \<Rightarrow> Some (Inl e)
      | Some (r, pub, Inr None) \<Rightarrow> Some (Inr [])
      | Some (r, pub, Inr (Some bt)) \<Rightarrow>
          (case ReadStream calls fuel wsize drv r pub of
             None \<Rightarrow> None
           | Some (Inl e) \<Rightarrow> Some (Inl e)
           | Some (Inr bts) \<Rightarrow> Some (Inr (bt # bts))))"

definition column_values :: "OdbcColumn list \<Rightarrow> nat \<Rightarrow> (arrow_array list \<times> nat) list \<Rightarrow> arrow_value option list" where
  "column_values cs i bts = concat (map (\<lambda>bt. array_values (storage (kind (cs ! i))) (fst bt ! i)) bts)"

lemma batch_holds_start: "batch_holds cs (replicate (length cs) ArrowArrayStart) []"
  by (simp add: batch_holds_def col_holds_start)

lemma ReaderGetNext_serves:
  assumes "serves wsize drv opts cs tbl" "wsize = 2 \<or> wsize = 4" "0 < batch_size opts"
    and "length tbl - p < fuel" "steady opts cs r" "r_rows_seen r = int p" "p \<le> length tbl" "\<not> r_done r"
    and "\<forall>i<length cs. int (sum_list (map (\<lambda>row. opt_size (row ! i)) tbl)) \<le> INT32_MAX"
  shows "\<exists>r' q b. ReaderGetNext fuel wsize drv r pub = Some (r', pub, Inr (if q = p then None else Some (b, q - p)))
       \<and> p \<le> q \<and> q \<le> length tbl \<and> steady opts cs r' \<and> r_rows_seen r' = int q \<and> r_rows_per_fetch r' = r_rows_per_fetch r
       \<and> batch_holds cs b (take (q - p) (drop p tbl)) \<and> (r_done r' \<or> q = p \<longrightarrow> q = length tbl)
       \<and> int (q - p) \<le> max (batch_size opts) (int (r_rows_per_fetch r))"
proof -
  have size: "\<forall>i<length cs. int (sum_list (map (\<lambda>row. opt_size (row ! i)) ([] @ drop p tbl))) \<le> INT32_MAX"
  proof (intro allI impI)
    fix i assume "i < length cs"
    moreover have "sum_list (map (\<lambda>row. opt_size (row ! i)) (drop p tbl)) \<le> sum_list (map (\<lambda>row. opt_size (row ! i)) tbl)"
      by (metis append_take_drop_id le_add2 map_append sum_list_append)
    ultimately show "int (sum_list (map (\<lambda>row. opt_size (row ! i)) ([] @ drop p tbl))) \<le> INT32_MAX" using assms(9) by fastforce
  qed
  have z: "int 0 \<le> max (batch_size opts) (int (r_rows_per_fetch r))" by simp
  obtain r' b q where l: "BatchLoop fuel wsize drv r pub (replicate (length cs) ArrowArrayStart, 0) = Some (Inr (r', pub, b, 0 + (q - p)))"
    "p \<le> q" "q \<le> length tbl" "steady opts cs r'" "r_rows_seen r' = int q" "r_rows_per_fetch r' = r_rows_per_fetch r"
    "batch_holds cs b ([] @ take (q - p) (drop p tbl))" "(0::nat) = 0 \<and> q = p \<longrightarrow> r_done r'" "r_done r' \<longrightarrow> q = length tbl"
    "int (0 + (q - p)) \<le> max (batch_size opts) (int (r_rows_per_fetch r))"
    using BatchLoop_serves [OF assms(1-8) batch_holds_start size z, of pub] by blast
  have st: "r_bound r" "\<not> r_rowset_restore r" "r_cols r = cs" using assms(5) by (simp_all add: steady_def)
  have "ReaderNextBatch fuel wsize drv r pub = Some (Inr (r', pub, if q = p then None else Some (b, q - p)))"
    using l(1,2) st by (simp add: ReaderNextBatch_def)
  then have "ReaderGetNext fuel wsize drv r pub = Some (r', pub, Inr (if q = p then None else Some (b, q - p)))"
    using assms(8) by (simp add: ReaderGetNext_def)
  then show ?thesis using l by (intro exI [of _ r'] exI [of _ q] exI [of _ b]) auto
qed

lemma ReadStream_serves:
  assumes "serves wsize drv opts cs tbl" "wsize = 2 \<or> wsize = 4" "0 < batch_size opts"
    and "\<forall>i<length cs. int (sum_list (map (\<lambda>row. opt_size (row ! i)) tbl)) \<le> INT32_MAX" "length tbl < fuel"
    and "length tbl - p < calls" "steady opts cs r" "r_rows_seen r = int p" "p \<le> length tbl" "r_done r \<longrightarrow> p = length tbl"
  shows "\<exists>bts. ReadStream calls fuel wsize drv r pub = Some (Inr bts)
       \<and> (\<forall>i<length cs. column_values cs i bts = map (\<lambda>row. row ! i) (drop p tbl))
       \<and> (\<forall>bt \<in> set bts. 0 < snd bt \<and> int (snd bt) \<le> max (batch_size opts) (int (r_rows_per_fetch r)))"
  using assms(6-10)
proof (induction calls arbitrary: p r)
  case (Suc calls)
  show ?case
  proof (cases "r_done r")
    case True
    then show ?thesis using Suc.prems by (simp add: ReaderGetNext_def column_values_def)
  next
    case False
    have fuel: "length tbl - p < fuel" using assms(5) by simp
    obtain r' q b where g: "ReaderGetNext fuel wsize drv r pub = Some (r', pub, Inr (if q = p then None else Some (b, q - p)))"
      "p \<le> q" "q \<le> length tbl" "steady opts cs r'" "r_rows_seen r' = int q" "r_rows_per_fetch r' = r_rows_per_fetch r"
      "batch_holds cs b (take (q - p) (drop p tbl))" "r_done r' \<or> q = p \<longrightarrow> q = length tbl"
      "int (q - p) \<le> max (batch_size opts) (int (r_rows_per_fetch r))"
      using ReaderGetNext_serves [OF assms(1-3) fuel Suc.prems(2-4) False assms(4), of pub] by blast
    show ?thesis
    proof (cases "q = p")
      case True
      then show ?thesis using g by (simp add: column_values_def)
    next
      case ne: False
      then have "length tbl - q < calls" using Suc.prems(1) g(2,3) by linarith
      then obtain bts where bts: "ReadStream calls fuel wsize drv r' pub = Some (Inr bts)"
        "\<forall>i<length cs. column_values cs i bts = map (\<lambda>row. row ! i) (drop q tbl)"
        "\<forall>bt \<in> set bts. 0 < snd bt \<and> int (snd bt) \<le> max (batch_size opts) (int (r_rows_per_fetch r))"
        using Suc.IH [of q r'] g by auto
      have "ReadStream (Suc calls) fuel wsize drv r pub = Some (Inr ((b, q - p) # bts))" using g(1) ne bts(1) by simp
      moreover have "column_values cs i ((b, q - p) # bts) = map (\<lambda>row. row ! i) (drop p tbl)" if "i < length cs" for i
      proof -
        have "array_values (storage (kind (cs ! i))) (b ! i) = map (\<lambda>row. row ! i) (take (q - p) (drop p tbl))"
          using g(7) that by (simp add: batch_holds_def col_holds_def)
        moreover have "drop p tbl = take (q - p) (drop p tbl) @ drop q tbl" using g(2) by (metis append_take_drop_id drop_drop le_add_diff_inverse2)
        then have "map (\<lambda>row. row ! i) (drop p tbl) = map (\<lambda>row. row ! i) (take (q - p) (drop p tbl)) @ map (\<lambda>row. row ! i) (drop q tbl)"
          by (metis map_append)
        ultimately show ?thesis using bts(2) that by (simp add: column_values_def)
      qed
      ultimately show ?thesis using bts(3) ne g(2,9) by auto
    qed
  qed
qed simp

lemma ReaderBind_steady:
  assumes "ReaderBind drv r = Inr r'" "options_ok (r_opts r)" "0 \<le> row_bytes (r_cols r)" "row_bytes (r_cols r) \<le> UINT64_MAX"
    and "list_all bound (r_cols r)" "\<not> list_ex clipped (r_cols r)" "prefetch (r_opts r) = 0"
    and "\<not> r_adapt_open r" "\<not> r_rowset_restore r" "\<not> r_no_rows_fetched_ptr r" "\<not> r_prefetching r"
  shows "steady (r_opts r) (r_cols r) r' \<and> r_rows_seen r' = r_rows_seen r \<and> r_done r' = r_done r"
proof -
  have pos: "1 \<le> RowsetRows (r_opts r) (r_cols r)" using RowsetRows_bounds [OF assms(2,4,3)] by blast
  note n = NegotiateRowset_rows(1) [OF pos, of drv]
  have clip: "\<not> list_ex (\<lambda>c. bound c \<and> clipped c) (r_cols r)" using assms(6) by (auto simp: list_ex_iff)
  have neg: "r_all_bound (NegotiateRowset drv r)" "\<not> r_adapt_open (NegotiateRowset drv r)" "\<not> r_rowset_restore (NegotiateRowset drv r)"
    "\<not> r_prefetching (NegotiateRowset drv r)" "r_rows_seen (NegotiateRowset drv r) = r_rows_seen r" "r_done (NegotiateRowset drv r) = r_done r"
    "r_no_rows_fetched_ptr (NegotiateRowset drv r) \<longrightarrow> r_rows_per_fetch (NegotiateRowset drv r) = 1"
    using assms(5,8-11) clip by (simp_all add: NegotiateRowset_def Let_def)
  have r': "r' = (ReaderUseSlot ((NegotiateRowset drv r)\<lparr>r_slots := [new_slot (r_cols r) (RowsetCapacity (r_opts r) (RowsetRows (r_opts r) (r_cols r)))]\<rparr>) 0)\<lparr>r_bound := True\<rparr>"
    using assms(1,7) by (auto simp: ReaderBind_def Let_def split: option.splits)
  show ?thesis unfolding r' ReaderUseSlot_def steady_def using neg n by simp
qed

lemma ReadStream_bind:
  assumes "\<not> r_bound r" "ReaderBind drv r = Inr r'" "r_bound r'" "r_done r' = r_done r"
  shows "ReadStream calls fuel wsize drv r pub = ReadStream calls fuel wsize drv r' pub"
proof (cases calls)
  case (Suc c)
  have "ReaderNextBatch fuel wsize drv r pub = ReaderNextBatch fuel wsize drv r' pub"
    using assms by (simp add: ReaderNextBatch_def)
  then show ?thesis using Suc assms(4) by (cases "r_done r") (auto simp: ReaderGetNext_def split: option.splits sum.splits)
qed simp

text \<open>A driver that serves a table of one row, the 16-bit integer 7, into buffers of any size.\<close>

definition demo_table :: "arrow_value option list list" where
  "demo_table = [[Some (VFixed [7, 0])]]"

definition demo_serve :: "int \<Rightarrow> nat \<Rightarrow> fetch_answer" where
  "demo_serve p n = (if p < 1 then Fetched [[7, 0] @ replicate (2 * (n - 1)) 0]
     [[2, 0, 0, 0, 0, 0, 0, 0] @ replicate (8 * (n - 1)) 0] (replicate n 0) 1 else FetchNoData)"

lemma demo_rowset_holds:
  assumes "r_cols r = [demo_int_column]" "r_opts r = demo_opts"
    and "s_buffers (cur_slot r) = [[7, 0] @ replicate (2 * (n - 1)) 0]" "s_indicators (cur_slot r) = [[2, 0, 0, 0, 0, 0, 0, 0] @ replicate (8 * (n - 1)) 0]"
  shows "rowset_holds 2 r 1 demo_table"
proof -
  have ind: "col_indicator r 0 0 = 2"
    using assms by (simp add: col_indicator_def demo_opts_def OdbcIndicatorGet_def mem_slice_def read_signed_def swrap_def)
  have ok: "rowset_ok r 0 1" using assms by (simp add: rowset_ok_def demo_int_column_def column_ok_def var_ctype_def Let_def bytes_ok_def)
  have row: "row_ok 2 r 0 0" "cell 2 r 0 0 = Some (VFixed [7, 0])" using ind assms
    by (simp_all add: row_ok_def cell_def row_value_def demo_int_column_def BoundValueTruncated_def var_ctype_def cell_ok_def bytes_ok_def)
  show ?thesis using ok row assms(1)
    by (simp add: rowset_holds_def rowset_rows_def demo_table_def demo_int_column_def bulk_kind_def)
qed

lemma demo_serves: "serves 2 (demo_cursor demo_serve) demo_opts [demo_int_column] demo_table"
proof -
  have t: "take (min n (Suc 0)) demo_table = demo_table" "min n (Suc 0) = 1" if "0 < n" for n
    using that by (auto simp: demo_table_def)
  have "OdbcReadULen 1 (sqllen_32bit demo_opts) = 1" by (simp add: OdbcReadULen_def demo_opts_def)
  moreover have "demo_serve 0 n = Fetched [[7, 0] @ replicate (2 * (n - 1)) 0] [[2, 0, 0, 0, 0, 0, 0, 0] @ replicate (8 * (n - 1)) 0] (replicate n 0) 1" for n
    by (simp add: demo_serve_def)
  moreover have "demo_serve (int p) n = FetchNoData" if "0 < p" for p n using that by (simp add: demo_serve_def)
  moreover have l: "length demo_table = 1" by (simp add: demo_table_def)
  ultimately show ?thesis
    unfolding serves_def demo_cursor_def using demo_rowset_holds t by (auto simp: not_less_eq_eq [symmetric] less_Suc0)
qed


theorem FetchStep_keeps_fit_witness:
  "\<exists>r' bt' leave. FetchStep 2 (demo_cursor demo_serve) demo_int_reader ([ArrowArrayStart], 0) = Inr (r', bt', leave) \<and> reader_fits r'"
proof -
  have st: "steady demo_opts [demo_int_column] demo_int_reader" "r_rows_seen demo_int_reader = int 0"
    by (simp_all add: steady_def demo_int_reader_def demo_reader_def)
  have start: "batch_holds [demo_int_column] [ArrowArrayStart] []" using batch_holds_start [of "[demo_int_column]"] by simp
  have "\<exists>r' bt' leave. FetchStep 2 (demo_cursor demo_serve) demo_int_reader ([ArrowArrayStart], 0) = Inr (r', bt', leave)"
    using FetchStep_serves [OF demo_serves st _ _ start refl, of 0] by (auto simp: demo_table_def demo_int_reader_def demo_reader_def)
  then obtain r' bt' leave where f: "FetchStep 2 (demo_cursor demo_serve) demo_int_reader ([ArrowArrayStart], 0) = Inr (r', bt', leave)" by blast
  have "reader_fits demo_int_reader"
    unfolding reader_fits_def by (intro exI [of _ 2]) (simp add: demo_int_reader_def demo_reader_def slot_fits_def demo_int_column_def)
  then have "reader_fits r'"
    by (rule FetchStep_keeps_fit [OF f]) (simp add: demo_cursor_def demo_serve_def demo_int_reader_def demo_reader_def cur_slot_def same_shape_def)
  with f show ?thesis by blast
qed

end
