(* ===== verification/Prefetch.thy ===== *)
theory Prefetch
  imports Reader
begin

text \<open>
  The prefetch ring of \<^verbatim>\<open>src/odbc_reader.c\<close>: a fetch thread fills slots while the caller converts the
  ones it has published (\<^verbatim>\<open>PrefetchMain\<close>, \<^verbatim>\<open>PrefetchNextRowset\<close>, \<^verbatim>\<open>PrefetchJoin\<close>).  Each critical
  section, and each stretch between two of them, is one function on the shared state;
  \<open>prefetch_step\<close> interleaves them.  A thread that waits on the condition variable has no step.

  The rowsets in the order one thread would read them are the reference: \<open>prefetch_in_order\<close> and
  \<open>prefetch_live\<close> relate every interleaving to it, and \<open>prefetch_equals_fetch\<close> relates
  the reference to the loop without a thread.
\<close>

section \<open>The threads\<close>

datatype fetch_pc = FetchLock | FetchFill nat | FetchPublish nat "status option" | FetchExit

datatype join_reason = AtEnd | JoinFailed status | HandBack nat | Released

datatype caller_pc = CallerIdle | CallerUse nat | CallerJoin join_reason | CallerOwns join_reason

record prefetch_state =
  f_slots :: "OdbcRowsetSlot list"
  ring_head :: nat
  ring_tail :: nat
  ring_filled :: nat
  fetch_done :: bool
  fetch_failed :: "status option"
  fetch_stop :: bool
  f_rows_seen :: int
  fetch_at :: fetch_pc
  caller_at :: caller_pc
  taken :: "OdbcRowsetSlot list"

text \<open>Between the critical sections of \<^verbatim>\<open>PrefetchMain\<close>: one slot is bound and fetched into.\<close>

definition FillSlot :: "nat \<Rightarrow> odbc_cursor \<Rightarrow> OdbcReader \<Rightarrow> OdbcRowsetSlot \<Rightarrow> nat \<Rightarrow> int \<Rightarrow> OdbcRowsetSlot \<times> int \<times> status option" where
  "FillSlot wsize drv r slot sl p =
     (let slot = slot\<lparr>s_eos := False, s_needs_repair := False, s_fetched := 0, s_rows_fetched_raw := 0\<rparr>
      in case ReaderBindSlot drv r sl of
           Some e \<Rightarrow> (slot, p, Some e)
         | None \<Rightarrow>
             (case oc_fetch drv p (r_rows_per_fetch r) of
                FetchNoData \<Rightarrow> (slot\<lparr>s_eos := True\<rparr>, p, None)
              | FetchError e \<Rightarrow> (slot, p, Some e)
              | Fetched bufs inds sts raw \<Rightarrow>
                  (let slot = slot\<lparr>s_buffers := bufs, s_indicators := inds, s_row_status := sts, s_rows_fetched_raw := raw\<rparr>;
                       n = ResolveFetched r slot;
                       slot = slot\<lparr>s_fetched := n, s_first_row := p + 1\<rparr>
                   in (slot\<lparr>s_needs_repair := RowsetTruncated wsize r slot n\<rparr>, p + int n, None))))"

definition FetchChoose :: "prefetch_state \<Rightarrow> prefetch_state option" where
  "FetchChoose s =
     (if fetch_stop s then Some (s\<lparr>fetch_at := FetchExit\<rparr>)
      else if ring_filled s \<ge> length (f_slots s) then None
      else Some (s\<lparr>fetch_at := FetchFill (ring_tail s)\<rparr>))"

definition FetchIntoSlot :: "nat \<Rightarrow> odbc_cursor \<Rightarrow> OdbcReader \<Rightarrow> prefetch_state \<Rightarrow> nat \<Rightarrow> prefetch_state" where
  "FetchIntoSlot wsize drv r s sl =
     (let (slot, p, st) = FillSlot wsize drv r (f_slots s ! sl) sl (f_rows_seen s)
      in s\<lparr>f_slots := (f_slots s)[sl := slot], f_rows_seen := p, fetch_at := FetchPublish sl st\<rparr>)"

definition PublishSlot :: "prefetch_state \<Rightarrow> nat \<Rightarrow> status option \<Rightarrow> prefetch_state" where
  "PublishSlot s sl st =
     (case st of
        Some e \<Rightarrow> s\<lparr>fetch_failed := Some e, fetch_at := FetchExit\<rparr>
      | None \<Rightarrow>
          (let slot = f_slots s ! sl
           in s\<lparr>ring_tail := (ring_tail s + 1) mod length (f_slots s), ring_filled := ring_filled s + 1,
                fetch_done := (fetch_done s \<or> s_eos slot),
                fetch_at := (if s_eos slot \<or> s_needs_repair slot then FetchExit else FetchLock)\<rparr>))"

text \<open>The caller: \<^verbatim>\<open>PrefetchJoin\<close> up to the join, and \<^verbatim>\<open>PrefetchNextRowset\<close> before and after its first unlock.\<close>

definition PrefetchJoin :: "prefetch_state \<Rightarrow> join_reason \<Rightarrow> prefetch_state" where
  "PrefetchJoin s reason = s\<lparr>fetch_stop := True, caller_at := CallerJoin reason\<rparr>"

definition TakeSlot :: "prefetch_state \<Rightarrow> prefetch_state option" where
  "TakeSlot s =
     (if ring_filled s = 0 \<and> fetch_failed s = None \<and> \<not> fetch_done s then None
      else if ring_filled s = 0 then
        Some (PrefetchJoin s (case fetch_failed s of Some e \<Rightarrow> JoinFailed e | None \<Rightarrow> AtEnd))
      else Some (s\<lparr>caller_at := CallerUse (ring_head s)\<rparr>))"

definition UseSlot :: "prefetch_state \<Rightarrow> nat \<Rightarrow> prefetch_state" where
  "UseSlot s sl =
     (let slot = f_slots s ! sl in
      if s_eos slot then PrefetchJoin s AtEnd
      else if s_needs_repair slot then PrefetchJoin s (HandBack sl)
      else s\<lparr>ring_head := (ring_head s + 1) mod length (f_slots s), ring_filled := ring_filled s - 1,
             caller_at := CallerIdle, taken := taken s @ [slot]\<rparr>)"

inductive prefetch_step :: "nat \<Rightarrow> odbc_cursor \<Rightarrow> OdbcReader \<Rightarrow> prefetch_state \<Rightarrow> prefetch_state \<Rightarrow> bool"
  for wsize :: nat and drv :: odbc_cursor and r :: OdbcReader where
  choose: "fetch_at s = FetchLock \<Longrightarrow> FetchChoose s = Some s' \<Longrightarrow> prefetch_step wsize drv r s s'"
| fill: "fetch_at s = FetchFill sl \<Longrightarrow> prefetch_step wsize drv r s (FetchIntoSlot wsize drv r s sl)"
| publish: "fetch_at s = FetchPublish sl st \<Longrightarrow> prefetch_step wsize drv r s (PublishSlot s sl st)"
| take_slot: "caller_at s = CallerIdle \<Longrightarrow> TakeSlot s = Some s' \<Longrightarrow> prefetch_step wsize drv r s s'"
| use: "caller_at s = CallerUse sl \<Longrightarrow> prefetch_step wsize drv r s (UseSlot s sl)"
| join: "caller_at s = CallerJoin reason \<Longrightarrow> fetch_at s = FetchExit \<Longrightarrow> prefetch_step wsize drv r s (s\<lparr>caller_at := CallerOwns reason\<rparr>)"

text \<open>A caller may also release the stream between two rowsets (\<^verbatim>\<open>ReaderRelease\<close>).\<close>

inductive prefetch_reach :: "nat \<Rightarrow> odbc_cursor \<Rightarrow> OdbcReader \<Rightarrow> prefetch_state \<Rightarrow> prefetch_state \<Rightarrow> bool"
  for wsize :: nat and drv :: odbc_cursor and r :: OdbcReader and s0 :: prefetch_state where
  start: "prefetch_reach wsize drv r s0 s0"
| step: "prefetch_reach wsize drv r s0 s \<Longrightarrow> prefetch_step wsize drv r s s' \<Longrightarrow> prefetch_reach wsize drv r s0 s'"
| release: "prefetch_reach wsize drv r s0 s \<Longrightarrow> caller_at s = CallerIdle \<Longrightarrow> prefetch_reach wsize drv r s0 (PrefetchJoin s Released)"

definition prefetch_init :: "OdbcReader \<Rightarrow> prefetch_state" where
  "prefetch_init r =
     \<lparr>f_slots = r_slots r, ring_head = 0, ring_tail = 0, ring_filled = 0, fetch_done = False, fetch_failed = None, fetch_stop = False,
      f_rows_seen = r_rows_seen r, fetch_at = FetchLock, caller_at = CallerIdle, taken = []\<rparr>"

section \<open>The rowsets in reading order\<close>

definition blank_slot :: OdbcRowsetSlot where
  "blank_slot = \<lparr>s_buffers = [], s_indicators = [], s_row_status = [], s_rows_fetched_raw = 0, s_fetched = 0, s_first_row = 0,
     s_eos = False, s_needs_repair = False\<rparr>"

fun read_pos :: "nat \<Rightarrow> odbc_cursor \<Rightarrow> OdbcReader \<Rightarrow> nat \<Rightarrow> int" where
  "read_pos wsize drv r 0 = r_rows_seen r"
| "read_pos wsize drv r (Suc k) = fst (snd (FillSlot wsize drv r blank_slot 0 (read_pos wsize drv r k)))"

definition rowset_at :: "nat \<Rightarrow> odbc_cursor \<Rightarrow> OdbcReader \<Rightarrow> nat \<Rightarrow> OdbcRowsetSlot" where
  "rowset_at wsize drv r k = fst (FillSlot wsize drv r blank_slot 0 (read_pos wsize drv r k))"

definition verdict_at :: "nat \<Rightarrow> odbc_cursor \<Rightarrow> OdbcReader \<Rightarrow> nat \<Rightarrow> status option" where
  "verdict_at wsize drv r k = snd (snd (FillSlot wsize drv r blank_slot 0 (read_pos wsize drv r k)))"

text \<open>Reading goes on after rowset \<open>k\<close>: no failure, not the end, nothing to repair.\<close>

definition goes_on :: "nat \<Rightarrow> odbc_cursor \<Rightarrow> OdbcReader \<Rightarrow> nat \<Rightarrow> bool" where
  "goes_on wsize drv r k \<longleftrightarrow> verdict_at wsize drv r k = None \<and> \<not> s_eos (rowset_at wsize drv r k) \<and> \<not> s_needs_repair (rowset_at wsize drv r k)"

text \<open>A slot holds a rowset; the slot of the end of the stream keeps its old buffers.\<close>

definition holds_rowset :: "OdbcRowsetSlot \<Rightarrow> OdbcRowsetSlot \<Rightarrow> bool" where
  "holds_rowset slot x \<longleftrightarrow> s_eos slot = s_eos x \<and> (\<not> s_eos x \<longrightarrow> slot = x)"

lemma ReaderBindSlot_slot: "ReaderBindSlot drv r sl = ReaderBindSlot drv r sl'"
  by (simp add: ReaderBindSlot_def)

lemma FillSlot_rowset:
  "\<exists>slot'. FillSlot wsize drv r slot sl (read_pos wsize drv r k) = (slot', read_pos wsize drv r (Suc k), verdict_at wsize drv r k)
     \<and> (verdict_at wsize drv r k = None \<longrightarrow> holds_rowset slot' (rowset_at wsize drv r k))"
  using ReaderBindSlot_slot [of drv r sl 0]
  by (cases slot) (auto simp: FillSlot_def blank_slot_def verdict_at_def rowset_at_def holds_rowset_def Let_def ResolveFetched_def
      split: option.splits fetch_answer.splits)

section \<open>Invariant\<close>

abbreviation published_count :: "prefetch_state \<Rightarrow> nat" where
  "published_count s \<equiv> length (taken s) + ring_filled s"

text \<open>The ring: what was taken and what is in the ring are the rowsets in order, and the tail follows the head.\<close>

definition ring_ok :: "nat \<Rightarrow> odbc_cursor \<Rightarrow> OdbcReader \<Rightarrow> prefetch_state \<Rightarrow> bool" where
  "ring_ok wsize drv r s \<longleftrightarrow> ring_head s < length (f_slots s) \<and> ring_filled s \<le> length (f_slots s)
     \<and> ring_tail s = (ring_head s + ring_filled s) mod length (f_slots s)
     \<and> (\<forall>i<length (taken s). taken s ! i = rowset_at wsize drv r i \<and> goes_on wsize drv r i)
     \<and> (\<forall>j<ring_filled s. verdict_at wsize drv r (length (taken s) + j) = None
          \<and> holds_rowset (f_slots s ! ((ring_head s + j) mod length (f_slots s))) (rowset_at wsize drv r (length (taken s) + j)))"

text \<open>The fetch thread: how far it has read, and why it has stopped if it has.\<close>

definition reading :: "nat \<Rightarrow> odbc_cursor \<Rightarrow> OdbcReader \<Rightarrow> prefetch_state \<Rightarrow> bool" where
  "reading wsize drv r s \<longleftrightarrow> (\<forall>i<published_count s. goes_on wsize drv r i) \<and> fetch_failed s = None \<and> \<not> fetch_done s"

fun fetcher_ok :: "nat \<Rightarrow> odbc_cursor \<Rightarrow> OdbcReader \<Rightarrow> prefetch_state \<Rightarrow> fetch_pc \<Rightarrow> bool" where
  "fetcher_ok wsize drv r s FetchLock \<longleftrightarrow> reading wsize drv r s \<and> f_rows_seen s = read_pos wsize drv r (published_count s)"
| "fetcher_ok wsize drv r s (FetchFill sl) \<longleftrightarrow> reading wsize drv r s \<and> f_rows_seen s = read_pos wsize drv r (published_count s)
     \<and> sl = ring_tail s \<and> ring_filled s < length (f_slots s)"
| "fetcher_ok wsize drv r s (FetchPublish sl st) \<longleftrightarrow> reading wsize drv r s \<and> f_rows_seen s = read_pos wsize drv r (Suc (published_count s))
     \<and> sl = ring_tail s \<and> ring_filled s < length (f_slots s) \<and> st = verdict_at wsize drv r (published_count s)
     \<and> (st = None \<longrightarrow> holds_rowset (f_slots s ! sl) (rowset_at wsize drv r (published_count s)))"
| "fetcher_ok wsize drv r s FetchExit \<longleftrightarrow>
     (fetch_stop s \<and> reading wsize drv r s)
     \<or> (\<exists>e. fetch_failed s = Some e \<and> verdict_at wsize drv r (published_count s) = Some e \<and> \<not> fetch_done s
          \<and> (\<forall>i<published_count s. goes_on wsize drv r i))
     \<or> (\<exists>k. published_count s = Suc k \<and> verdict_at wsize drv r k = None \<and> \<not> goes_on wsize drv r k \<and> (\<forall>i<k. goes_on wsize drv r i) \<and> fetch_failed s = None
          \<and> fetch_done s = s_eos (rowset_at wsize drv r k) \<and> f_rows_seen s = read_pos wsize drv r (Suc k))"

text \<open>The caller: it stops the thread only to take the handle back, and it has a reason.\<close>

fun reason_ok :: "nat \<Rightarrow> odbc_cursor \<Rightarrow> OdbcReader \<Rightarrow> prefetch_state \<Rightarrow> join_reason \<Rightarrow> bool" where
  "reason_ok wsize drv r s AtEnd \<longleftrightarrow> 0 < ring_filled s \<and> s_eos (rowset_at wsize drv r (length (taken s)))"
| "reason_ok wsize drv r s (JoinFailed e) \<longleftrightarrow> ring_filled s = 0 \<and> fetch_failed s = Some e"
| "reason_ok wsize drv r s (HandBack sl) \<longleftrightarrow> 0 < ring_filled s \<and> sl = ring_head s \<and> \<not> s_eos (rowset_at wsize drv r (length (taken s)))
     \<and> s_needs_repair (rowset_at wsize drv r (length (taken s)))"
| "reason_ok wsize drv r s Released \<longleftrightarrow> True"

fun caller_ok :: "nat \<Rightarrow> odbc_cursor \<Rightarrow> OdbcReader \<Rightarrow> prefetch_state \<Rightarrow> caller_pc \<Rightarrow> bool" where
  "caller_ok wsize drv r s CallerIdle \<longleftrightarrow> \<not> fetch_stop s"
| "caller_ok wsize drv r s (CallerUse sl) \<longleftrightarrow> \<not> fetch_stop s \<and> sl = ring_head s \<and> 0 < ring_filled s"
| "caller_ok wsize drv r s (CallerJoin reason) \<longleftrightarrow> fetch_stop s \<and> reason_ok wsize drv r s reason"
| "caller_ok wsize drv r s (CallerOwns reason) \<longleftrightarrow> fetch_stop s \<and> reason_ok wsize drv r s reason \<and> fetch_at s = FetchExit"

definition prefetch_inv :: "nat \<Rightarrow> odbc_cursor \<Rightarrow> OdbcReader \<Rightarrow> prefetch_state \<Rightarrow> bool" where
  "prefetch_inv wsize drv r s \<longleftrightarrow> ring_ok wsize drv r s \<and> fetcher_ok wsize drv r s (fetch_at s) \<and> caller_ok wsize drv r s (caller_at s)"

lemma prefetch_inv_init: "r_slots r \<noteq> [] \<Longrightarrow> prefetch_inv wsize drv r (prefetch_init r)"
  by (simp add: prefetch_inv_def ring_ok_def prefetch_init_def reading_def)

lemma head_rowset:
  "ring_ok wsize drv r s \<Longrightarrow> 0 < ring_filled s \<Longrightarrow>
     verdict_at wsize drv r (length (taken s)) = None \<and> holds_rowset (f_slots s ! ring_head s) (rowset_at wsize drv r (length (taken s)))"
  unfolding ring_ok_def by (metis add_0_right mod_less)

text \<open>A step of the fetch thread, which is still running, leaves the caller's invariant alone.\<close>

lemma caller_ok_fetch:
  assumes "caller_ok wsize drv r s (caller_at s)" "fetch_at s \<noteq> FetchExit" "fetch_failed s = None"
    and "fetch_stop s' = fetch_stop s" "caller_at s' = caller_at s" "taken s' = taken s" "ring_head s' = ring_head s" "ring_filled s \<le> ring_filled s'"
  shows "caller_ok wsize drv r s' (caller_at s')"
proof (cases "caller_at s")
  case (CallerJoin reason)
  then show ?thesis using assms by (cases reason) auto
qed (use assms in auto)

lemma inv_choose:
  assumes "prefetch_inv wsize drv r s" "fetch_at s = FetchLock" "FetchChoose s = Some s'"
  shows "prefetch_inv wsize drv r s'"
proof -
  have i: "ring_ok wsize drv r s" "reading wsize drv r s" "f_rows_seen s = read_pos wsize drv r (published_count s)"
    "caller_ok wsize drv r s (caller_at s)" using assms(1,2) by (auto simp: prefetch_inv_def)
  have "caller_ok wsize drv r s' (caller_at s')"
    by (rule caller_ok_fetch [OF i(4)]) (use assms(2,3) i(2) in \<open>auto simp: FetchChoose_def reading_def split: if_splits\<close>)
  then show ?thesis using i(1-3) assms(3) by (auto simp: prefetch_inv_def FetchChoose_def ring_ok_def reading_def split: if_splits)
qed

lemma inv_fill:
  assumes "prefetch_inv wsize drv r s" "fetch_at s = FetchFill sl"
  shows "prefetch_inv wsize drv r (FetchIntoSlot wsize drv r s sl)"
proof -
  let ?N = "length (f_slots s)" and ?h = "ring_head s" and ?m = "ring_filled s" and ?k = "published_count s"
  have i: "ring_ok wsize drv r s" "reading wsize drv r s" "f_rows_seen s = read_pos wsize drv r ?k" "sl = ring_tail s" "?m < ?N"
    "caller_ok wsize drv r s (caller_at s)" using assms by (auto simp: prefetch_inv_def)
  have sl: "sl = (?h + ?m) mod ?N" using i(1,4) by (simp add: ring_ok_def)
  have "0 < ?N" using i(5) by linarith
  then have lt: "sl < ?N" unfolding sl by (rule mod_less_divisor)
  obtain slot' where f: "FillSlot wsize drv r (f_slots s ! sl) sl (f_rows_seen s) = (slot', read_pos wsize drv r (Suc ?k), verdict_at wsize drv r ?k)"
    "verdict_at wsize drv r ?k = None \<longrightarrow> holds_rowset slot' (rowset_at wsize drv r ?k)"
    using FillSlot_rowset [of wsize drv r "f_slots s ! sl" sl ?k] i(3) by auto
  let ?s = "s\<lparr>f_slots := (f_slots s)[sl := slot'], f_rows_seen := read_pos wsize drv r (Suc ?k), fetch_at := FetchPublish sl (verdict_at wsize drv r ?k)\<rparr>"
  have s': "FetchIntoSlot wsize drv r s sl = ?s" using f(1) by (simp add: FetchIntoSlot_def)
  have same: "(f_slots s)[sl := slot'] ! ((?h + j) mod ?N) = f_slots s ! ((?h + j) mod ?N)" if "j < ?m" for j
    using that ring_distinct [of j ?N ?m ?h] i(5) sl lt by (metis less_trans nat_neq_iff nth_list_update_neq)
  have "ring_ok wsize drv r ?s" using i(1) same by (simp add: ring_ok_def)
  moreover have "fetcher_ok wsize drv r ?s (fetch_at ?s)" using f(2) i sl lt by (simp add: reading_def)
  moreover have "caller_ok wsize drv r ?s (caller_at ?s)" 
    by (rule caller_ok_fetch [OF i(6)]) (use assms(2) i(2) in \<open>simp_all add: reading_def\<close>)
  ultimately show ?thesis unfolding s' prefetch_inv_def by blast
qed

lemma inv_publish:
  assumes "prefetch_inv wsize drv r s" "fetch_at s = FetchPublish sl st"
  shows "prefetch_inv wsize drv r (PublishSlot s sl st)"
proof -
  let ?N = "length (f_slots s)" and ?h = "ring_head s" and ?m = "ring_filled s" and ?k = "published_count s"
  have i: "ring_ok wsize drv r s" "reading wsize drv r s" "f_rows_seen s = read_pos wsize drv r (Suc ?k)" "sl = ring_tail s" "?m < ?N"
    "st = verdict_at wsize drv r ?k" "st = None \<longrightarrow> holds_rowset (f_slots s ! sl) (rowset_at wsize drv r ?k)"
    "caller_ok wsize drv r s (caller_at s)" using assms by (auto simp: prefetch_inv_def)
  have c: "caller_ok wsize drv r (PublishSlot s sl st) (caller_at (PublishSlot s sl st))"
    by (rule caller_ok_fetch [OF i(8)])
      (use assms(2) i(2) in \<open>auto simp: reading_def PublishSlot_def Let_def split: option.splits\<close>)
  show ?thesis
  proof (cases st)
    case (Some e)
    then show ?thesis using i c by (simp add: prefetch_inv_def ring_ok_def PublishSlot_def reading_def)
  next
    case None
    let ?s = "PublishSlot s sl st"
    have slot: "holds_rowset (f_slots s ! sl) (rowset_at wsize drv r ?k)" "verdict_at wsize drv r ?k = None" using i None by auto
    have sl: "sl = (?h + ?m) mod ?N" using i by (simp add: ring_ok_def)
    have "ring_ok wsize drv r ?s"
      using i(1,5) slot sl i(4) None by (auto simp: ring_ok_def PublishSlot_def Let_def less_Suc_eq mod_simps)
    moreover have "fetcher_ok wsize drv r ?s (fetch_at ?s)"
      using slot i(2,3) None by (auto simp: PublishSlot_def Let_def holds_rowset_def goes_on_def reading_def less_Suc_eq)
    ultimately show ?thesis using c by (simp add: prefetch_inv_def)
  qed
qed

text \<open>A step of the caller leaves the thread's invariant alone, as long as the number of published rowsets stays.\<close>

lemma fetcher_ok_caller:
  assumes "fetcher_ok wsize drv r s (fetch_at s)" "published_count s' = published_count s" "fetch_at s' = fetch_at s"
    and "fetch_failed s' = fetch_failed s" "fetch_done s' = fetch_done s" "f_rows_seen s' = f_rows_seen s" "ring_tail s' = ring_tail s"
    and "f_slots s' = f_slots s" "ring_filled s' \<le> ring_filled s" "fetch_stop s \<longrightarrow> fetch_stop s'"
  shows "fetcher_ok wsize drv r s' (fetch_at s')"
  using assms by (cases "fetch_at s") (auto simp: reading_def)

lemma inv_join:
  assumes "prefetch_inv wsize drv r s" "reason_ok wsize drv r s reason"
  shows "prefetch_inv wsize drv r (PrefetchJoin s reason)"
proof -
  have "fetcher_ok wsize drv r (PrefetchJoin s reason) (fetch_at (PrefetchJoin s reason))"
    by (rule fetcher_ok_caller [of wsize drv r s]) (use assms(1) in \<open>auto simp: prefetch_inv_def PrefetchJoin_def\<close>)
  moreover have "reason_ok wsize drv r (PrefetchJoin s reason) reason"
    using assms(2) by (cases reason) (auto simp: PrefetchJoin_def)
  ultimately show ?thesis using assms(1) by (auto simp: prefetch_inv_def ring_ok_def PrefetchJoin_def)
qed

text \<open>The end of the stream stays in the ring, so a drained ring has another reason.\<close>

lemma done_filled:
  assumes "prefetch_inv wsize drv r s" "fetch_done s"
  shows "0 < ring_filled s"
proof (rule ccontr)
  assume "\<not> 0 < ring_filled s"
  then have m: "ring_filled s = 0" by simp
  from assms obtain k where k: "published_count s = Suc k" "\<not> goes_on wsize drv r k"
    by (cases "fetch_at s") (auto simp: prefetch_inv_def reading_def)
  then show False using assms(1) m by (auto simp: prefetch_inv_def ring_ok_def)
qed

lemma inv_take:
  assumes "prefetch_inv wsize drv r s" "caller_at s = CallerIdle" "TakeSlot s = Some s'"
  shows "prefetch_inv wsize drv r s'"
proof (cases "ring_filled s = 0")
  case True
  then have nd: "\<not> fetch_done s" using done_filled [OF assms(1)] by auto
  then obtain e where e: "fetch_failed s = Some e" using assms(3) True by (cases "fetch_failed s") (auto simp: TakeSlot_def)
  then have "s' = PrefetchJoin s (JoinFailed e)" using assms(3) True by (simp add: TakeSlot_def)
  then show ?thesis using inv_join [OF assms(1), of "JoinFailed e"] True e by simp
next
  case False
  then have s': "s' = s\<lparr>caller_at := CallerUse (ring_head s)\<rparr>" using assms(3) by (simp add: TakeSlot_def)
  have "fetcher_ok wsize drv r s' (fetch_at s')"
    unfolding s' by (rule fetcher_ok_caller [of wsize drv r s]) (use assms(1) in \<open>auto simp: prefetch_inv_def\<close>)
  then show ?thesis using assms(1,2) False by (auto simp: s' prefetch_inv_def ring_ok_def)
qed

lemma inv_use:
  assumes "prefetch_inv wsize drv r s" "caller_at s = CallerUse sl"
  shows "prefetch_inv wsize drv r (UseSlot s sl)"
proof -
  let ?t = "length (taken s)" and ?N = "length (f_slots s)"
  have i: "ring_ok wsize drv r s" "fetcher_ok wsize drv r s (fetch_at s)" "\<not> fetch_stop s" "sl = ring_head s" "0 < ring_filled s"
    using assms by (auto simp: prefetch_inv_def)
  have h: "verdict_at wsize drv r ?t = None" "holds_rowset (f_slots s ! sl) (rowset_at wsize drv r ?t)"
    using head_rowset [OF i(1,5)] i(4) by auto
  let ?slot = "f_slots s ! sl"
  consider (eos) "s_eos ?slot" | (repair) "\<not> s_eos ?slot" "s_needs_repair ?slot" | (go) "\<not> s_eos ?slot" "\<not> s_needs_repair ?slot" by blast
  then show ?thesis
  proof cases
    case eos
    then show ?thesis using inv_join [OF assms(1), of AtEnd] i(5) h(2) by (simp add: UseSlot_def holds_rowset_def)
  next
    case repair
    then show ?thesis using inv_join [OF assms(1), of "HandBack sl"] i(4,5) h(2) by (auto simp: UseSlot_def holds_rowset_def)
  next
    case go
    let ?s = "UseSlot s sl"
    have slot: "?slot = rowset_at wsize drv r ?t" using go h(2) by (auto simp: holds_rowset_def)
    have goes: "goes_on wsize drv r ?t" using go h(1) slot by (simp add: goes_on_def)
    have ring: "ring_filled s \<le> ?N" "ring_head s < ?N" "ring_tail s = (ring_head s + ring_filled s) mod ?N" using i(1) by (auto simp: ring_ok_def)
    have "fetcher_ok wsize drv r ?s (fetch_at ?s)"
      by (rule fetcher_ok_caller [of wsize drv r s]) (use go i(2,5) in \<open>auto simp: UseSlot_def\<close>)
    moreover have "ring_ok wsize drv r ?s"
    proof -
      have "(Suc (ring_head s) mod ?N + (ring_filled s - 1)) mod ?N = (ring_head s + ring_filled s) mod ?N"
      proof -
        have "(Suc (ring_head s) + (ring_filled s - 1)) mod ?N = (ring_head s + ring_filled s) mod ?N" using i(5) by simp
        then show ?thesis by (simp only: mod_add_left_eq)
      qed
      moreover have "verdict_at wsize drv r (Suc ?t + j) = None \<and> holds_rowset (f_slots s ! ((Suc (ring_head s) mod ?N + j) mod ?N)) (rowset_at wsize drv r (Suc ?t + j))"
        if "j < ring_filled s - 1" for j
        using i(1) [unfolded ring_ok_def] that by (auto simp: mod_simps dest!: spec [of _ "Suc j"])
      moreover have "Suc (ring_head s) mod ?N < ?N" using ring(2) by (intro mod_less_divisor) linarith
      ultimately show ?thesis using i(1) go slot goes ring
        by (auto simp: ring_ok_def UseSlot_def nth_append less_Suc_eq)
    qed
    moreover have "caller_ok wsize drv r ?s (caller_at ?s)" using go i(3) by (simp add: UseSlot_def)
    ultimately show ?thesis by (simp add: prefetch_inv_def)
  qed
qed

inductive_cases prefetch_stepE: "prefetch_step wsize drv r s s'"

lemma inv_step: "prefetch_inv wsize drv r s \<Longrightarrow> prefetch_step wsize drv r s s' \<Longrightarrow> prefetch_inv wsize drv r s'"
proof (erule prefetch_stepE)
  fix reason
  assume a: "prefetch_inv wsize drv r s" "s' = s\<lparr>caller_at := CallerOwns reason\<rparr>" "caller_at s = CallerJoin reason" "fetch_at s = FetchExit"
  have "fetcher_ok wsize drv r s' (fetch_at s')"
    unfolding a(2) by (rule fetcher_ok_caller [of wsize drv r s]) (use a(1) in \<open>auto simp: prefetch_inv_def\<close>)
  moreover have "reason_ok wsize drv r s' reason" using a(1,3) unfolding a(2) by (cases reason) (auto simp: prefetch_inv_def)
  ultimately show ?thesis using a by (auto simp: prefetch_inv_def ring_ok_def)
qed (auto intro: inv_choose inv_fill inv_publish inv_take inv_use)

lemma inv_reach:
  assumes "prefetch_reach wsize drv r (prefetch_init r) s" "r_slots r \<noteq> []"
  shows "prefetch_inv wsize drv r s"
  using assms(1)
proof (induction rule: prefetch_reach.induct)
  case (release s)
  then show ?case by (intro inv_join) simp_all
qed (auto intro: inv_step prefetch_inv_init [OF assms(2)])

section \<open>What the ring guarantees\<close>

text \<open>
  C7. Prefetching keeps the order and never shares a slot.  However the fetch thread and the caller
  are scheduled, and whenever the caller releases the stream: the rowsets the caller has converted are
  the first ones the driver produces, in order, with nothing missing; the slot it is converting holds
  the next one, and is not the slot the thread is filling; and the caller has the handle back only
  after the thread has ended.  Then it stands where it has to: at the end of the stream, at the
  driver's failure, or, when a rowset must be repaired, with the cursor right behind that rowset.
\<close>

theorem prefetch_in_order:
  assumes "prefetch_reach wsize drv r (prefetch_init r) s" "r_slots r \<noteq> []"
  shows "(\<forall>i<length (taken s). taken s ! i = rowset_at wsize drv r i)
       \<and> (\<forall>sl. caller_at s = CallerUse sl \<longrightarrow> holds_rowset (f_slots s ! sl) (rowset_at wsize drv r (length (taken s)))
            \<and> fetch_at s \<noteq> FetchFill sl \<and> (\<forall>st. fetch_at s \<noteq> FetchPublish sl st))
       \<and> (\<forall>reason. caller_at s = CallerOwns reason \<longrightarrow> fetch_at s = FetchExit
            \<and> (case reason of
                 AtEnd \<Rightarrow> s_eos (rowset_at wsize drv r (length (taken s)))
               | JoinFailed e \<Rightarrow> verdict_at wsize drv r (length (taken s)) = Some e
               | HandBack sl \<Rightarrow> f_slots s ! sl = rowset_at wsize drv r (length (taken s))
                                \<and> f_rows_seen s = read_pos wsize drv r (Suc (length (taken s)))
               | Released \<Rightarrow> True))"
proof -
  let ?t = "length (taken s)" and ?N = "length (f_slots s)"
  note I = inv_reach [OF assms]
  then have ring: "ring_ok wsize drv r s" and f: "fetcher_ok wsize drv r s (fetch_at s)" and c: "caller_ok wsize drv r s (caller_at s)"
    by (simp_all add: prefetch_inv_def)
  have use: "holds_rowset (f_slots s ! sl) (rowset_at wsize drv r ?t) \<and> fetch_at s \<noteq> FetchFill sl \<and> (\<forall>st. fetch_at s \<noteq> FetchPublish sl st)"
    if u: "caller_at s = CallerUse sl" for sl
  proof -
    have sl: "sl = ring_head s" "0 < ring_filled s" using c u by auto
    have "sl \<noteq> ring_tail s" if "ring_filled s < ?N"
    proof
      assume "sl = ring_tail s"
      then have "(ring_head s + 0) mod ?N = (ring_head s + ring_filled s) mod ?N" using ring sl(1) by (simp add: ring_ok_def)
      from ring_distinct [OF _ that this] sl(2) that show False by linarith
    qed
    then show ?thesis using f sl head_rowset [OF ring sl(2)] by auto
  qed
  have hand: "f_slots s ! sl = rowset_at wsize drv r ?t \<and> f_rows_seen s = read_pos wsize drv r (Suc ?t)"
    if ow: "caller_at s = CallerOwns (HandBack sl)" for sl
  proof -
    have h: "fetch_at s = FetchExit" "0 < ring_filled s" "sl = ring_head s" "\<not> s_eos (rowset_at wsize drv r ?t)" "s_needs_repair (rowset_at wsize drv r ?t)"
      using c ow by auto
    then have n: "\<not> goes_on wsize drv r ?t" by (simp add: goes_on_def)
    have st: "holds_rowset (f_slots s ! sl) (rowset_at wsize drv r ?t)" using head_rowset [OF ring h(2)] h(3) by simp
    have "\<not> (\<forall>i<published_count s. goes_on wsize drv r i)" using n h(2) by (metis less_add_same_cancel1)
    then obtain k where k: "published_count s = Suc k" "\<forall>i<k. goes_on wsize drv r i" "f_rows_seen s = read_pos wsize drv r (Suc k)"
      using f unfolding h(1) fetcher_ok.simps reading_def by blast
    then have "?t = k" using n h(2) by (metis Suc_leI add_Suc_right le_add1 less_Suc_eq less_add_same_cancel1)
    then show ?thesis using st h(4) k(3) by (auto simp: holds_rowset_def)
  qed
  have "(case reason of
                 AtEnd \<Rightarrow> s_eos (rowset_at wsize drv r ?t)
               | JoinFailed e \<Rightarrow> verdict_at wsize drv r ?t = Some e
               | HandBack sl \<Rightarrow> f_slots s ! sl = rowset_at wsize drv r ?t \<and> f_rows_seen s = read_pos wsize drv r (Suc ?t)
               | Released \<Rightarrow> True)" if ow: "caller_at s = CallerOwns reason" for reason
    using c f ow hand by (cases reason) (auto simp: reading_def)
  then show ?thesis using use ring c by (auto simp: ring_ok_def)
qed

text \<open>How much is left to do when the driver stops after rowset \<open>K\<close> at the latest.\<close>

fun fetch_left :: "fetch_pc \<Rightarrow> nat" where
  "fetch_left FetchLock = 3"
| "fetch_left (FetchFill _) = 2"
| "fetch_left (FetchPublish _ _) = 1"
| "fetch_left FetchExit = 0"

fun caller_left :: "caller_pc \<Rightarrow> nat" where
  "caller_left CallerIdle = 3"
| "caller_left (CallerUse _) = 2"
| "caller_left (CallerJoin _) = 1"
| "caller_left (CallerOwns _) = 0"

definition prefetch_left :: "nat \<Rightarrow> prefetch_state \<Rightarrow> nat" where
  "prefetch_left K s = 4 * (Suc K - published_count s) + fetch_left (fetch_at s) + 4 * (Suc K - length (taken s)) + caller_left (caller_at s)"

lemma step_less:
  assumes "prefetch_inv wsize drv r s" "prefetch_step wsize drv r s s'" "\<not> goes_on wsize drv r K"
  shows "prefetch_left K s' < prefetch_left K s"
  using assms(2)
proof cases
  case choose
  then show ?thesis by (auto simp: FetchChoose_def prefetch_left_def split: if_splits)
next
  case (fill sl)
  then show ?thesis by (simp add: FetchIntoSlot_def prefetch_left_def split: prod.split)
next
  case (publish sl st)
  then have "\<forall>i<published_count s. goes_on wsize drv r i" using assms(1) by (simp add: prefetch_inv_def reading_def)
  then have "published_count s \<le> K" using assms(3) by (meson not_le)
  then show ?thesis using publish by (auto simp: PublishSlot_def prefetch_left_def Let_def split: option.split)
next
  case take_slot
  then show ?thesis by (auto simp: TakeSlot_def PrefetchJoin_def prefetch_left_def split: if_splits)
next
  case (use sl)
  have i: "ring_ok wsize drv r s" "0 < ring_filled s" using assms(1) use(2) by (simp_all add: prefetch_inv_def)
  have "\<forall>i<length (taken s). goes_on wsize drv r i" using i(1) by (simp add: ring_ok_def)
  then have "length (taken s) \<le> K" using assms(3) by (meson not_le)
  then show ?thesis using use i(2) by (auto simp: UseSlot_def PrefetchJoin_def prefetch_left_def Let_def)
next
  case (join reason)
  then show ?thesis by (simp add: prefetch_left_def)
qed

lemma step_exists:
  assumes "prefetch_inv wsize drv r s" "\<forall>reason. caller_at s \<noteq> CallerOwns reason"
  shows "\<exists>s'. prefetch_step wsize drv r s s'"
proof (cases "fetch_at s")
  case FetchLock
  show ?thesis
  proof (cases "FetchChoose s")
    case None
    then have full: "\<not> fetch_stop s" "length (f_slots s) \<le> ring_filled s" by (auto simp: FetchChoose_def split: if_splits)
    moreover have "ring_head s < length (f_slots s)" using assms(1) by (simp add: prefetch_inv_def ring_ok_def)
    ultimately have m: "0 < ring_filled s" by linarith
    show ?thesis
    proof (cases "caller_at s")
      case CallerIdle
      moreover obtain s' where "TakeSlot s = Some s'" using m by (auto simp: TakeSlot_def)
      ultimately show ?thesis by (blast intro: take_slot)
    next
      case (CallerJoin reason)
      then show ?thesis using assms(1) full(1) by (simp add: prefetch_inv_def)
    qed (use assms(2) in \<open>blast intro: use\<close>)+
  qed (use FetchLock in \<open>blast intro: choose\<close>)
next
  case FetchExit
  show ?thesis
  proof (cases "caller_at s")
    case CallerIdle
    then have "\<not> fetch_stop s" "fetcher_ok wsize drv r s FetchExit" using assms(1) FetchExit by (simp_all add: prefetch_inv_def del: fetcher_ok.simps)
    then consider "fetch_failed s \<noteq> None" | k where "published_count s = Suc k" "\<not> goes_on wsize drv r k" by auto
    then have "TakeSlot s \<noteq> None"
    proof cases
      case (2 k)
      have "\<forall>i<length (taken s). goes_on wsize drv r i" using assms(1) by (simp add: prefetch_inv_def ring_ok_def)
      then have "0 < ring_filled s" using 2 by (cases "ring_filled s") auto
      then show ?thesis by (simp add: TakeSlot_def)
    qed (auto simp: TakeSlot_def)
    then show ?thesis using CallerIdle by (blast intro: take_slot)
  next
    case (CallerJoin reason)
    then show ?thesis using FetchExit by (blast intro: join)
  qed (use assms(2) in \<open>blast intro: use\<close>)+
qed (blast intro: fill publish)+

lemma reach_steps: "(prefetch_step wsize drv r)\<^sup>*\<^sup>* s s' \<Longrightarrow> prefetch_inv wsize drv r s \<Longrightarrow> prefetch_inv wsize drv r s'"
  by (induction rule: rtranclp_induct) (auto intro: inv_step)

lemma prefetch_ends:
  assumes "prefetch_inv wsize drv r s" "\<not> goes_on wsize drv r K"
  shows "\<exists>s' reason. (prefetch_step wsize drv r)\<^sup>*\<^sup>* s s' \<and> caller_at s' = CallerOwns reason"
  using assms(1)
proof (induction "prefetch_left K s" arbitrary: s rule: less_induct)
  case less
  show ?case
  proof (cases "\<exists>reason. caller_at s = CallerOwns reason")
    case False
    then obtain s1 where s1: "prefetch_step wsize drv r s s1" using step_exists [OF less.prems] by blast
    from less.hyps [OF step_less [OF less.prems s1 assms(2)] inv_step [OF less.prems s1]]
    show ?thesis using s1 by (meson converse_rtranclp_into_rtranclp)
  qed blast
qed

lemma reach_run: "(prefetch_step wsize drv r)\<^sup>*\<^sup>* s s' \<Longrightarrow> prefetch_reach wsize drv r s0 s \<Longrightarrow> prefetch_reach wsize drv r s0 s'"
  by (induction rule: rtranclp_induct) (auto intro: step)


section \<open>Prefetching and fetching convert the same rowsets\<close>

text \<open>Conversion reads these parts of a reader and nothing else.\<close>

definition same_view :: "OdbcReader \<Rightarrow> OdbcReader \<Rightarrow> bool" where
  "same_view r r' \<longleftrightarrow> r_cols r' = r_cols r \<and> r_opts r' = r_opts r \<and> r_rows_per_fetch r' = r_rows_per_fetch r \<and> r_all_bound r' = r_all_bound r
     \<and> s_buffers (cur_slot r') = s_buffers (cur_slot r) \<and> s_indicators (cur_slot r') = s_indicators (cur_slot r)
     \<and> s_row_status (cur_slot r') = s_row_status (cur_slot r)"

lemma AppendValue_view:
  assumes "same_view r r'"
  shows "AppendValue wsize drv r' i row a = AppendValue wsize drv r i row a"
proof -
  note v = assms [unfolded same_view_def]
  have "r_cols r' = r_cols r" "r_opts r' = r_opts r" "r_rows_per_fetch r' = r_rows_per_fetch r" "s_buffers (cur_slot r') = s_buffers (cur_slot r)"
    "col_indicator r' i row = col_indicator r i row" "PositionOnRow drv r' row = PositionOnRow drv r row"
    "GetDataLong wsize drv r' i row = GetDataLong wsize drv r i row"
    using v by (simp_all add: GetDataLong_def PositionOnRow_def col_indicator_def)
  then show ?thesis by (simp only: AppendValue_def LoadValue_def)
qed

lemma AppendRows_view: "same_view r r' \<Longrightarrow> AppendRows wsize drv r' i rows a = AppendRows wsize drv r i rows a"
  by (induction rows arbitrary: a) (auto simp: AppendValue_view split: sum.split)

lemma AppendCols_view: "same_view r r' \<Longrightarrow> AppendCols wsize drv r' row is batch = AppendCols wsize drv r row is batch"
  by (induction "is" arbitrary: batch) (auto simp: AppendValue_view split: sum.split)

lemma BulkAppendColumn_view: "same_view r r' \<Longrightarrow> BulkAppendColumn wsize r' i n a = BulkAppendColumn wsize r i n a"
  by (simp only: same_view_def BulkAppendColumn_def)

lemma BulkCols_view:
  assumes "same_view r r'"
  shows "BulkCols wsize drv r' n is batch = BulkCols wsize drv r n is batch"
proof (induction "is" arbitrary: batch)
  case (Cons i "is")
  have c: "r_cols r' = r_cols r" using assms by (simp add: same_view_def)
  show ?case unfolding BulkCols.simps c BulkAppendColumn_view [OF assms] AppendRows_view [OF assms] Cons.IH ..
qed simp

lemma RowsCols_view: "same_view r r' \<Longrightarrow> RowsCols wsize drv r' rows is batch = RowsCols wsize drv r rows is batch"
  by (induction rows arbitrary: batch) (auto simp: AppendCols_view split: sum.split)

lemma RowwiseLoop_view:
  assumes "same_view r r'"
  shows "RowwiseLoop wsize drv r' rows (batch, tot) = RowwiseLoop wsize drv r rows (batch, tot)"
proof (induction rows arbitrary: batch tot)
  case (Cons row rows)
  have "r_cols r' = r_cols r" "s_row_status (cur_slot r') = s_row_status (cur_slot r)" using assms by (simp_all add: same_view_def)
  then show ?case using Cons.IH by (simp add: AppendCols_view [OF assms] Let_def cong: sum.case_cong)
qed simp

lemma ConvertRowset_view:
  assumes "same_view r r'"
  shows "ConvertRowset wsize drv r' n bulk bt = ConvertRowset wsize drv r n bulk bt"
proof -
  have c: "r_cols r' = r_cols r" "r_all_bound r' = r_all_bound r" using assms by (simp_all add: same_view_def)
  obtain batch tot where bt: "bt = (batch, tot)" by force
  show ?thesis unfolding bt ConvertRowset_def c BulkCols_view [OF assms] RowsCols_view [OF assms] RowwiseLoop_view [OF assms] ..
qed

lemma goes_on_fetched:
  assumes "goes_on wsize drv r k"
  obtains bufs inds sts raw n where "oc_fetch drv (read_pos wsize drv r k) (r_rows_per_fetch r) = Fetched bufs inds sts raw"
    "n = (if r_no_rows_fetched_ptr r then 1 else nat (OdbcReadULen raw (sqllen_32bit (r_opts r))))"
    "rowset_at wsize drv r k = \<lparr>s_buffers = bufs, s_indicators = inds, s_row_status = sts, s_rows_fetched_raw = raw, s_fetched = n,
       s_first_row = read_pos wsize drv r k + 1, s_eos = False, s_needs_repair = False\<rparr>"
    "\<And>slot. s_indicators slot = inds \<Longrightarrow> \<not> RowsetTruncated wsize r slot n" "read_pos wsize drv r (Suc k) = read_pos wsize drv r k + int n"
proof -
  note d = assms [unfolded goes_on_def verdict_at_def rowset_at_def FillSlot_def Let_def]
  obtain bufs inds sts raw where f: "oc_fetch drv (read_pos wsize drv r k) (r_rows_per_fetch r) = Fetched bufs inds sts raw" "ReaderBindSlot drv r 0 = None"
    using d by (auto split: option.splits fetch_answer.splits)
  define n where "n = (if r_no_rows_fetched_ptr r then 1 else nat (OdbcReadULen raw (sqllen_32bit (r_opts r))))"
  have res: "ResolveFetched r slot = n" if "s_rows_fetched_raw slot = raw" for slot
    using that by (simp add: ResolveFetched_def n_def)
  show thesis
  proof (rule that [OF f(1) n_def])
    show "\<not> RowsetTruncated wsize r slot n" if "s_indicators slot = inds" for slot
    proof -
      have "RowsetTruncated wsize r slot' n = RowsetTruncated wsize r slot n" if "s_indicators slot' = inds" for slot'
        using that \<open>s_indicators slot = inds\<close> by (simp add: RowsetTruncated_def)
      then show ?thesis using d f by (simp add: res)
    qed
    then show "rowset_at wsize drv r k = \<lparr>s_buffers = bufs, s_indicators = inds, s_row_status = sts, s_rows_fetched_raw = raw, s_fetched = n,
       s_first_row = read_pos wsize drv r k + 1, s_eos = False, s_needs_repair = False\<rparr>"
      using f by (simp add: rowset_at_def FillSlot_def Let_def blank_slot_def res)
    show "read_pos wsize drv r (Suc k) = read_pos wsize drv r k + int n"
      using f by (simp add: FillSlot_def Let_def blank_slot_def res)
  qed
qed


section \<open>A concrete stream\<close>

text \<open>The table of one row of \<^const>\<open>demo_serve\<close>, read through a ring of two slots.\<close>

definition demo_ring :: OdbcReader where
  "demo_ring = demo_int_reader\<lparr>r_slots := [blank_slot, blank_slot], r_prefetching := True\<rparr>"

lemma demo_bind: "ReaderBindSlot (demo_cursor demo_serve) r 0 = None"
  by (simp add: ReaderBindSlot_def BindCols_succeeds demo_cursor_def)

lemma demo_goes_on: "goes_on 2 (demo_cursor demo_serve) demo_ring 0"
  by (simp add: goes_on_def verdict_at_def rowset_at_def FillSlot_def demo_bind Let_def blank_slot_def RowsetTruncated_def ResolveFetched_def)
    (simp add: demo_cursor_def demo_serve_def demo_ring_def demo_int_reader_def demo_reader_def demo_int_column_def var_ctype_def Let_def RowsetTruncated_def)

lemma demo_stops: "\<not> goes_on 2 (demo_cursor demo_serve) demo_ring 1"
proof -
  have "read_pos 2 (demo_cursor demo_serve) demo_ring 1 = 1"
    by (simp add: FillSlot_def demo_bind Let_def ResolveFetched_def)
      (simp add: demo_cursor_def demo_serve_def demo_ring_def demo_int_reader_def demo_reader_def demo_opts_def OdbcReadULen_def Let_def ResolveFetched_def)
  then show ?thesis
    by (simp add: goes_on_def verdict_at_def rowset_at_def FillSlot_def demo_bind Let_def) (simp add: demo_cursor_def demo_serve_def)
qed

lemma demo_ring_slots: "r_slots demo_ring \<noteq> []"
  by (simp add: demo_ring_def)

theorem prefetch_in_order_witness:
  "\<exists>s reason. prefetch_reach 2 (demo_cursor demo_serve) demo_ring (prefetch_init demo_ring) s \<and> caller_at s = CallerOwns reason
     \<and> fetch_at s = FetchExit \<and> taken s = map (rowset_at 2 (demo_cursor demo_serve) demo_ring) [0..<length (taken s)]"
proof -
  obtain s reason where run: "(prefetch_step 2 (demo_cursor demo_serve) demo_ring)\<^sup>*\<^sup>* (prefetch_init demo_ring) s" and o': "caller_at s = CallerOwns reason"
    using prefetch_ends [OF prefetch_inv_init [OF demo_ring_slots] demo_stops] by blast
  have r: "prefetch_reach 2 (demo_cursor demo_serve) demo_ring (prefetch_init demo_ring) s" by (intro reach_run [OF run prefetch_reach.start])
  note p = prefetch_in_order [OF r demo_ring_slots]
  have "taken s = map (rowset_at 2 (demo_cursor demo_serve) demo_ring) [0..<length (taken s)]"
    using p by (intro nth_equalityI) auto
  then show ?thesis using p r o' by blast
qed



end
