(* ===== verification/Objects.thy ===== *)
theory Objects
  imports Columns "HOL-Library.Option_ord" "HOL-Library.List_Lexorder" "HOL-Library.Product_Lexorder"
begin

text \<open>
  \<^verbatim>\<open>src/odbc_objects.c\<close>: \<^verbatim>\<open>ConnectionGetObjects\<close>.  The rows of the ODBC catalog functions are filtered
  again on the client, sorted, deduplicated and nested into catalogs, schemas, tables, columns and
  constraints.

  The driver is what its catalog functions answer; a text cell is \<open>None\<close> for SQL null and otherwise
  what fits the 2048-byte buffer of \<^verbatim>\<open>GetStrCol\<close>.  The nested Arrow arrays are nested lists.
  \<^verbatim>\<open>qsort\<close> is any sort by the row order; rows that compare equal are dropped, so their order is immaterial.
\<close>

section \<open>Names and patterns\<close>

definition AsciiLower :: "char \<Rightarrow> char" where
  "AsciiLower c = (if CHR ''A'' \<le> c \<and> c \<le> CHR ''Z'' then char_of (of_char c - of_char CHR ''A'' + of_char CHR ''a'' :: nat) else c)"

text \<open>
  The matcher: one place to go back to, behind the last \<^verbatim>\<open>%\<close> and where it was first tried.
  \<open>star_s\<close> is never empty while there is text left.
\<close>

function LikeLoop :: "string \<Rightarrow> string \<Rightarrow> (string \<times> string) option \<Rightarrow> bool" where
  "LikeLoop pat [] star = (dropWhile ((=) CHR ''%'') pat = [])"
| "LikeLoop pat (c # s) star =
     (if pat \<noteq> [] \<and> hd pat = CHR ''%'' then LikeLoop (tl pat) (c # s) (Some (tl pat, c # s))
      else if pat \<noteq> [] \<and> hd pat = CHR ''_'' then LikeLoop (tl pat) s star
      else
        let lit = (if pat \<noteq> [] \<and> hd pat = CHR 0x5C \<and> tl pat \<noteq> [] then tl pat else pat)
        in if lit \<noteq> [] \<and> AsciiLower (hd lit) = AsciiLower c then LikeLoop (tl lit) s star
           else case star of
                  Some (star_pat, _ # star_s) \<Rightarrow> LikeLoop star_pat star_s (Some (star_pat, star_s))
                | _ \<Rightarrow> False)"
  by pat_completeness auto
termination
  by (relation "measures [\<lambda>(pat, s, star). max (length s) (case star of None \<Rightarrow> 0 | Some (_, ss) \<Rightarrow> length ss),
                          \<lambda>(pat, s, star). length pat + length s]")
    (auto simp: neq_Nil_conv split: if_splits)

declare LikeLoop.simps(2) [simp del]

definition LikeMatch :: "string \<Rightarrow> string \<Rightarrow> bool" where
  "LikeMatch pat s = LikeLoop pat s None"

definition NameMatches :: "string option \<Rightarrow> string option \<Rightarrow> bool" where
  "NameMatches pattern nm =
     (case pattern of
        None \<Rightarrow> True
      | Some p \<Rightarrow>
          (if p = [] then nm = None \<or> nm = Some []
           else case nm of None \<Rightarrow> False | Some s \<Rightarrow> LikeMatch p s))"

text \<open>The SQL meaning of a pattern.\<close>

datatype like_token = AnySeq | AnyChar | Lit char

function like_tokens :: "string \<Rightarrow> like_token list" where
  "like_tokens [] = []"
| "like_tokens (c # p) =
     (if c = CHR ''%'' then AnySeq # like_tokens p
      else if c = CHR ''_'' then AnyChar # like_tokens p
      else if c = CHR 0x5C \<and> p \<noteq> [] then Lit (hd p) # like_tokens (tl p)
      else Lit c # like_tokens p)"
  by pat_completeness auto
termination by (relation "measure length") auto

fun sql_like :: "like_token list \<Rightarrow> string \<Rightarrow> bool" where
  "sql_like [] s = (s = [])"
| "sql_like (AnySeq # p) s = (\<exists>k\<le>length s. sql_like p (drop k s))"
| "sql_like (AnyChar # p) s = (s \<noteq> [] \<and> sql_like p (tl s))"
| "sql_like (Lit c # p) s = (s \<noteq> [] \<and> AsciiLower c = AsciiLower (hd s) \<and> sql_like p (tl s))"

lemma sql_like_append:
  "AnySeq \<notin> set q \<Longrightarrow> sql_like (q @ p) s \<Longrightarrow> length q \<le> length s \<and> sql_like p (drop (length q) s)"
proof (induction q arbitrary: s)
  case (Cons t q)
  then obtain x s' where s: "s = x # s'" by (cases t; cases s) auto
  have "sql_like (q @ p) s'" using Cons.prems s by (cases t) auto
  then show ?case using Cons.IH [of s'] Cons.prems(1) s by simp
qed simp

lemma sql_like_empty: "sql_like (like_tokens pat) [] \<longleftrightarrow> dropWhile ((=) CHR ''%'') pat = []"
  by (induction pat rule: like_tokens.induct) auto

lemma ex_drop_split: "(\<exists>k\<le>n. P (drop k xs)) \<longleftrightarrow> P xs \<or> (\<exists>k. 1 \<le> k \<and> k \<le> n \<and> P (drop k xs))"
proof
  assume "\<exists>k\<le>n. P (drop k xs)"
  then obtain k where "k \<le> n" "P (drop k xs)" by blast
  then show "P xs \<or> (\<exists>k. 1 \<le> k \<and> k \<le> n \<and> P (drop k xs))" by (cases k) auto
qed (auto intro: exI [of _ 0])

text \<open>What lies behind the last star was matched from where the star was tried.\<close>

definition star_ok :: "string \<Rightarrow> string \<Rightarrow> (string \<times> string) option \<Rightarrow> bool" where
  "star_ok pat s star \<longleftrightarrow> (\<forall>sp ss. star = Some (sp, ss) \<longrightarrow>
     (\<exists>q. like_tokens sp = q @ like_tokens pat \<and> AnySeq \<notin> set q \<and> s = drop (length q) ss \<and> length q \<le> length ss))"

definition star_later :: "(string \<times> string) option \<Rightarrow> bool" where
  "star_later star \<longleftrightarrow> (\<exists>sp ss k. star = Some (sp, ss) \<and> 1 \<le> k \<and> k \<le> length ss \<and> sql_like (like_tokens sp) (drop k ss))"

lemma star_ok_next:
  assumes "star_ok pat (c # s) star" "like_tokens pat = t # like_tokens pat'" "t \<noteq> AnySeq"
  shows "star_ok pat' s star"
  unfolding star_ok_def
proof (intro allI impI)
  fix sp ss assume "star = Some (sp, ss)"
  then obtain q where q: "like_tokens sp = q @ t # like_tokens pat'" "AnySeq \<notin> set q" "c # s = drop (length q) ss" "length q \<le> length ss"
    using assms(1,2) by (auto simp: star_ok_def)
  have "s = drop (length (q @ [t])) ss" using q(3) by (metis drop_Suc length_append_singleton list.sel(3) tl_drop)
  moreover have "length (q @ [t]) \<le> length ss" using q(3,4) by (metis Suc_leI drop_all le_neq_implies_less length_append_singleton list.discI order_refl)
  ultimately show "\<exists>q. like_tokens sp = q @ like_tokens pat' \<and> AnySeq \<notin> set q \<and> s = drop (length q) ss \<and> length q \<le> length ss"
    using q(1,2) assms(3) by (intro exI [of _ "q @ [t]"]) auto
qed

lemma star_forget:
  assumes "star_ok pat s star" "star_later star" "like_tokens pat = AnySeq # p"
  shows "sql_like (AnySeq # p) s"
proof -
  obtain sp ss k where k: "star = Some (sp, ss)" "1 \<le> k" "k \<le> length ss" "sql_like (like_tokens sp) (drop k ss)"
    using assms(2) by (auto simp: star_later_def)
  obtain q where q: "like_tokens sp = q @ AnySeq # p" "AnySeq \<notin> set q" "s = drop (length q) ss"
    using assms(1,3) k(1) by (auto simp: star_ok_def)
  have "sql_like (AnySeq # p) (drop (length q) (drop k ss))" using sql_like_append [OF q(2)] k(4) [unfolded q(1)] by blast
  then obtain j where j: "j \<le> length (drop (length q) (drop k ss))" "sql_like p (drop j (drop (length q) (drop k ss)))"
    unfolding sql_like.simps by blast
  have "drop j (drop (length q) (drop k ss)) = drop (j + k) s" unfolding q(3) by (simp add: ac_simps)
  moreover have "length q \<le> length (drop k ss)" using sql_like_append [OF q(2)] k(4) [unfolded q(1)] by blast
  ultimately show ?thesis using j k(3) q(3) by (auto intro!: exI [of _ "j + k"])
qed

lemma star_done:
  assumes "star_ok pat [] star" "star_later star"
  shows False
proof -
  obtain sp ss k where k: "star = Some (sp, ss)" "1 \<le> k" "k \<le> length ss" "sql_like (like_tokens sp) (drop k ss)"
    using assms(2) by (auto simp: star_later_def)
  obtain q where q: "like_tokens sp = q @ like_tokens pat" "AnySeq \<notin> set q" "[] = drop (length q) ss" "length q \<le> length ss"
    using assms(1) k(1) by (auto simp: star_ok_def)
  have "length q \<le> length ss - k" using sql_like_append [OF q(2)] k(4) q(1) by fastforce
  then show False using q(3,4) k(2,3) by simp
qed

lemma LikeLoop_like: "star_ok pat s star \<Longrightarrow> LikeLoop pat s star \<longleftrightarrow> sql_like (like_tokens pat) s \<or> star_later star"
proof (induction pat s star rule: LikeLoop.induct)
  case (1 pat star)
  then show ?case using star_done by (auto simp: sql_like_empty)
next
  case (2 pat c s star)
  show ?case
  proof (cases "pat \<noteq> [] \<and> hd pat = CHR ''%''")
    case True
    then obtain p where p: "pat = CHR ''%'' # p" by (cases pat) auto
    have "LikeLoop p (c # s) (Some (p, c # s)) \<longleftrightarrow> sql_like (like_tokens p) (c # s) \<or> star_later (Some (p, c # s))"
      using "2.IH"(1) [OF True] p by (simp add: star_ok_def)
    also have "\<dots> \<longleftrightarrow> sql_like (like_tokens pat) (c # s)"
      using ex_drop_split [of "Suc (length s)" "sql_like (like_tokens p)" "c # s"] by (simp add: p star_later_def)
    finally have "LikeLoop pat (c # s) star \<longleftrightarrow> sql_like (like_tokens pat) (c # s)" by (simp add: p LikeLoop.simps(2) [of "CHR ''%'' # p"])
    then show ?thesis using star_forget [OF "2.prems"] p by auto
  next
    case np: False
    show ?thesis
    proof (cases "pat \<noteq> [] \<and> hd pat = CHR ''_''")
      case True
      then obtain p where p: "pat = CHR ''_'' # p" by (cases pat) auto
      have "star_ok p s star" by (rule star_ok_next [OF "2.prems", of AnyChar]) (simp_all add: p)
      then show ?thesis using "2.IH"(2) [OF np True] p by (simp add: LikeLoop.simps(2) [of "CHR ''_'' # p"])
    next
      case nu: False
      define lit where "lit = (if pat \<noteq> [] \<and> hd pat = CHR 0x5C \<and> tl pat \<noteq> [] then tl pat else pat)"
      have t: "like_tokens pat = Lit (hd lit) # like_tokens (tl lit)" if "lit \<noteq> []"
        using np nu that by (cases pat) (simp_all add: lit_def)
      have e: "like_tokens pat = []" if "lit = []" using that by (simp add: lit_def split: if_splits)
      show ?thesis
      proof (cases "lit \<noteq> [] \<and> AsciiLower (hd lit) = AsciiLower c")
        case True
        have "star_ok (tl lit) s star" by (rule star_ok_next [OF "2.prems", of "Lit (hd lit)"]) (use t True in auto)
        then have ih: "LikeLoop (tl lit) s star \<longleftrightarrow> sql_like (like_tokens (tl lit)) s \<or> star_later star" by (rule "2.IH"(3) [OF np nu lit_def True])
        have "LikeLoop pat (c # s) star = LikeLoop (tl lit) s star"
          unfolding LikeLoop.simps(2) [of pat] if_not_P [OF np] if_not_P [OF nu] Let_def lit_def [symmetric] if_P [OF True] ..
        then show ?thesis using ih t True by simp
      next
        case False
        have no: "\<not> sql_like (like_tokens pat) (c # s)" using False t e by (cases "lit = []") simp_all
        have go: "LikeLoop pat (c # s) star = (case star of Some (sp, _ # ss) \<Rightarrow> LikeLoop sp ss (Some (sp, ss)) | _ \<Rightarrow> False)"
          unfolding LikeLoop.simps(2) [of pat] if_not_P [OF np] if_not_P [OF nu] Let_def lit_def [symmetric] if_not_P [OF False] ..
        show ?thesis
        proof (cases "\<exists>sp x ss. star = Some (sp, x # ss)")
          case True
          then obtain sp x ss where star: "star = Some (sp, x # ss)" by blast
          have "LikeLoop pat (c # s) star = LikeLoop sp ss (Some (sp, ss))" unfolding go by (simp add: star)
          also have "\<dots> \<longleftrightarrow> sql_like (like_tokens sp) ss \<or> star_later (Some (sp, ss))"
            by (rule "2.IH"(4) [OF np nu lit_def False star refl refl]) (simp add: star_ok_def)
          also have "\<dots> \<longleftrightarrow> star_later star"
          proof -
            have "(\<exists>k. 1 \<le> k \<and> k \<le> Suc (length ss) \<and> sql_like (like_tokens sp) (drop k (x # ss))) \<longleftrightarrow> (\<exists>k\<le>length ss. sql_like (like_tokens sp) (drop k ss))"
              by (metis One_nat_def Suc_le_D Suc_le_mono drop_Suc_Cons le0)
            moreover have "(\<exists>k\<le>length ss. sql_like (like_tokens sp) (drop k ss)) \<longleftrightarrow> sql_like (like_tokens sp) ss \<or> (\<exists>k. 1 \<le> k \<and> k \<le> length ss \<and> sql_like (like_tokens sp) (drop k ss))"
              by (rule ex_drop_split)
            ultimately show ?thesis by (simp add: star star_later_def)
          qed
          finally show ?thesis using no by simp
        next
          case ns: False
          have "star = None \<or> (\<exists>sp. star = Some (sp, []))" using ns by (metis list.exhaust not_None_eq surj_pair)
          then show ?thesis unfolding go using no by (auto simp: star_later_def)
        qed
      qed
    qed
  qed
qed

text \<open>
  C26. Filtering catalog, schema, table and column names on the client matches exactly what SQL
  \<^verbatim>\<open>LIKE\<close> means, up to ASCII case: the matcher remembers only the last \<^verbatim>\<open>%\<close>, and still never rejects a
  name that some other placement of the earlier ones would match.
\<close>

theorem LikeMatch_sql: "LikeMatch pat s \<longleftrightarrow> sql_like (like_tokens pat) s"
  by (simp add: LikeMatch_def LikeLoop_like star_ok_def star_later_def)

section \<open>The rows of the driver\<close>

text \<open>
  What the catalog functions answer.  Text and integer cells of \<^verbatim>\<open>SQLColumns\<close>, \<^verbatim>\<open>SQLPrimaryKeys\<close> and
  \<^verbatim>\<open>SQLForeignKeys\<close> rows are looked up by column number.  \<open>cd_exec\<close> tells whether a zero-row
  query runs, \<open>cd_describe\<close> its columns, \<open>None\<close> where describing one fails.
\<close>

type_synonym cells = "(nat \<Rightarrow> string option) \<times> (nat \<Rightarrow> int option)"

record described =
  de_name :: string
  de_type :: int
  de_size :: int
  de_digits :: int
  de_nullable :: int
  de_type_name :: "string option"

record catalog_driver =
  cd_alloc :: "status option"
  cd_tables :: "string option \<Rightarrow> string option \<Rightarrow> string option \<Rightarrow> string option \<Rightarrow> status + (string option \<times> string option \<times> string option \<times> string option) list"
  cd_current_catalog :: "string option"
  cd_columns :: "string option \<Rightarrow> string option \<Rightarrow> string option \<Rightarrow> string option \<Rightarrow> status + cells list"
  cd_exec :: "string \<Rightarrow> bool"
  cd_describe :: "string \<Rightarrow> described option list"
  cd_primary_keys :: "string option \<Rightarrow> string option \<Rightarrow> string option \<Rightarrow> cells list option"
  cd_foreign_keys :: "string option \<Rightarrow> string option \<Rightarrow> string option \<Rightarrow> cells list option"
  cd_quote :: string
  cd_zero_row_suffix :: "string option"
  cd_no_sql_columns :: bool
  cd_sqllen_32bit :: bool

definition GetNameCol :: "string option \<Rightarrow> string option" where
  "GetNameCol s = (case s of Some [] \<Rightarrow> None | _ \<Rightarrow> s)"

definition AppendNameOrNull :: "string option \<Rightarrow> string option" where
  "AppendNameOrNull s = (if s = None \<or> s = Some [] then None else s)"

text \<open>\<^verbatim>\<open>strcmp\<close> up to its sign: bytes compare as unsigned.\<close>

fun str_cmp :: "string \<Rightarrow> string \<Rightarrow> int" where
  "str_cmp [] [] = 0"
| "str_cmp [] (d # t) = - 1"
| "str_cmp (c # s) [] = 1"
| "str_cmp (c # s) (d # t) = (if c < d then - 1 else if d < c then 1 else str_cmp s t)"

fun StrCmpNull :: "string option \<Rightarrow> string option \<Rightarrow> int" where
  "StrCmpNull None None = 0"
| "StrCmpNull None (Some b) = - 1"
| "StrCmpNull (Some a) None = 1"
| "StrCmpNull (Some a) (Some b) = str_cmp a b"

record TableRow =
  t_catalog :: "string option"
  t_schema :: "string option"
  t_table :: "string option"
  t_type :: "string option"

definition TableRowCmp :: "TableRow \<Rightarrow> TableRow \<Rightarrow> int" where
  "TableRowCmp x y =
     (let c = StrCmpNull (t_catalog x) (t_catalog y) in
      if c \<noteq> 0 then c
      else let c = StrCmpNull (t_schema x) (t_schema y) in
        if c \<noteq> 0 then c else StrCmpNull (t_table x) (t_table y))"

text \<open>The key of a row, and the row order as the order of keys.\<close>

definition row_key :: "TableRow \<Rightarrow> string option \<times> string option \<times> string option" where
  "row_key t = (t_catalog t, t_schema t, t_table t)"

lemma str_cmp_sign: "(str_cmp a b = 0 \<longleftrightarrow> a = b) \<and> (str_cmp a b < 0 \<longleftrightarrow> a < b)"
  by (induction a b rule: str_cmp.induct) auto

lemma StrCmpNull_sign: "(StrCmpNull a b = 0 \<longleftrightarrow> a = b) \<and> (StrCmpNull a b < 0 \<longleftrightarrow> a < b)"
  by (cases "(a, b)" rule: StrCmpNull.cases) (auto simp: str_cmp_sign)

lemma StrCmpNull_zero [simp]: "StrCmpNull a b = 0 \<longleftrightarrow> a = b"
  using StrCmpNull_sign by blast

lemma TableRowCmp_sign: "(TableRowCmp x y = 0 \<longleftrightarrow> row_key x = row_key y) \<and> (TableRowCmp x y < 0 \<longleftrightarrow> row_key x < row_key y)"
  using StrCmpNull_sign by (auto simp: TableRowCmp_def row_key_def Let_def)

definition FetchTables :: "catalog_driver \<Rightarrow> string option \<Rightarrow> string option \<Rightarrow> string option \<Rightarrow> string option \<Rightarrow> bool \<Rightarrow> TableRow list \<Rightarrow> status + TableRow list" where
  "FetchTables drv cat sch tbl type tolerate_failure out =
     (case cd_alloc drv of
        Some e \<Rightarrow> Inl e
      | None \<Rightarrow>
          (case cd_tables drv cat sch tbl type of
             Inl e \<Rightarrow> if \<not> tolerate_failure then Inl e else Inr out
           | Inr rows \<Rightarrow> Inr (out @ map (\<lambda>(c, s, t, ty). \<lparr>t_catalog = GetNameCol c, t_schema = GetNameCol s, t_table = t, t_type = ty\<rparr>) rows)))"

definition CurrentCatalog :: "catalog_driver \<Rightarrow> string option" where
  "CurrentCatalog drv = (case cd_current_catalog drv of Some [] \<Rightarrow> None | s \<Rightarrow> s)"

abbreviation (input) ADBC_OBJECT_DEPTH_ALL :: int where "ADBC_OBJECT_DEPTH_ALL \<equiv> 0"
abbreviation (input) ADBC_OBJECT_DEPTH_CATALOGS :: int where "ADBC_OBJECT_DEPTH_CATALOGS \<equiv> 1"
abbreviation (input) ADBC_OBJECT_DEPTH_DB_SCHEMAS :: int where "ADBC_OBJECT_DEPTH_DB_SCHEMAS \<equiv> 2"
abbreviation (input) ADBC_OBJECT_DEPTH_TABLES :: int where "ADBC_OBJECT_DEPTH_TABLES \<equiv> 3"

definition TruncateRows :: "int \<Rightarrow> TableRow list \<Rightarrow> TableRow list" where
  "TruncateRows depth rows =
     map (\<lambda>t. t\<lparr>t_schema := (if depth = ADBC_OBJECT_DEPTH_CATALOGS then None else t_schema t), t_table := None, t_type := None\<rparr>) rows"

text \<open>The compaction loop: \<open>kept\<close> is what was written so far, the last written row first.\<close>

fun DedupeLoop :: "TableRow list \<Rightarrow> TableRow list \<Rightarrow> TableRow list" where
  "DedupeLoop kept [] = rev kept"
| "DedupeLoop kept (t # rows) =
     (if kept \<noteq> [] \<and> TableRowCmp (hd kept) t = 0 then DedupeLoop kept rows else DedupeLoop (t # kept) rows)"

definition SortAndDedupe :: "TableRow list \<Rightarrow> TableRow list" where
  "SortAndDedupe rows = DedupeLoop [] (if length rows > 1 then sort_key row_key rows else rows)"

fun JoinTypes :: "string list \<Rightarrow> string" where
  "JoinTypes [] = []"
| "JoinTypes [t] = t"
| "JoinTypes (t # ts) = t @ '','' @ JoinTypes ts"

text \<open>The rows \<open>CollectTables\<close> asks for, by depth, before they are filtered.\<close>

definition CollectCatalogs :: "catalog_driver \<Rightarrow> string option \<Rightarrow> status + TableRow list" where
  "CollectCatalogs drv catalog =
     (case (case FetchTables drv (Some ''%'') (Some []) (Some []) (Some []) True [] of
              Inl e \<Rightarrow> Inl e
            | Inr l \<Rightarrow> if l = [] then FetchTables drv catalog None None None False l else Inr l) of
        Inl e \<Rightarrow> Inl e
      | Inr l \<Rightarrow> Inr (TruncateRows ADBC_OBJECT_DEPTH_CATALOGS l
                   @ [\<lparr>t_catalog = CurrentCatalog drv, t_schema = None, t_table = None, t_type = None\<rparr>]))"

definition CollectSchemas :: "catalog_driver \<Rightarrow> string option \<Rightarrow> string option \<Rightarrow> status + TableRow list" where
  "CollectSchemas drv catalog db_schema =
     (case (if catalog = None then
              (case FetchTables drv (Some []) (Some ''%'') (Some []) (Some []) True [] of
                 Inl e \<Rightarrow> Inl e
               | Inr l \<Rightarrow> Inr (map (\<lambda>t. if t_catalog t = None then t\<lparr>t_catalog := CurrentCatalog drv\<rparr> else t) l))
            else Inr []) of
        Inl e \<Rightarrow> Inl e
      | Inr l \<Rightarrow>
          (case (if l = [] then FetchTables drv catalog db_schema None None False l else Inr l) of
             Inl e \<Rightarrow> Inl e
           | Inr l \<Rightarrow>
               (let l = TruncateRows ADBC_OBJECT_DEPTH_DB_SCHEMAS l
                in Inr (if l = [] then [\<lparr>t_catalog = CurrentCatalog drv, t_schema = None, t_table = None, t_type = None\<rparr>] else l))))"

definition CollectRows :: "catalog_driver \<Rightarrow> int \<Rightarrow> string option \<Rightarrow> string option \<Rightarrow> string option \<Rightarrow> string list \<Rightarrow> status + TableRow list" where
  "CollectRows drv depth catalog db_schema table_name table_type =
     (if depth = ADBC_OBJECT_DEPTH_CATALOGS then CollectCatalogs drv catalog
      else if depth = ADBC_OBJECT_DEPTH_DB_SCHEMAS then CollectSchemas drv catalog db_schema
      else FetchTables drv catalog db_schema table_name (if table_type = [] then None else Some (JoinTypes table_type)) False [])"

definition KeepRow :: "int \<Rightarrow> string option \<Rightarrow> string option \<Rightarrow> string option \<Rightarrow> TableRow \<Rightarrow> bool" where
  "KeepRow depth catalog db_schema table_name t \<longleftrightarrow>
     (let has_table = (depth \<noteq> ADBC_OBJECT_DEPTH_CATALOGS \<and> depth \<noteq> ADBC_OBJECT_DEPTH_DB_SCHEMAS)
      in NameMatches catalog (t_catalog t) \<and> (depth = ADBC_OBJECT_DEPTH_CATALOGS \<or> NameMatches db_schema (t_schema t))
         \<and> (\<not> has_table \<or> NameMatches table_name (t_table t)))"

definition CollectTables :: "catalog_driver \<Rightarrow> int \<Rightarrow> string option \<Rightarrow> string option \<Rightarrow> string option \<Rightarrow> string list \<Rightarrow> status + TableRow list" where
  "CollectTables drv depth catalog db_schema table_name table_type =
     (case CollectRows drv depth catalog db_schema table_name table_type of
        Inl e \<Rightarrow> Inl e
      | Inr l \<Rightarrow> Inr (SortAndDedupe (filter (KeepRow depth catalog db_schema table_name) l)))"

lemma DedupeLoop_keys:
  assumes "sorted_wrt (<) (map row_key (rev kept))" "sorted (map row_key rows)" "\<forall>t \<in> set rows. kept \<noteq> [] \<longrightarrow> row_key (hd kept) \<le> row_key t"
  shows "sorted_wrt (<) (map row_key (DedupeLoop kept rows)) \<and> row_key ` set (DedupeLoop kept rows) = row_key ` set kept \<union> row_key ` set rows
       \<and> set (DedupeLoop kept rows) \<subseteq> set kept \<union> set rows"
  using assms
proof (induction kept rows rule: DedupeLoop.induct)
  case (2 kept t rows)
  show ?case
  proof (cases "kept \<noteq> [] \<and> TableRowCmp (hd kept) t = 0")
    case True
    then have "row_key t \<in> row_key ` set kept" using TableRowCmp_sign by (metis hd_in_set image_eqI)
    then show ?thesis using "2.IH"(1) [OF True] 2 True by auto
  next
    case False
    have "\<forall>s \<in> set kept. row_key s < row_key t"
    proof
      fix s assume s: "s \<in> set kept"
      then have ne: "kept \<noteq> []" by auto
      then have "row_key (hd kept) < row_key t"
        using 2(5) False TableRowCmp_sign [of "hd kept" t] by (metis list.set_intros(1) order_le_imp_less_or_eq)
      moreover have "row_key s \<le> row_key (hd kept)"
        using 2(3) s ne by (cases kept) (auto simp: sorted_wrt_append)
      ultimately show "row_key s < row_key t" by (meson le_less_trans)
    qed
    then have "sorted_wrt (<) (map row_key (rev (t # kept)))" using 2(3) by (auto simp: sorted_wrt_append)
    then show ?thesis using "2.IH"(2) [OF False] 2(4) False by auto
  qed
qed simp

lemma SortAndDedupe_keys:
  "sorted_wrt (<) (map row_key (SortAndDedupe rows)) \<and> row_key ` set (SortAndDedupe rows) = row_key ` set rows \<and> set (SortAndDedupe rows) \<subseteq> set rows"
proof -
  let ?l = "if length rows > 1 then sort_key row_key rows else rows"
  have "sorted (map row_key ?l)"
  proof (cases "length rows > 1")
    case False
    then show ?thesis by (cases rows) auto
  qed simp
  then show ?thesis using DedupeLoop_keys [of "[]" ?l] by (auto simp: SortAndDedupe_def split: if_splits)
qed


section \<open>Columns and constraints of a table\<close>

record column_out =
  co_name :: string
  co_ordinal :: "int option"
  co_remarks :: "string option"
  co_data_type :: "int option"
  co_type_name :: "string option"
  co_column_size :: "int option"
  co_decimal_digits :: "int option"
  co_num_prec_radix :: "int option"
  co_nullable :: "int option"
  co_column_def :: "string option"
  co_sql_data_type :: "int option"
  co_datetime_sub :: "int option"
  co_char_octet_length :: "int option"
  co_is_nullable :: "string option"

text \<open>Appending an integer to an Arrow column of \<open>w\<close> bits fails when it does not fit.\<close>

definition int_fits :: "nat \<Rightarrow> int option \<Rightarrow> bool" where
  "int_fits w v \<longleftrightarrow> (case v of None \<Rightarrow> True | Some x \<Rightarrow> - (2 ^ (w - 1)) \<le> x \<and> x < 2 ^ (w - 1))"

definition or_empty :: "string option \<Rightarrow> string" where
  "or_empty s = (case s of None \<Rightarrow> [] | Some s \<Rightarrow> s)"

definition EmitColumn :: "string option \<Rightarrow> string option \<Rightarrow> string option \<Rightarrow> string option \<Rightarrow> string option \<Rightarrow> (nat \<Rightarrow> int option) \<Rightarrow> status + column_out" where
  "EmitColumn nm type_name remarks column_def is_nullable num =
     (if int_fits 32 (num 17) \<and> int_fits 16 (num 5) \<and> int_fits 32 (num 7) \<and> int_fits 16 (num 9) \<and> int_fits 16 (num 10)
         \<and> int_fits 16 (num 11) \<and> int_fits 16 (num 14) \<and> int_fits 16 (num 15) \<and> int_fits 32 (num 16)
      then Inr \<lparr>co_name = or_empty nm, co_ordinal = num 17, co_remarks = remarks, co_data_type = num 5, co_type_name = type_name,
                co_column_size = num 7, co_decimal_digits = num 9, co_num_prec_radix = num 10, co_nullable = num 11,
                co_column_def = column_def, co_sql_data_type = num 14, co_datetime_sub = num 15, co_char_octet_length = num 16,
                co_is_nullable = is_nullable\<rparr>
      else Inl ADBC_STATUS_INTERNAL)"

text \<open>An operation for every element of a list, up to the first error.\<close>

fun each :: "('a \<Rightarrow> status + 'b) \<Rightarrow> 'a list \<Rightarrow> status + 'b list" where
  "each f [] = Inr []"
| "each f (x # xs) =
     (case f x of
        Inl e \<Rightarrow> Inl e
      | Inr y \<Rightarrow> (case each f xs of Inl e \<Rightarrow> Inl e | Inr ys \<Rightarrow> Inr (y # ys)))"

lemma each_Inr_iff: "each f xs = Inr ys \<longleftrightarrow> length ys = length xs \<and> (\<forall>i<length xs. f (xs ! i) = Inr (ys ! i))"
proof (induction xs arbitrary: ys)
  case (Cons x xs)
  show ?case
  proof (cases ys)
    case (Cons y ys')
    then show ?thesis using Cons.IH [of ys'] by (auto simp: All_less_Suc2 split: sum.split)
  qed (auto split: sum.split)
qed auto

lemma each_fails: "x \<in> set xs \<Longrightarrow> f x = Inl e \<Longrightarrow> \<exists>e'. each f xs = Inl e'"
  by (induction xs) (auto split: sum.split)

lemma each_hit: "x \<in> set xs \<Longrightarrow> each f xs = Inr ys \<Longrightarrow> \<exists>y \<in> set ys. f x = Inr y"
  by (induction xs arbitrary: ys) (auto split: sum.splits)

definition DescribeQuery :: "catalog_driver \<Rightarrow> TableRow \<Rightarrow> nat \<Rightarrow> string" where
  "DescribeQuery drv t level =
     (let q = cd_quote drv
      in ''SELECT * FROM '' @ (if level = 0 then q @ or_empty (t_catalog t) @ q @ ''.'' else [])
         @ (if level \<le> 1 \<and> or_empty (t_schema t) \<noteq> [] then q @ or_empty (t_schema t) @ q @ ''.'' else [])
         @ q @ or_empty (t_table t) @ q @ '' '' @ (case cd_zero_row_suffix drv of None \<Rightarrow> ''WHERE 1=0'' | Some s \<Rightarrow> s))"

definition DescribeTableStmt :: "catalog_driver \<Rightarrow> TableRow \<Rightarrow> string option" where
  "DescribeTableStmt drv t =
     find (cd_exec drv) (map (DescribeQuery drv t)
       ((if or_empty (t_catalog t) \<noteq> [] then [0] else []) @ (if or_empty (t_schema t) \<noteq> [] then [1] else []) @ [2]))"

definition DescribedColumn :: "bool \<Rightarrow> nat \<Rightarrow> described \<Rightarrow> status + column_out" where
  "DescribedColumn quirk i d =
     (let sz = s64 (OdbcReadULen (de_size d) quirk);
          num = (\<lambda>k. if k = 5 \<or> k = 14 then Some (de_type d) else if k = 7 then (if sz > 0 then Some sz else None)
                      else if k = 9 then Some (de_digits d) else if k = 11 then Some (de_nullable d)
                      else if k = 17 then Some (int i) else None);
          yes_no = (if de_nullable d = 0 then Some ''NO'' else if de_nullable d = 1 then Some ''YES'' else None)
      in EmitColumn (Some (de_name d)) (case de_type_name d of Some [] \<Rightarrow> None | n \<Rightarrow> n) None None yes_no num)"

definition AppendColumnsViaDescribe :: "catalog_driver \<Rightarrow> TableRow \<Rightarrow> string option \<Rightarrow> status + column_out list" where
  "AppendColumnsViaDescribe drv t column_name =
     (if cd_alloc drv \<noteq> None then Inl ADBC_STATUS_IO
      else case DescribeTableStmt drv t of
             None \<Rightarrow> Inl ADBC_STATUS_IO
           | Some q \<Rightarrow>
               (let ds = cd_describe drv q
                in each (\<lambda>i. DescribedColumn (cd_sqllen_32bit drv) (i + 1) (the (ds ! i)))
                     (filter (\<lambda>i. case ds ! i of None \<Rightarrow> False
                                  | Some d \<Rightarrow> (case column_name of None \<Rightarrow> True | Some p \<Rightarrow> LikeMatch p (de_name d))) [0..<length ds])))"

definition ColumnsRow :: "cells \<Rightarrow> status + column_out" where
  "ColumnsRow row =
     EmitColumn (fst row 4) (fst row 6) (fst row 12) (fst row 13) (fst row 18)
       (\<lambda>k. if k \<in> {5, 7, 9, 10, 11, 14, 15, 16, 17} then snd row k else None)"

definition AppendColumns :: "catalog_driver \<Rightarrow> TableRow \<Rightarrow> string option \<Rightarrow> status + column_out list" where
  "AppendColumns drv t column_name =
     (if cd_no_sql_columns drv then AppendColumnsViaDescribe drv t column_name
      else case cd_alloc drv of
             Some e \<Rightarrow> Inl e
           | None \<Rightarrow>
               (case cd_columns drv (t_catalog t) (t_schema t) (t_table t) column_name of
                  Inl e \<Rightarrow> (case AppendColumnsViaDescribe drv t column_name of Inr cols \<Rightarrow> Inr cols | Inl _ \<Rightarrow> Inl e)
                | Inr rows \<Rightarrow> each ColumnsRow rows))"

record usage_out =
  u_catalog :: "string option"
  u_schema :: "string option"
  u_table :: string
  u_column :: string

record constraint_out =
  k_name :: "string option"
  k_type :: string
  k_columns :: "string list"
  k_usage :: "usage_out list option"

fun FirstName :: "cells list \<Rightarrow> string option" where
  "FirstName [] = None"
| "FirstName (row # rows) = (case fst row 6 of Some n \<Rightarrow> Some n | None \<Rightarrow> FirstName rows)"

definition PrimaryKey :: "cells list \<Rightarrow> constraint_out list" where
  "PrimaryKey rows =
     (if rows = [] then []
      else [\<lparr>k_name = FirstName rows, k_type = ''PRIMARY KEY'', k_columns = map (\<lambda>row. or_empty (fst row 4)) rows, k_usage = None\<rparr>])"

definition fk_seq :: "cells \<Rightarrow> int" where
  "fk_seq row = (case snd row 9 of None \<Rightarrow> 0 | Some n \<Rightarrow> n)"

definition fk_usage :: "cells \<Rightarrow> usage_out" where
  "fk_usage row = \<lparr>u_catalog = AppendNameOrNull (fst row 1), u_schema = AppendNameOrNull (fst row 2),
     u_table = or_empty (fst row 3), u_column = or_empty (fst row 4)\<rparr>"

text \<open>The rows of \<^verbatim>\<open>SQLForeignKeys\<close>: \<open>open\<close> is the constraint being collected and its last \<^verbatim>\<open>KEY_SEQ\<close>.\<close>

fun ForeignKeyLoop :: "(constraint_out \<times> int) option \<Rightarrow> cells list \<Rightarrow> constraint_out list" where
  "ForeignKeyLoop None [] = []"
| "ForeignKeyLoop (Some (k, seq_prev)) [] = [k]"
| "ForeignKeyLoop None (row # rows) =
     ForeignKeyLoop (Some (\<lparr>k_name = fst row 12, k_type = ''FOREIGN KEY'', k_columns = [or_empty (fst row 8)], k_usage = Some [fk_usage row]\<rparr>, fk_seq row)) rows"
| "ForeignKeyLoop (Some (k, seq_prev)) (row # rows) =
     (if StrCmpNull (fst row 12) (k_name k) \<noteq> 0 \<or> fk_seq row \<le> seq_prev
      then k # ForeignKeyLoop (Some (\<lparr>k_name = fst row 12, k_type = ''FOREIGN KEY'', k_columns = [or_empty (fst row 8)],
                                     k_usage = Some [fk_usage row]\<rparr>, fk_seq row)) rows
      else ForeignKeyLoop (Some (k\<lparr>k_columns := k_columns k @ [or_empty (fst row 8)],
                                   k_usage := map_option (\<lambda>u. u @ [fk_usage row]) (k_usage k)\<rparr>, fk_seq row)) rows)"

definition AppendConstraints :: "catalog_driver \<Rightarrow> TableRow \<Rightarrow> status + constraint_out list" where
  "AppendConstraints drv t =
     (case cd_alloc drv of
        Some e \<Rightarrow> Inl e
      | None \<Rightarrow>
          Inr ((case cd_primary_keys drv (t_catalog t) (t_schema t) (t_table t) of None \<Rightarrow> [] | Some rows \<Rightarrow> PrimaryKey rows)
             @ (case cd_foreign_keys drv (t_catalog t) (t_schema t) (t_table t) of None \<Rightarrow> [] | Some rows \<Rightarrow> ForeignKeyLoop None rows)))"

section \<open>The nested result\<close>

record table_out =
  ta_name :: string
  ta_type :: string
  ta_columns :: "column_out list option"
  ta_constraints :: "constraint_out list option"

type_synonym schema_out = "string option \<times> table_out list option"
type_synonym catalog_out = "string option \<times> schema_out list option"

definition EmitTable :: "catalog_driver \<Rightarrow> int \<Rightarrow> string option \<Rightarrow> TableRow \<Rightarrow> status + table_out" where
  "EmitTable drv depth column_name t =
     (if depth = ADBC_OBJECT_DEPTH_TABLES
      then Inr \<lparr>ta_name = or_empty (t_table t), ta_type = or_empty (t_type t), ta_columns = None, ta_constraints = None\<rparr>
      else case AppendColumns drv t column_name of
             Inl e \<Rightarrow> Inl e
           | Inr cols \<Rightarrow>
               (case AppendConstraints drv t of
                  Inl e \<Rightarrow> Inl e
                | Inr cons \<Rightarrow> Inr \<lparr>ta_name = or_empty (t_table t), ta_type = or_empty (t_type t), ta_columns = Some cols, ta_constraints = Some cons\<rparr>))"

function SchemaLoop :: "catalog_driver \<Rightarrow> int \<Rightarrow> string option \<Rightarrow> TableRow list \<Rightarrow> status + schema_out list" where
  "SchemaLoop drv depth column_name [] = Inr []"
| "SchemaLoop drv depth column_name (t # rows) =
     (let cur_sch = t_schema t;
          mine = takeWhile (\<lambda>r. StrCmpNull (t_schema r) cur_sch = 0) (t # rows);
          rest = dropWhile (\<lambda>r. StrCmpNull (t_schema r) cur_sch = 0) rows
      in case (if depth = ADBC_OBJECT_DEPTH_DB_SCHEMAS then Inr None
               else case each (EmitTable drv depth column_name) mine of Inl e \<Rightarrow> Inl e | Inr ts \<Rightarrow> Inr (Some ts)) of
           Inl e \<Rightarrow> Inl e
         | Inr ts \<Rightarrow> (case SchemaLoop drv depth column_name rest of Inl e \<Rightarrow> Inl e | Inr ss \<Rightarrow> Inr ((cur_sch, ts) # ss)))"
  by pat_completeness auto
termination by (relation "measure (\<lambda>(drv, depth, column_name, rows). length rows)") (auto simp: length_dropWhile_le le_imp_less_Suc)

function CatalogLoop :: "catalog_driver \<Rightarrow> int \<Rightarrow> string option \<Rightarrow> TableRow list \<Rightarrow> status + catalog_out list" where
  "CatalogLoop drv depth column_name [] = Inr []"
| "CatalogLoop drv depth column_name (t # rows) =
     (let cur_cat = t_catalog t;
          mine = takeWhile (\<lambda>r. StrCmpNull (t_catalog r) cur_cat = 0) (t # rows);
          rest = dropWhile (\<lambda>r. StrCmpNull (t_catalog r) cur_cat = 0) rows
      in case (if depth = ADBC_OBJECT_DEPTH_CATALOGS then Inr None
               else case SchemaLoop drv depth column_name mine of Inl e \<Rightarrow> Inl e | Inr ss \<Rightarrow> Inr (Some ss)) of
           Inl e \<Rightarrow> Inl e
         | Inr ss \<Rightarrow> (case CatalogLoop drv depth column_name rest of Inl e \<Rightarrow> Inl e | Inr cs \<Rightarrow> Inr ((cur_cat, ss) # cs)))"
  by pat_completeness auto
termination by (relation "measure (\<lambda>(drv, depth, column_name, rows). length rows)") (auto simp: length_dropWhile_le le_imp_less_Suc)

definition OdbcConnectionGetObjects :: "bool \<Rightarrow> catalog_driver \<Rightarrow> int \<Rightarrow> string option \<Rightarrow> string option \<Rightarrow> string option \<Rightarrow> string list \<Rightarrow> string option
    \<Rightarrow> status + catalog_out list" where
  "OdbcConnectionGetObjects connected drv depth catalog db_schema table_name table_type column_name =
     (if \<not> connected then Inl ADBC_STATUS_INVALID_STATE
      else case CollectTables drv depth catalog db_schema table_name table_type of
             Inl e \<Rightarrow> Inl e
           | Inr rows \<Rightarrow> CatalogLoop drv depth column_name rows)"

section \<open>The result lists what was collected\<close>

text \<open>The tables of a nested result, with the names they are nested under.\<close>

definition schema_tables :: "schema_out list \<Rightarrow> (string option \<times> string) list" where
  "schema_tables ss = concat (map (\<lambda>(s, ts). map (\<lambda>t. (s, ta_name t)) (the ts)) ss)"

definition tree_tables :: "catalog_out list \<Rightarrow> (string option \<times> string option \<times> string) list" where
  "tree_tables tree = concat (map (\<lambda>(c, ss). map (\<lambda>st. (c, st)) (schema_tables (the ss))) tree)"

lemma takeWhile_group: "map f (takeWhile (\<lambda>r. f r = x) rows) = replicate (length (takeWhile (\<lambda>r. f r = x) rows)) x"
  by (induction rows) auto

lemma map_group: "map (\<lambda>r. (f r, g r)) (takeWhile (\<lambda>r. f r = x) rows) = map (\<lambda>r. (x, g r)) (takeWhile (\<lambda>r. f r = x) rows)"
  by (induction rows) auto

lemma dropWhile_sorted:
  "sorted (map f (x # xs)) \<Longrightarrow> y \<in> set (dropWhile (\<lambda>r. f r = f x) xs) \<Longrightarrow> f x < f y"
  by (induction xs) (auto split: if_splits)

text \<open>Induction over the groups of a list, one group after the other.\<close>

lemma list_span_induct [case_names Nil span]:
  assumes "P []" "\<And>x xs. P (dropWhile (\<lambda>r. f r = f x) xs) \<Longrightarrow> P (x # xs)"
  shows "P xs"
proof (induction xs rule: length_induct)
  case (1 xs)
  then show ?case using assms by (cases xs) (auto simp: length_dropWhile_le le_imp_less_Suc)
qed

lemma EmitTable_name: "EmitTable drv depth col t = Inr out \<Longrightarrow> ta_name out = or_empty (t_table t)"
  by (auto simp: EmitTable_def split: if_splits sum.splits)

lemma each_map: "each f xs = Inr ys \<Longrightarrow> (\<And>x y. f x = Inr y \<Longrightarrow> g y = h x) \<Longrightarrow> map g ys = map h xs"
  by (induction xs arbitrary: ys) (auto split: sum.splits)

lemma SchemaLoop_tables:
  assumes "SchemaLoop drv depth col rows = Inr ss" "depth \<noteq> ADBC_OBJECT_DEPTH_DB_SCHEMAS"
  shows "schema_tables ss = map (\<lambda>t. (t_schema t, or_empty (t_table t))) rows"
  using assms(1)
proof (induction rows arbitrary: ss rule: list_span_induct [where f = t_schema])
  case (span t rows)
  let ?same = "\<lambda>r. t_schema r = t_schema t"
  let ?mine = "t # takeWhile ?same rows" and ?rest = "dropWhile ?same rows"
  obtain ts ss' where s: "each (EmitTable drv depth col) ?mine = Inr ts" "SchemaLoop drv depth col ?rest = Inr ss'" "ss = (t_schema t, Some ts) # ss'"
    using span(2) assms(2) by (auto simp: Let_def split: sum.splits if_splits)
  have "schema_tables ss' = map (\<lambda>t. (t_schema t, or_empty (t_table t))) ?rest" using span(1) s(2) by simp
  moreover have "map (\<lambda>t'. (t_schema t, ta_name t')) ts = map (\<lambda>r. (t_schema r, or_empty (t_table r))) ?mine"
  proof -
    have "map (\<lambda>t'. (t_schema t, ta_name t')) ts = map (\<lambda>r. (t_schema t, or_empty (t_table r))) ?mine"
      by (rule each_map [OF s(1)]) (simp add: EmitTable_name)
    then show ?thesis by (simp only: list.map map_group)
  qed
  moreover have "rows = takeWhile ?same rows @ ?rest" by simp
  ultimately show ?case unfolding s(3) schema_tables_def
    by (simp flip: map_append)
qed (simp add: schema_tables_def)

lemma SchemaLoop_distinct:
  assumes "SchemaLoop drv depth col rows = Inr ss" "sorted (map t_schema rows)"
  shows "distinct (map fst ss) \<and> fst ` set ss = t_schema ` set rows"
  using assms
proof (induction rows arbitrary: ss rule: list_span_induct [where f = t_schema])
  case (span t rows)
  let ?same = "\<lambda>r. t_schema r = t_schema t"
  let ?rest = "dropWhile ?same rows"
  have split: "set rows = set (takeWhile ?same rows) \<union> set ?rest" by (metis set_append takeWhile_dropWhile_id)
  obtain ts ss' where s: "SchemaLoop drv depth col ?rest = Inr ss'" "ss = (t_schema t, ts) # ss'"
    "(if depth = ADBC_OBJECT_DEPTH_DB_SCHEMAS then Inr None
      else case each (EmitTable drv depth col) (t # takeWhile ?same rows) of Inl e \<Rightarrow> Inl e | Inr ts \<Rightarrow> Inr (Some ts)) = Inr ts"
    using span(2) by (auto simp: Let_def split: sum.splits if_splits)
  have "sorted (map t_schema ?rest)" using span(3) by (metis sorted_append map_append takeWhile_dropWhile_id list.simps(9) sorted_simps(2))
  then have ih: "distinct (map fst ss') \<and> fst ` set ss' = t_schema ` set ?rest" using span(1) s(1) by simp
  moreover have "t_schema t \<notin> t_schema ` set ?rest" using dropWhile_sorted [OF span(3)] by force
  moreover have "t_schema ` set (takeWhile ?same rows) \<subseteq> {t_schema t}" by (auto dest: set_takeWhileD)
  ultimately show ?case using split by (auto simp: s(2))
qed simp

lemma keys_catalogs: "sorted_wrt (<) (map row_key rows) \<Longrightarrow> sorted (map t_catalog rows)"
  by (induction rows) (auto simp: row_key_def)

lemma keys_schemas: "sorted_wrt (<) (map row_key rows) \<Longrightarrow> \<forall>r \<in> set rows. t_catalog r = c \<Longrightarrow> sorted (map t_schema rows)"
  by (induction rows) (auto simp: row_key_def)

lemma CatalogLoop_tree:
  assumes "CatalogLoop drv depth col rows = Inr tree" "depth \<noteq> ADBC_OBJECT_DEPTH_CATALOGS" "depth \<noteq> ADBC_OBJECT_DEPTH_DB_SCHEMAS"
    and "sorted_wrt (<) (map row_key rows)"
  shows "tree_tables tree = map (\<lambda>t. (t_catalog t, t_schema t, or_empty (t_table t))) rows
       \<and> distinct (map fst tree) \<and> fst ` set tree = t_catalog ` set rows \<and> (\<forall>(c, ss) \<in> set tree. ss \<noteq> None \<and> distinct (map fst (the ss)))"
  using assms(1,4)
proof (induction rows arbitrary: tree rule: list_span_induct [where f = t_catalog])
  case (span t rows)
  let ?same = "\<lambda>r. t_catalog r = t_catalog t"
  let ?mine = "t # takeWhile ?same rows" and ?rest = "dropWhile ?same rows"
  have split: "set rows = set (takeWhile ?same rows) \<union> set ?rest" "rows = takeWhile ?same rows @ ?rest"
    by (metis set_append takeWhile_dropWhile_id) simp
  obtain ss cs where s: "SchemaLoop drv depth col ?mine = Inr ss" "CatalogLoop drv depth col ?rest = Inr cs" "tree = (t_catalog t, Some ss) # cs"
    using span(2) assms(2) by (auto simp: Let_def split: sum.splits if_splits)
  have keys: "sorted_wrt (<) (map row_key (t # takeWhile ?same rows @ ?rest))" using span(3) by simp
  then have key2: "sorted_wrt (<) (map row_key ?mine)" "sorted_wrt (<) (map row_key ?rest)"
    by (simp_all only: append_Cons [symmetric] map_append sorted_wrt_append)
  have "sorted (map t_catalog (t # rows))" by (rule keys_catalogs [OF span(3)])
  then have notin: "t_catalog t \<notin> t_catalog ` set ?rest" using dropWhile_sorted [of t_catalog t rows] by force
  have same: "\<forall>r \<in> set ?mine. t_catalog r = t_catalog t" by (auto dest: set_takeWhileD)
  have "sorted (map t_schema ?mine)" by (rule keys_schemas [OF key2(1) same])
  then have dist: "distinct (map fst ss)" using SchemaLoop_distinct [OF s(1)] by blast
  have ih: "tree_tables cs = map (\<lambda>t. (t_catalog t, t_schema t, or_empty (t_table t))) ?rest
       \<and> distinct (map fst cs) \<and> fst ` set cs = t_catalog ` set ?rest \<and> (\<forall>(c, ss) \<in> set cs. ss \<noteq> None \<and> distinct (map fst (the ss)))"
    using span(1) s(2) key2(2) by simp
  have "map (\<lambda>st. (t_catalog t, st)) (schema_tables ss) = map (\<lambda>r. (t_catalog r, t_schema r, or_empty (t_table r))) ?mine"
    by (simp only: SchemaLoop_tables [OF s(1) assms(3)] list.map map_map comp_def map_group)
  then have "tree_tables tree = map (\<lambda>t. (t_catalog t, t_schema t, or_empty (t_table t))) (?mine @ ?rest)"
    using ih by (simp add: s(3) tree_tables_def flip: map_append)
  moreover have "t_catalog ` set (takeWhile ?same rows) \<subseteq> {t_catalog t}" by (auto dest: set_takeWhileD)
  ultimately show ?case using split ih notin dist by (auto simp: s(3))
qed (simp add: tree_tables_def)

text \<open>
  C25. The nested result is the collected list, grouped: reading the catalogs, their schemas and their
  tables in order gives exactly the collected tables in order; each catalog is listed once, and each
  schema once within its catalog.
\<close>

theorem GetObjects_tree:
  assumes "OdbcConnectionGetObjects True drv depth catalog db_schema table_name table_type column_name = Inr tree"
    and "depth \<noteq> ADBC_OBJECT_DEPTH_CATALOGS" "depth \<noteq> ADBC_OBJECT_DEPTH_DB_SCHEMAS"
  shows "\<exists>rows. CollectTables drv depth catalog db_schema table_name table_type = Inr rows
       \<and> tree_tables tree = map (\<lambda>t. (t_catalog t, t_schema t, or_empty (t_table t))) rows
       \<and> distinct (map fst tree) \<and> (\<forall>(c, ss) \<in> set tree. distinct (map fst (the ss)))"
proof -
  obtain rows where rows: "CollectTables drv depth catalog db_schema table_name table_type = Inr rows" "CatalogLoop drv depth column_name rows = Inr tree"
    using assms(1) by (auto simp: OdbcConnectionGetObjects_def split: sum.splits)
  have "sorted_wrt (<) (map row_key rows)"
    using rows(1) SortAndDedupe_keys by (auto simp: CollectTables_def split: sum.splits)
  from CatalogLoop_tree [OF rows(2) assms(2,3) this] rows(1) show ?thesis by fastforce
qed

section \<open>Foreign keys\<close>

definition fk_names :: "constraint_out list \<Rightarrow> string option list" where
  "fk_names ks = concat (map (\<lambda>k. replicate (length (k_columns k)) (k_name k)) ks)"

lemma ForeignKeyLoop_open:
  assumes "k_usage k = Some us" "length us = length (k_columns k)"
  shows "concat (map k_columns (ForeignKeyLoop (Some (k, sq)) rows)) = k_columns k @ map (\<lambda>row. or_empty (fst row 8)) rows
       \<and> concat (map (the \<circ> k_usage) (ForeignKeyLoop (Some (k, sq)) rows)) = us @ map fk_usage rows
       \<and> fk_names (ForeignKeyLoop (Some (k, sq)) rows) = replicate (length (k_columns k)) (k_name k) @ map (\<lambda>row. fst row 12) rows
       \<and> (\<forall>c \<in> set (ForeignKeyLoop (Some (k, sq)) rows). c = k \<or> k_type c = k_type k \<or> k_type c = ''FOREIGN KEY'')"
  using assms
proof (induction rows arbitrary: k us sq)
  case (Cons row rows)
  let ?new = "\<lparr>k_name = fst row 12, k_type = ''FOREIGN KEY'', k_columns = [or_empty (fst row 8)], k_usage = Some [fk_usage row]\<rparr>"
  let ?more = "k\<lparr>k_columns := k_columns k @ [or_empty (fst row 8)], k_usage := map_option (\<lambda>u. u @ [fk_usage row]) (k_usage k)\<rparr>"
  show ?case
  proof (cases "StrCmpNull (fst row 12) (k_name k) \<noteq> 0 \<or> fk_seq row \<le> sq")
    case True
    then show ?thesis using Cons.IH [of ?new "[fk_usage row]" "fk_seq row"] Cons.prems by (auto simp: fk_names_def)
  next
    case False
    then show ?thesis using Cons.IH [of ?more "us @ [fk_usage row]" "fk_seq row"] Cons.prems
      by (auto simp: replicate_append_same)
  qed
qed (simp add: fk_names_def)


section \<open>Two defects\<close>

lemma SchemaLoop_fails: "t \<in> set rows \<Longrightarrow> EmitTable drv depth col t = Inl e \<Longrightarrow> depth \<noteq> ADBC_OBJECT_DEPTH_DB_SCHEMAS \<Longrightarrow> \<exists>e'. SchemaLoop drv depth col rows = Inl e'"
proof (induction rows rule: list_span_induct [where f = t_schema])
  case (span x xs)
  have "xs = takeWhile (\<lambda>r. t_schema r = t_schema x) xs @ dropWhile (\<lambda>r. t_schema r = t_schema x) xs" by simp
  then have "t \<in> set (x # takeWhile (\<lambda>r. t_schema r = t_schema x) xs) \<or> t \<in> set (dropWhile (\<lambda>r. t_schema r = t_schema x) xs)"
    using span(2) by (metis Un_iff set_append set_ConsD list.set_intros)
  then show ?case
  proof
    assume "t \<in> set (x # takeWhile (\<lambda>r. t_schema r = t_schema x) xs)"
    from each_fails [of t _ "EmitTable drv depth col", OF this span(3)] show ?thesis using span(4) by (auto simp: Let_def split: sum.splits)
  next
    assume "t \<in> set (dropWhile (\<lambda>r. t_schema r = t_schema x) xs)"
    then obtain e' where "SchemaLoop drv depth col (dropWhile (\<lambda>r. t_schema r = t_schema x) xs) = Inl e'"
      using span(1,3,4) by blast
    then show ?thesis using span(4) by (simp add: Let_def split: sum.split)
  qed
qed simp

lemma CatalogLoop_fails:
  "t \<in> set rows \<Longrightarrow> EmitTable drv depth col t = Inl e \<Longrightarrow> depth \<noteq> ADBC_OBJECT_DEPTH_CATALOGS \<Longrightarrow> depth \<noteq> ADBC_OBJECT_DEPTH_DB_SCHEMAS
   \<Longrightarrow> \<exists>e'. CatalogLoop drv depth col rows = Inl e'"
proof (induction rows rule: list_span_induct [where f = t_catalog])
  case (span x xs)
  have "xs = takeWhile (\<lambda>r. t_catalog r = t_catalog x) xs @ dropWhile (\<lambda>r. t_catalog r = t_catalog x) xs" by simp
  then have "t \<in> set (x # takeWhile (\<lambda>r. t_catalog r = t_catalog x) xs) \<or> t \<in> set (dropWhile (\<lambda>r. t_catalog r = t_catalog x) xs)"
    using span(2) by (metis Un_iff set_append set_ConsD list.set_intros)
  then show ?case
  proof
    assume "t \<in> set (x # takeWhile (\<lambda>r. t_catalog r = t_catalog x) xs)"
    then obtain e' where "SchemaLoop drv depth col (x # takeWhile (\<lambda>r. t_catalog r = t_catalog x) xs) = Inl e'"
      using SchemaLoop_fails span(3,5) by blast
    then show ?thesis using span(4) by (simp del: SchemaLoop.simps add: Let_def)
  next
    assume "t \<in> set (dropWhile (\<lambda>r. t_catalog r = t_catalog x) xs)"
    then obtain e' where "CatalogLoop drv depth col (dropWhile (\<lambda>r. t_catalog r = t_catalog x) xs) = Inl e'"
      using span(1,3-5) by blast
    then show ?thesis using span(4,5) by (simp del: SchemaLoop.simps add: Let_def split: sum.split)
  qed
qed simp

text \<open>
  A defect: one column the driver describes as larger than \<^verbatim>\<open>INT32_MAX\<close> (MySQL's LONGTEXT has
  4294967295 bytes) makes the whole listing fail, not only the field that cannot hold the number.
\<close>

theorem GetObjects_large_column_fails:
  assumes "CollectTables drv ADBC_OBJECT_DEPTH_ALL catalog db_schema table_name table_type = Inr rows" "t \<in> set rows"
    and "\<not> cd_no_sql_columns drv" "cd_columns drv (t_catalog t) (t_schema t) (t_table t) column_name = Inr cols"
    and "row \<in> set cols" "snd row 7 = Some sz" "INT32_MAX < sz"
  shows "\<exists>e. OdbcConnectionGetObjects True drv ADBC_OBJECT_DEPTH_ALL catalog db_schema table_name table_type column_name = Inl e"
proof -
  have "ColumnsRow row = Inl ADBC_STATUS_INTERNAL" using assms(6,7) by (simp add: ColumnsRow_def EmitColumn_def int_fits_def)
  then obtain e where "each ColumnsRow cols = Inl e" using each_fails [OF assms(5)] by blast
  then have "\<exists>e. EmitTable drv ADBC_OBJECT_DEPTH_ALL column_name t = Inl e"
    using assms(3,4) by (cases "cd_alloc drv") (simp_all add: EmitTable_def AppendColumns_def)
  then show ?thesis using CatalogLoop_fails [OF assms(2)] assms(1) by (fastforce simp: OdbcConnectionGetObjects_def)
qed

definition columns_by_pattern :: "catalog_driver \<Rightarrow> TableRow \<Rightarrow> (string \<times> cells) list \<Rightarrow> bool" where
  "columns_by_pattern drv t base \<longleftrightarrow>
     (\<forall>p. cd_columns drv (t_catalog t) (t_schema t) (Some p) None = Inr (map snd (filter (\<lambda>(n, row). sql_like (like_tokens p) n) base)))"

text \<open>
  A defect: the table a listing is about is passed to \<^verbatim>\<open>SQLColumns\<close>, which takes a search pattern, as
  it stands.  With a driver that answers the rows of every table the pattern matches, the columns of
  any other table whose name matches (\<^verbatim>\<open>axb\<close> for \<^verbatim>\<open>a_b\<close>) are listed as columns of this one.
\<close>

theorem AppendColumns_other_tables:
  assumes "cd_alloc drv = None" "\<not> cd_no_sql_columns drv" "columns_by_pattern drv t base" "t_table t = Some pat"
    and "(other, row) \<in> set base" "other \<noteq> pat" "sql_like (like_tokens pat) other"
    and "AppendColumns drv t None = Inr cols"
  shows "\<exists>c \<in> set cols. ColumnsRow row = Inr c"
proof -
  have "row \<in> set (map snd (filter (\<lambda>(n, row). sql_like (like_tokens pat) n) base))" using assms(5,7) by force
  moreover have "each ColumnsRow (map snd (filter (\<lambda>(n, row). sql_like (like_tokens pat) n) base)) = Inr cols"
    using assms(1-4,8) by (simp add: AppendColumns_def columns_by_pattern_def)
  ultimately show ?thesis by (rule each_hit)
qed

section \<open>Examples\<close>

text \<open>A driver with the tables \<^verbatim>\<open>a_b\<close> and \<^verbatim>\<open>axb\<close> of schema \<^verbatim>\<open>s\<close>, each with one column.\<close>

definition demo_cells :: "string \<Rightarrow> int \<Rightarrow> cells" where
  "demo_cells nm sz = (\<lambda>k. if k = 4 then Some nm else None, \<lambda>k. if k = 7 then Some sz else if k = 17 then Some 1 else None)"

definition demo_base :: "int \<Rightarrow> (string \<times> cells) list" where
  "demo_base sz = [(''a_b'', demo_cells ''id'' 4), (''axb'', demo_cells ''doc'' sz)]"

definition demo_driver :: "int \<Rightarrow> catalog_driver" where
  "demo_driver sz =
     \<lparr>cd_alloc = None,
      cd_tables = (\<lambda>_ _ _ _. Inr [(None, Some ''s'', Some ''axb'', Some ''TABLE''), (None, Some ''s'', Some ''a_b'', Some ''TABLE''),
                                  (None, Some ''s'', Some ''a_b'', Some ''TABLE'')]),
      cd_current_catalog = None,
      cd_columns = (\<lambda>cat sch tbl col. Inr (map snd (filter (\<lambda>(n, row). case tbl of None \<Rightarrow> True | Some p \<Rightarrow> sql_like (like_tokens p) n) (demo_base sz)))),
      cd_exec = (\<lambda>_. False), cd_describe = (\<lambda>_. []), cd_primary_keys = (\<lambda>_ _ _. Some []), cd_foreign_keys = (\<lambda>_ _ _. None),
      cd_quote = ''q'', cd_zero_row_suffix = None, cd_no_sql_columns = False, cd_sqllen_32bit = False\<rparr>"

definition demo_row :: "string \<Rightarrow> TableRow" where
  "demo_row tbl = \<lparr>t_catalog = None, t_schema = Some ''s'', t_table = Some tbl, t_type = Some ''TABLE''\<rparr>"

lemma demo_like: "LikeLoop ''a_b'' ''a_b'' None" "LikeLoop ''a_b'' ''axb'' None"
  by (simp_all add: LikeLoop.simps AsciiLower_def)

lemma demo_collected:
  "CollectTables (demo_driver sz) depth None None (Some ''a_b'') [] = Inr [demo_row ''a_b'', demo_row ''axb'']"
  if "depth \<in> {0, 3}"
  using that by (auto simp: CollectTables_def CollectRows_def FetchTables_def demo_driver_def GetNameCol_def KeepRow_def Let_def
      NameMatches_def LikeMatch_def AsciiLower_def SortAndDedupe_def TableRowCmp_def row_key_def demo_row_def demo_like)


theorem GetObjects_tree_witness:
  "\<exists>tree. OdbcConnectionGetObjects True (demo_driver 0) 3 None None (Some ''a_b'') [] None = Inr tree
     \<and> tree_tables tree = [(None, Some ''s'', ''a_b''), (None, Some ''s'', ''axb'')]"
proof -
  obtain tree where tree: "OdbcConnectionGetObjects True (demo_driver 0) 3 None None (Some ''a_b'') [] None = Inr tree"
    using demo_collected [of 3 0] by (simp add: OdbcConnectionGetObjects_def EmitTable_def demo_row_def)
  show ?thesis using GetObjects_tree [OF tree] tree demo_collected [of 3 0] by (simp add: demo_row_def or_empty_def)
qed

theorem GetObjects_large_column_fails_witness:
  "\<exists>e. OdbcConnectionGetObjects True (demo_driver 4294967295) 0 None None (Some ''a_b'') [] None = Inl e"
  by (rule GetObjects_large_column_fails [where t = "demo_row ''a_b''" and row = "demo_cells ''doc'' 4294967295" and sz = 4294967295
        and cols = "[demo_cells ''id'' 4, demo_cells ''doc'' 4294967295]", OF demo_collected])
    (simp_all add: demo_driver_def demo_row_def demo_base_def demo_cells_def AsciiLower_def)

theorem AppendColumns_other_tables_witness:
  "\<exists>cols. AppendColumns (demo_driver 8) (demo_row ''a_b'') None = Inr cols \<and> (\<exists>c \<in> set cols. ColumnsRow (demo_cells ''doc'' 8) = Inr c)"
proof -
  have by_pattern: "columns_by_pattern (demo_driver 8) (demo_row ''a_b'') (demo_base 8)"
    by (simp add: columns_by_pattern_def demo_driver_def)
  obtain cols where cols: "AppendColumns (demo_driver 8) (demo_row ''a_b'') None = Inr cols"
    by (simp add: AppendColumns_def demo_driver_def demo_row_def demo_base_def AsciiLower_def ColumnsRow_def EmitColumn_def demo_cells_def int_fits_def)
  then show ?thesis using AppendColumns_other_tables [OF _ _ by_pattern _ _ _ _ cols, of "''a_b''" "''axb''" "demo_cells ''doc'' 8"]
    by (simp add: demo_driver_def demo_row_def demo_base_def AsciiLower_def)
qed

end
