(* ===== verification/Delegate.thy ===== *)
theory Delegate
  imports Prelude
begin

text \<open>
  \<^verbatim>\<open>src/odbc_delegate.c\<close>, the text part: reading ODBC connection strings, deciding which native driver
  family a target belongs to, which keywords may be dropped, forwarded or must stop delegation,
  building the native URI, and the way back from a native URI to an ODBC connection string.

  Strings are the bytes before the terminator; a null pointer is \<open>None\<close>.  Character classes are
  those of the C locale.  Allocation succeeds.  The \<^verbatim>\<open>odbc.ini\<close> reader is a parameter (\<open>profile\<close>).
  Errors are the message the code puts in \<^verbatim>\<open>why\<close>.
\<close>

section \<open>Small string helpers\<close>

definition isalnum :: "char \<Rightarrow> bool" where
  "isalnum c \<longleftrightarrow> is_digit c \<or> (CHR ''a'' \<le> c \<and> c \<le> CHR ''z'') \<or> (CHR ''A'' \<le> c \<and> c \<le> CHR ''Z'')"

definition isxdigit :: "char \<Rightarrow> bool" where
  "isxdigit c \<longleftrightarrow> is_digit c \<or> (CHR ''a'' \<le> c \<and> c \<le> CHR ''f'') \<or> (CHR ''A'' \<le> c \<and> c \<le> CHR ''F'')"

fun EqualsNoCase :: "string \<Rightarrow> string \<Rightarrow> bool" where
  "EqualsNoCase (c # a) (d # b) = (if to_lower c \<noteq> to_lower d then False else EqualsNoCase a b)"
| "EqualsNoCase a b = (a = [] \<and> b = [])"

text \<open>The inner loop of \<^verbatim>\<open>ContainsNoCase\<close>: does \<open>needle\<close> match at this place?\<close>

fun MatchNoCase :: "string \<Rightarrow> string \<Rightarrow> bool" where
  "MatchNoCase p [] = True"
| "MatchNoCase [] (n # ns) = False"
| "MatchNoCase (c # p) (n # ns) = (to_lower c = to_lower n \<and> MatchNoCase p ns)"

fun ContainsNoCaseFrom :: "string \<Rightarrow> string \<Rightarrow> bool" where
  "ContainsNoCaseFrom [] needle = False"
| "ContainsNoCaseFrom (c # p) needle = (MatchNoCase (c # p) needle \<or> ContainsNoCaseFrom p needle)"

definition ContainsNoCase :: "string option \<Rightarrow> string \<Rightarrow> bool" where
  "ContainsNoCase haystack needle =
     (case haystack of None \<Rightarrow> False | Some h \<Rightarrow> needle = [] \<or> ContainsNoCaseFrom h needle)"

definition InNameList :: "string list \<Rightarrow> string \<Rightarrow> bool" where
  "InNameList names v = list_ex (\<lambda>n. EqualsNoCase n v) names"

definition StrListAdd :: "string list \<Rightarrow> string option \<Rightarrow> string list" where
  "StrListAdd l v = (case v of None \<Rightarrow> l | Some v \<Rightarrow> if v = [] \<or> v \<in> set l then l else l @ [v])"

definition LooksLikePath :: "string option \<Rightarrow> bool" where
  "LooksLikePath v = (case v of None \<Rightarrow> False | Some v \<Rightarrow> list_ex (\<lambda>c. \<not> (isalnum c \<or> c = CHR ''_'' \<or> c = CHR ''-'')) v)"

lemma EqualsNoCase_map: "EqualsNoCase a b \<longleftrightarrow> map to_lower a = map to_lower b"
  by (induction a b rule: EqualsNoCase.induct) auto

section \<open>Connection strings\<close>

text \<open>
  \<open>ConnStringNext\<close> takes the text the iterator points at; its result is the next pair and where the
  iterator is left.  \<open>BraceValue\<close> is the loop over a value in braces, from behind the opening one:
  the value, and the text behind the closing brace.
\<close>

abbreviation (input) tab :: char where "tab \<equiv> CHR 0x09"

definition is_separator :: "char \<Rightarrow> bool" where
  "is_separator c \<longleftrightarrow> c = CHR '';'' \<or> c = CHR '' '' \<or> c = tab \<or> c = CHR 0x0D \<or> c = CHR 0x0A"

definition is_blank :: "char \<Rightarrow> bool" where
  "is_blank c \<longleftrightarrow> c = CHR '' '' \<or> c = tab"

definition TrimBlanks :: "string \<Rightarrow> string" where
  "TrimBlanks s = rev (dropWhile is_blank (rev s))"

fun BraceValue :: "string \<Rightarrow> string \<times> string" where
  "BraceValue [] = ([], [])"
| "BraceValue (c # v) =
     (if c = CHR ''}'' then
        (if v \<noteq> [] \<and> hd v = CHR ''}'' then (let (s, r) = BraceValue (tl v) in (CHR ''}'' # s, r)) else ([], v))
      else (let (s, r) = BraceValue v in (c # s, r)))"

definition ConnStringNext :: "string \<Rightarrow> ((string \<times> string) \<times> string) option" where
  "ConnStringNext it =
     (let p = dropWhile is_separator it
      in if p = [] \<or> CHR ''='' \<notin> set p then None
         else
           let key = TrimBlanks (takeWhile (\<lambda>c. c \<noteq> CHR ''='') p);
               v = tl (dropWhile (\<lambda>c. c \<noteq> CHR ''='') p)
           in if v \<noteq> [] \<and> hd v = CHR ''{''
              then (let (s, r) = BraceValue (tl v) in Some ((key, s), dropWhile (\<lambda>c. c \<noteq> CHR '';'') r))
              else Some ((key, takeWhile (\<lambda>c. c \<noteq> CHR '';'') v), dropWhile (\<lambda>c. c \<noteq> CHR '';'') v))"

lemma BraceValue_length: "length (snd (BraceValue v)) \<le> length v"
  by (induction v rule: BraceValue.induct) (auto simp: case_prod_unfold Let_def)

lemma ConnStringNext_length: "ConnStringNext it = Some (kv, it') \<Longrightarrow> length it' < length it"
proof -
  assume n: "ConnStringNext it = Some (kv, it')"
  let ?p = "dropWhile is_separator it" and ?v = "tl (dropWhile (\<lambda>c. c \<noteq> CHR ''='') (dropWhile is_separator it))"
  have p: "CHR ''='' \<in> set ?p" using n by (auto simp: ConnStringNext_def Let_def split: if_splits)
  have "length it' \<le> length ?v"
    using n BraceValue_length [of "tl ?v"] length_dropWhile_le [of "\<lambda>c. c \<noteq> CHR '';''" "snd (BraceValue (tl ?v))"]
      length_dropWhile_le [of "\<lambda>c. c \<noteq> CHR '';''" ?v]
    by (auto simp: ConnStringNext_def Let_def case_prod_unfold split: if_splits)
  moreover have "dropWhile (\<lambda>c. c \<noteq> CHR ''='') ?p \<noteq> []" using p by (auto simp: dropWhile_eq_Nil_conv)
  then have "length ?v < length (dropWhile (\<lambda>c. c \<noteq> CHR ''='') ?p)" by simp
  ultimately show ?thesis
    using length_dropWhile_le [of "\<lambda>c. c \<noteq> CHR ''=''" ?p] length_dropWhile_le [of is_separator it] by linarith
qed

text \<open>All pairs of a connection string, as the loops \<^verbatim>\<open>while (ConnStringNext(&it, ...))\<close> see them.\<close>

function ConnStringPairs :: "string \<Rightarrow> (string \<times> string) list" where
  "ConnStringPairs it = (case ConnStringNext it of None \<Rightarrow> [] | Some (kv, it') \<Rightarrow> kv # ConnStringPairs it')"
  by pat_completeness auto
termination by (relation "measure length") (auto dest: ConnStringNext_length)

declare ConnStringPairs.simps [simp del]

definition ConnStringGet :: "string option \<Rightarrow> string \<Rightarrow> string option" where
  "ConnStringGet conn key =
     (case conn of None \<Rightarrow> None | Some c \<Rightarrow> map_option snd (find (\<lambda>(k, v). EqualsNoCase k key) (ConnStringPairs c)))"

definition AppendOdbcValue :: "string \<Rightarrow> string \<Rightarrow> string" where
  "AppendOdbcValue sb v = sb @ ''{'' @ concat (map (\<lambda>c. if c = CHR ''}'' then ''}}'' else [c]) v) @ ''}''"

subsection \<open>What is quoted is read back\<close>

lemma BraceValue_quoted:
  "r = [] \<or> hd r \<noteq> CHR ''}'' \<Longrightarrow>
   BraceValue (concat (map (\<lambda>c. if c = CHR ''}'' then ''}}'' else [c]) v) @ CHR ''}'' # r) = (v, r)"
  by (induction v) auto

text \<open>A keyword as the driver writes it: no separator in front, no blank behind, no equals sign.\<close>

definition plain_key :: "string \<Rightarrow> bool" where
  "plain_key k \<longleftrightarrow> k \<noteq> [] \<and> \<not> is_separator (hd k) \<and> \<not> is_blank (last k) \<and> CHR ''='' \<notin> set k"

lemma TrimBlanks_plain: "k \<noteq> [] \<Longrightarrow> \<not> is_blank (last k) \<Longrightarrow> TrimBlanks k = k"
  by (cases k rule: rev_cases) (simp_all add: TrimBlanks_def)

lemma ConnStringNext_pair:
  assumes "plain_key k"
  shows "ConnStringNext (k @ ''='' @ AppendOdbcValue [] v @ '';'' @ r) = Some ((k, v), CHR '';'' # r)"
proof -
  obtain c k' where k: "k = c # k'" "\<not> is_separator c" using assms by (cases k) (auto simp: plain_key_def)
  let ?q = "concat (map (\<lambda>c. if c = CHR ''}'' then ''}}'' else [c]) v) @ CHR ''}'' # CHR '';'' # r"
  have p: "dropWhile is_separator (k @ ''='' @ AppendOdbcValue [] v @ '';'' @ r) = k @ CHR ''='' # CHR ''{'' # ?q"
    using k by (simp add: AppendOdbcValue_def)
  have t: "takeWhile (\<lambda>c. c \<noteq> CHR ''='') (k @ CHR ''='' # CHR ''{'' # ?q) = k"
    "dropWhile (\<lambda>c. c \<noteq> CHR ''='') (k @ CHR ''='' # CHR ''{'' # ?q) = CHR ''='' # CHR ''{'' # ?q"
    using assms by (auto simp: plain_key_def takeWhile_append dropWhile_append)
  have "BraceValue ?q = (v, CHR '';'' # r)" by (rule BraceValue_quoted) simp
  then show ?thesis
    unfolding ConnStringNext_def Let_def p t using TrimBlanks_plain [of k] assms by (simp add: plain_key_def)
qed

lemma ConnStringNext_semicolon [simp]: "ConnStringNext (CHR '';'' # s) = ConnStringNext s"
  by (simp add: ConnStringNext_def is_separator_def)

lemma ConnStringNext_Nil [simp]: "ConnStringNext [] = None"
  by (simp add: ConnStringNext_def)

definition odbc_text :: "(string \<times> string) list \<Rightarrow> string" where
  "odbc_text kvs = concat (map (\<lambda>(k, v). k @ ''='' @ AppendOdbcValue [] v @ '';'') kvs)"

lemma ConnStringPairs_semicolon [simp]: "ConnStringPairs (CHR '';'' # s) = ConnStringPairs s"
  by (simp add: ConnStringPairs.simps [of "CHR '';'' # s"] ConnStringPairs.simps [of s])

lemma ConnStringPairs_odbc_text: "list_all (plain_key \<circ> fst) kvs \<Longrightarrow> ConnStringPairs (odbc_text kvs) = kvs"
proof (induction kvs)
  case Nil
  show ?case by (simp add: odbc_text_def ConnStringPairs.simps)
next
  case (Cons kv kvs)
  obtain k v where kv: "kv = (k, v)" by force
  have "ConnStringNext (odbc_text (kv # kvs)) = Some ((k, v), CHR '';'' # odbc_text kvs)"
    using ConnStringNext_pair [of k v "odbc_text kvs"] Cons.prems by (simp add: kv odbc_text_def)
  then have "ConnStringPairs (odbc_text (kv # kvs)) = (k, v) # ConnStringPairs (odbc_text kvs)"
    by (simp add: ConnStringPairs.simps [of "odbc_text (kv # kvs)"])
  then show ?case using Cons by (simp add: kv)
qed

section \<open>Percent encoding\<close>

definition kHex :: string where "kHex = ''0123456789ABCDEF''"

definition EncodeByte :: "char \<Rightarrow> string" where
  "EncodeByte p =
     (if isalnum p \<or> p = CHR ''-'' \<or> p = CHR ''.'' \<or> p = CHR ''_'' \<or> p = CHR ''~'' then [p]
      else [CHR ''%'', kHex ! (of_char p div 16), kHex ! (of_char p mod 16)])"

definition AppendEncoded :: "string \<Rightarrow> string \<Rightarrow> string" where
  "AppendEncoded sb v = sb @ concat (map EncodeByte v)"

definition HexValue :: "char \<Rightarrow> int" where
  "HexValue c =
     (if CHR ''0'' \<le> c \<and> c \<le> CHR ''9'' then of_char c - of_char CHR ''0''
      else if CHR ''a'' \<le> c \<and> c \<le> CHR ''f'' then of_char c - of_char CHR ''a'' + 10
      else if CHR ''A'' \<le> c \<and> c \<le> CHR ''F'' then of_char c - of_char CHR ''A'' + 10
      else - 1)"

fun DecodeLoop :: "string \<Rightarrow> string" where
  "DecodeLoop (c # a # b # s) =
     (if c = CHR ''%'' \<and> 0 \<le> HexValue a \<and> 0 \<le> HexValue b then char_of (nat (16 * HexValue a + HexValue b)) # DecodeLoop s
      else c # DecodeLoop (a # b # s))"
| "DecodeLoop s = s"

text \<open>The decoded bytes are used as a C string: an encoded NUL ends it.\<close>

definition PercentDecode :: "string \<Rightarrow> string" where
  "PercentDecode v = takeWhile (\<lambda>c. c \<noteq> CHR 0x00) (DecodeLoop v)"

lemma hex_table: "list_all (\<lambda>n. HexValue (kHex ! n) = int n \<and> isalnum (kHex ! n)) [0..<16]"
  by code_simp

lemma hex_digit: "n < 16 \<Longrightarrow> HexValue (kHex ! n) = int n" "n < 16 \<Longrightarrow> isalnum (kHex ! n)"
  using hex_table by (simp_all add: list_all_iff)

lemma EncodeByte_plain: "EncodeByte p = [p] \<and> p \<noteq> CHR ''%'' \<or> EncodeByte p = [CHR ''%'', kHex ! (of_char p div 16), kHex ! (of_char p mod 16)]"
  by (auto simp: EncodeByte_def isalnum_def is_digit_def)

lemma DecodeLoop_plain: "p \<noteq> CHR ''%'' \<Longrightarrow> DecodeLoop (p # s) = p # DecodeLoop s"
  by (cases "p # s" rule: DecodeLoop.cases) auto

lemma DecodeLoop_byte: "DecodeLoop (EncodeByte p @ s) = p # DecodeLoop s"
  using EncodeByte_plain [of p]
proof
  assume e: "EncodeByte p = [CHR ''%'', kHex ! (of_char p div 16), kHex ! (of_char p mod 16)]"
  have "of_char p div 16 < (16::nat)" using nat_of_char_less_256 [of p] by linarith
  then have h: "HexValue (kHex ! (of_char p div 16)) = int (of_char p div 16)" "HexValue (kHex ! (of_char p mod 16)) = int (of_char p mod 16)"
    by (simp_all only: hex_digit mod_less_divisor zero_less_numeral)
  have "nat (16 * int (k div 16) + int (k mod 16)) = k" for k :: nat
    by (simp only: zdiv_int zmod_int of_nat_numeral mult_div_mod_eq nat_int)
  then show ?thesis unfolding e append.simps DecodeLoop.simps h by simp
qed (simp add: DecodeLoop_plain)

lemma DecodeLoop_encoded: "DecodeLoop (concat (map EncodeByte v)) = v"
  by (induction v) (simp_all add: DecodeLoop_byte)

lemma PercentDecode_encoded: "CHR 0x00 \<notin> set v \<Longrightarrow> PercentDecode (concat (map EncodeByte v)) = v"
  unfolding PercentDecode_def DecodeLoop_encoded by (induction v) auto

text \<open>Encoded text has none of the characters a URI is cut at.\<close>

definition url_delims :: "char set" where
  "url_delims = set ''/?#@:[]&=''"

lemma alnum_delims: "isalnum c \<or> c \<in> set ''-._~%'' \<Longrightarrow> c \<notin> url_delims"
  by (auto simp: url_delims_def isalnum_def is_digit_def)

lemma EncodeByte_chars: "c \<in> set (EncodeByte p) \<Longrightarrow> isalnum c \<or> c \<in> set ''-._~%''"
proof -
  have "of_char p div 16 < (16::nat)" "of_char p mod 16 < (16::nat)" using nat_of_char_less_256 [of p] by (linarith, simp)
  then have "isalnum (kHex ! (of_char p div 16))" "isalnum (kHex ! (of_char p mod 16))" by (simp_all only: hex_digit)
  then show "c \<in> set (EncodeByte p) \<Longrightarrow> isalnum c \<or> c \<in> set ''-._~%''"
    unfolding EncodeByte_def by (cases "isalnum p \<or> p = CHR ''-'' \<or> p = CHR ''.'' \<or> p = CHR ''_'' \<or> p = CHR ''~''") auto
qed

lemma EncodeByte_delims: "c \<in> set (EncodeByte p) \<Longrightarrow> c \<notin> url_delims"
  by (rule alnum_delims [OF EncodeByte_chars])

section \<open>Target families\<close>

datatype OdbcNativeFamily =
  FAMILY_NONE | FAMILY_POSTGRESQL | FAMILY_SQLITE | FAMILY_DUCKDB | FAMILY_SNOWFLAKE | FAMILY_BIGQUERY | FAMILY_FLIGHTSQL

fun FamilyDriverName :: "OdbcNativeFamily \<Rightarrow> string option" where
  "FamilyDriverName FAMILY_POSTGRESQL = Some ''postgresql''"
| "FamilyDriverName FAMILY_SQLITE = Some ''sqlite''"
| "FamilyDriverName FAMILY_DUCKDB = Some ''duckdb''"
| "FamilyDriverName FAMILY_SNOWFLAKE = Some ''snowflake''"
| "FamilyDriverName FAMILY_BIGQUERY = Some ''bigquery''"
| "FamilyDriverName FAMILY_FLIGHTSQL = Some ''flightsql''"
| "FamilyDriverName FAMILY_NONE = None"

definition FamilyFromDriverName :: "string option \<Rightarrow> OdbcNativeFamily" where
  "FamilyFromDriverName nm =
     (if ContainsNoCase nm ''postgres'' then FAMILY_POSTGRESQL
      else if ContainsNoCase nm ''sqlite'' then FAMILY_SQLITE
      else if ContainsNoCase nm ''duckdb'' then FAMILY_DUCKDB
      else if ContainsNoCase nm ''snowflake'' then FAMILY_SNOWFLAKE
      else if ContainsNoCase nm ''bigquery'' then FAMILY_BIGQUERY
      else if ContainsNoCase nm ''flightsql'' \<or> ContainsNoCase nm ''flight_sql'' then FAMILY_FLIGHTSQL
      else FAMILY_NONE)"

definition FamilyFromOdbcDriver :: "string option \<Rightarrow> OdbcNativeFamily" where
  "FamilyFromOdbcDriver driver =
     (if driver = None \<or> driver = Some [] then FAMILY_NONE
      else if ContainsNoCase driver ''psqlodbc'' \<or> ContainsNoCase driver ''postgres'' then FAMILY_POSTGRESQL
      else if ContainsNoCase driver ''sqlite'' then FAMILY_SQLITE
      else if ContainsNoCase driver ''duckdb'' then FAMILY_DUCKDB
      else if ContainsNoCase driver ''snowflake'' then FAMILY_SNOWFLAKE
      else if ContainsNoCase driver ''bigquery'' then FAMILY_BIGQUERY
      else FAMILY_NONE)"

text \<open>The family of a URI and what follows the scheme; the latter matters only with a family.\<close>

definition FamilyFromUri :: "string option \<Rightarrow> OdbcNativeFamily \<times> string" where
  "FamilyFromUri u =
     (case u of
        None \<Rightarrow> (FAMILY_NONE, [])
      | Some uri \<Rightarrow>
          let is_scheme = (\<lambda>c. isalnum c \<or> c = CHR ''+'' \<or> c = CHR ''.'' \<or> c = CHR ''-'');
              scheme = takeWhile is_scheme uri; p = dropWhile is_scheme uri
          in if p = [] \<or> hd p \<noteq> CHR '':'' \<or> scheme = [] then (FAMILY_NONE, [])
             else if length scheme \<ge> 32 then (FAMILY_NONE, [])
             else
               (if EqualsNoCase scheme ''postgresql'' \<or> EqualsNoCase scheme ''postgres'' then FAMILY_POSTGRESQL
                else if EqualsNoCase scheme ''sqlite'' \<or> EqualsNoCase scheme ''sqlite3'' then FAMILY_SQLITE
                else if EqualsNoCase scheme ''duckdb'' then FAMILY_DUCKDB
                else if EqualsNoCase scheme ''snowflake'' then FAMILY_SNOWFLAKE
                else if EqualsNoCase scheme ''bigquery'' then FAMILY_BIGQUERY
                else if EqualsNoCase scheme ''grpc'' \<or> EqualsNoCase scheme ''grpc+tls'' \<or> EqualsNoCase scheme ''grpc+tcp''
                        \<or> EqualsNoCase scheme ''grpc+unix'' then FAMILY_FLIGHTSQL
                else FAMILY_NONE, tl p))"

definition OdbcDelegateIsNativeUri :: "string option \<Rightarrow> bool" where
  "OdbcDelegateIsNativeUri v \<longleftrightarrow> fst (FamilyFromUri v) \<noteq> FAMILY_NONE"

section \<open>The driver manager's profile\<close>

text \<open>
  What \<^verbatim>\<open>SQLGetPrivateProfileString\<close> answers: \<open>ini_names\<close> the names in a section of a file (\<open>None\<close> for the
  list of sections), \<open>None\<close> if it is not there or answers nothing; \<open>ini_value\<close> an entry of \<^verbatim>\<open>odbc.ini\<close>, empty
  if absent.
\<close>

record profile =
  ini_names :: "string option \<Rightarrow> string \<Rightarrow> string list option"
  ini_value :: "string \<Rightarrow> string \<Rightarrow> string"

definition DsnGet :: "profile \<Rightarrow> string option \<Rightarrow> string \<Rightarrow> string option" where
  "DsnGet ini dsn key =
     (case dsn of
        None \<Rightarrow> None
      | Some d \<Rightarrow> if d = [] \<or> ini_value ini d key = [] then None else Some (ini_value ini d key))"

definition ProfileNames :: "profile \<Rightarrow> string option \<Rightarrow> string \<Rightarrow> string list option" where
  "ProfileNames ini section_name filename =
     map_option (\<lambda>ns. foldl (\<lambda>l n. StrListAdd l (Some n)) [] (takeWhile (\<lambda>n. n \<noteq> []) ns)) (ini_names ini section_name filename)"

text \<open>The first alias with a value that is not empty.\<close>

fun FirstValue :: "(string \<Rightarrow> string option) \<Rightarrow> string list \<Rightarrow> string option" where
  "FirstValue get [] = None"
| "FirstValue get (a # as) = (case get a of Some (c # v) \<Rightarrow> Some (c # v) | _ \<Rightarrow> FirstValue get as)"

definition KeywordGet :: "profile \<Rightarrow> string option \<Rightarrow> string option \<Rightarrow> string list \<Rightarrow> string option" where
  "KeywordGet ini conn dsn aliases =
     (case FirstValue (ConnStringGet conn) aliases of
        Some v \<Rightarrow> Some v
      | None \<Rightarrow> FirstValue (DsnGet ini dsn) aliases)"

definition OdbcConnStringKeyword :: "profile \<Rightarrow> string option \<Rightarrow> string option \<Rightarrow> string \<Rightarrow> string option" where
  "OdbcConnStringKeyword ini conn dsn key = (case ConnStringGet conn key of Some v \<Rightarrow> Some v | None \<Rightarrow> DsnGet ini dsn key)"

section \<open>Which keywords may be dropped\<close>

datatype KeywordClass = KW_UNKNOWN | KW_CONSUMED | KW_IGNORED | KW_FORWARD

definition kConsumedKeys :: "string list" where
  "kConsumedKeys = [''Driver'', ''DSN'', ''Server'', ''Servername'', ''Host'', ''Hostname'', ''Port'', ''Database'', ''DB'', ''Dbname'',
     ''Data Source'', ''Uid'', ''User'', ''Username'', ''Pwd'', ''Password'']"

definition kIgnoredKeys :: "string list" where
  "kIgnoredKeys = [''Description'', ''Trace'', ''TraceFile'', ''TraceLib'', ''Setup'', ''UsageCount'', ''Threading'', ''FileUsage'',
     ''CPTimeout'', ''CPReuse'', ''DriverODBCVer'', ''SaveFile'', ''Driver_Name'']"

definition kPgIgnoredKeys :: "string list" where
  "kPgIgnoredKeys = [''UseDeclareFetch'', ''Fetch'', ''Protocol'', ''BoolsAsChar'', ''Debug'', ''CommLog'', ''Optimizer'', ''Ksqo'',
     ''UniqueIndex'', ''UnknownSizes'', ''TextAsLongVarchar'', ''UnknownsAsLongVarchar'', ''MaxVarcharSize'', ''MaxLongVarcharSize'',
     ''ExtraSysTablePrefixes'', ''LFConversion'', ''UpdatableCursors'', ''TrueIsMinus1'', ''ByteaAsLongVarBinary'',
     ''UseServerSidePrepare'', ''LowerCaseIdentifier'', ''RowVersioning'', ''ShowSystemTables'', ''ShowOidColumn'', ''FakeOidIndex'',
     ''DisallowPremature'', ''Parse'', ''CancelAsFreeStmt'', ''XaOpt'']"

definition kPgForwardKeys :: "string list" where
  "kPgForwardKeys = [''sslmode'', ''sslrootcert'', ''sslcert'', ''sslkey'', ''sslcrl'', ''sslcompression'', ''sslsni'', ''gssencmode'',
     ''channel_binding'', ''krbsrvname'', ''pgkrbsrvname'', ''connect_timeout'', ''application_name'', ''options'',
     ''target_session_attrs'', ''require_auth'', ''load_balance_hosts'']"

definition kPqoptKeys :: "string list" where
  "kPqoptKeys = [''sslmode'', ''sslrootcert'', ''sslcert'', ''sslkey'', ''sslcrl'', ''sslcompression'', ''sslsni'', ''sslpassword'',
     ''gssencmode'', ''channel_binding'', ''krbsrvname'', ''connect_timeout'', ''application_name'', ''options'',
     ''target_session_attrs'', ''require_auth'', ''keepalives'', ''keepalives_idle'', ''keepalives_interval'', ''keepalives_count'',
     ''load_balance_hosts'', ''client_encoding'', ''fallback_application_name'', ''hostaddr'', ''service'', ''passfile'']"

definition kSqliteIgnoredKeys :: "string list" where
  "kSqliteIgnoredKeys = [''StepAPI'', ''ShortNames'', ''LongNames'', ''NoWCHAR'', ''BigInt'', ''OEMCP'']"

definition kDuckdbIgnoredKeys :: "string list" where "kDuckdbIgnoredKeys = [''custom_user_agent'']"

definition ClassifyKeyword :: "OdbcNativeFamily \<Rightarrow> string \<Rightarrow> KeywordClass \<times> string option" where
  "ClassifyKeyword family key =
     (if key = [] then (KW_IGNORED, None)
      else if InNameList kConsumedKeys key then (KW_CONSUMED, None)
      else if InNameList kIgnoredKeys key then (KW_IGNORED, None)
      else case family of
             FAMILY_POSTGRESQL \<Rightarrow>
               (if InNameList kPgIgnoredKeys key then (KW_IGNORED, None)
                else case find (\<lambda>k. EqualsNoCase k key) kPgForwardKeys of
                       Some k \<Rightarrow> (KW_FORWARD, Some (if EqualsNoCase key ''pgkrbsrvname'' then ''krbsrvname'' else k))
                     | None \<Rightarrow> if EqualsNoCase key ''pqopt'' then (KW_FORWARD, None) else (KW_UNKNOWN, None))
           | FAMILY_SQLITE \<Rightarrow> (if InNameList kSqliteIgnoredKeys key then KW_IGNORED else KW_UNKNOWN, None)
           | FAMILY_DUCKDB \<Rightarrow> (if InNameList kDuckdbIgnoredKeys key then KW_IGNORED else KW_UNKNOWN, None)
           | _ \<Rightarrow> (KW_UNKNOWN, None))"

section \<open>Collecting the settings to forward\<close>

type_synonym KeyValueList = "(string \<times> string) list"

fun KvAdd :: "KeyValueList \<Rightarrow> string \<Rightarrow> string \<Rightarrow> KeyValueList" where
  "KvAdd [] key v = [(key, v)]"
| "KvAdd ((k, w) # kv) key v = (if EqualsNoCase k key then (k, v) # kv else (k, w) # KvAdd kv key v)"

text \<open>The value loops of \<^verbatim>\<open>ParsePqopt\<close>: the value, and the text behind it.\<close>

fun PqQuoted :: "string \<Rightarrow> string \<times> string" where
  "PqQuoted [] = ([], [])"
| "PqQuoted (c # p) =
     (if c = CHR 0x27 then ([], p)
      else if c = CHR 0x5C \<and> p \<noteq> [] then (let (s, r) = PqQuoted (tl p) in (hd p # s, r))
      else (let (s, r) = PqQuoted p in (c # s, r)))"

fun PqPlain :: "string \<Rightarrow> string \<times> string" where
  "PqPlain [] = ([], [])"
| "PqPlain (c # p) =
     (if is_blank c then ([], c # p)
      else if c = CHR 0x5C \<and> p \<noteq> [] then (let (s, r) = PqPlain (tl p) in (hd p # s, r))
      else (let (s, r) = PqPlain p in (c # s, r)))"

lemma PqQuoted_length: "length (snd (PqQuoted p)) \<le> length p"
  by (induction p rule: PqQuoted.induct) (auto simp: case_prod_unfold Let_def)

lemma PqPlain_length: "length (snd (PqPlain p)) \<le> length p"
  by (induction p rule: PqPlain.induct) (auto simp: case_prod_unfold Let_def)

definition PqValue :: "string \<Rightarrow> string \<times> string" where
  "PqValue p = (if p \<noteq> [] \<and> hd p = CHR 0x27 then PqQuoted (tl p) else PqPlain p)"

lemma PqValue_length: "length (snd (PqValue p)) \<le> length p"
  using PqQuoted_length [of "tl p"] PqPlain_length [of p] by (auto simp: PqValue_def intro: le_trans)

definition pqopt_error :: string where
  "pqopt_error = ''could not parse the psqlodbc pqopt={...} block''"

function ParsePqopt :: "string \<Rightarrow> KeyValueList \<Rightarrow> string + KeyValueList" where
  "ParsePqopt v params =
     (let p = dropWhile is_blank v
      in if p = [] then Inr params
         else
           let is_key = (\<lambda>c. c \<noteq> CHR ''='' \<and> \<not> is_blank c);
               nm = takeWhile is_key p; q = dropWhile is_blank (dropWhile is_key p)
           in if nm = [] \<or> length nm \<ge> 64 then Inl pqopt_error
              else if q = [] \<or> hd q \<noteq> CHR ''='' then Inl pqopt_error
              else
                let (val, r) = PqValue (dropWhile is_blank (tl q))
                in if \<not> InNameList kPqoptKeys nm
                   then Inl (''the libpq option '' @ [CHR 0x22] @ nm @ [CHR 0x22] @ '' from pqopt={...} cannot be handed to the native driver'')
                   else ParsePqopt r (KvAdd params nm val))"
  by pat_completeness auto
termination
proof (relation "measure (length \<circ> fst)", goal_cases)
  case (2 v params p is_key nm q x val r)
  have "length r \<le> length (dropWhile is_blank (tl q))" using PqValue_length [of "dropWhile is_blank (tl q)"] 2(8,9) by (metis snd_conv)
  also have "\<dots> \<le> length (tl q)" by (rule length_dropWhile_le)
  also have "\<dots> < length q" using 2(7) by (cases q) auto
  also have "\<dots> \<le> length p" unfolding 2(5) using length_dropWhile_le order_trans by blast
  also have "\<dots> \<le> length v" unfolding 2(1) by (rule length_dropWhile_le)
  finally show ?case by simp
qed simp

declare ParsePqopt.simps [simp del]

definition unknown_keyword :: "OdbcNativeFamily \<Rightarrow> string \<Rightarrow> string" where
  "unknown_keyword family key =
     ''the ODBC keyword '' @ [CHR 0x22] @ key @ [CHR 0x22] @ '' has no equivalent in the native ''
     @ (case FamilyDriverName family of None \<Rightarrow> ''native'' | Some n \<Rightarrow> n)
     @ '' driver, so delegating would silently change the connection''"

definition AcceptKeyword :: "OdbcNativeFamily \<Rightarrow> string \<Rightarrow> string option \<Rightarrow> KeyValueList \<Rightarrow> string + KeyValueList" where
  "AcceptKeyword family key v params =
     (case ClassifyKeyword family key of
        (KW_CONSUMED, _) \<Rightarrow> Inr params
      | (KW_IGNORED, _) \<Rightarrow> Inr params
      | (KW_FORWARD, None) \<Rightarrow> ParsePqopt (case v of None \<Rightarrow> [] | Some s \<Rightarrow> s) params
      | (KW_FORWARD, Some uri_param) \<Rightarrow> Inr (case v of Some (c # s) \<Rightarrow> KvAdd params uri_param (c # s) | _ \<Rightarrow> params)
      | (KW_UNKNOWN, _) \<Rightarrow> Inl (unknown_keyword family key))"

fun AcceptAll :: "OdbcNativeFamily \<Rightarrow> (string \<times> string option) list \<Rightarrow> KeyValueList \<Rightarrow> string + KeyValueList" where
  "AcceptAll family [] params = Inr params"
| "AcceptAll family ((k, v) # kvs) params =
     (case AcceptKeyword family k v params of Inl why \<Rightarrow> Inl why | Inr params' \<Rightarrow> AcceptAll family kvs params')"

definition CollectKeywords :: "profile \<Rightarrow> OdbcNativeFamily \<Rightarrow> string option \<Rightarrow> string option \<Rightarrow> string + KeyValueList" where
  "CollectKeywords ini family conn dsn =
     (case (case dsn of
              None \<Rightarrow> Inr []
            | Some d \<Rightarrow>
                if d = [] then Inr []
                else case ProfileNames ini dsn ''odbc.ini'' of
                       None \<Rightarrow> Inl (''the keywords of DSN '' @ [CHR 0x22] @ d @ [CHR 0x22] @ '' cannot be enumerated, so they cannot be checked'')
                     | Some entries \<Rightarrow> AcceptAll family (map (\<lambda>e. (e, DsnGet ini dsn e)) entries) []) of
        Inl why \<Rightarrow> Inl why
      | Inr params \<Rightarrow>
          AcceptAll family (map (\<lambda>(k, v). (k, Some v)) (case conn of None \<Rightarrow> [] | Some c \<Rightarrow> ConnStringPairs c)) params)"

section \<open>Building the native URI\<close>

definition AllDigits :: "string option \<Rightarrow> bool" where
  "AllDigits s = (case s of None \<Rightarrow> False | Some s \<Rightarrow> s \<noteq> [] \<and> list_all is_digit s)"

definition PathFromUriRest :: "string \<Rightarrow> string" where
  "PathFromUriRest rest = (if take 2 rest = ''//'' then drop 2 rest else rest)"

text \<open>A string that is there and not empty: the test \<^verbatim>\<open>s && *s\<close>.\<close>

definition given :: "string option \<Rightarrow> bool" where
  "given s \<longleftrightarrow> s \<noteq> None \<and> s \<noteq> Some []"

definition Unbracket :: "string \<Rightarrow> string" where
  "Unbracket h =
     (if h \<noteq> [] \<and> hd h = CHR ''['' \<and> length h \<ge> 2 \<and> last h = CHR '']'' \<and> length h - 2 < 256 then take (length h - 2) (tl h) else h)"

fun AppendParams :: "string \<Rightarrow> string \<Rightarrow> KeyValueList \<Rightarrow> string" where
  "AppendParams sb sep [] = sb"
| "AppendParams sb sep ((k, v) # params) = AppendParams (AppendEncoded (AppendEncoded (sb @ sep) k @ ''='') v) ''&'' params"

definition SocketHost :: "string option \<Rightarrow> bool" where
  "SocketHost host \<longleftrightarrow> (case host of Some (c # h) \<Rightarrow> c = CHR ''/'' \<or> c = CHR ''@'' | _ \<Rightarrow> False)"

definition HostText :: "string option \<Rightarrow> string" where
  "HostText host = Unbracket (if given host then the host else ''localhost'')"

definition BuildPostgresUri ::
  "string option \<Rightarrow> string option \<Rightarrow> string option \<Rightarrow> string option \<Rightarrow> string option \<Rightarrow> KeyValueList \<Rightarrow> string + string" where
  "BuildPostgresUri host port database user password params =
     (if given port \<and> \<not> AllDigits port then Inl ''the Port keyword is not a number''
      else
        let sb = ''postgresql://'';
            sb = (if given user
                  then (let sb = AppendEncoded sb (the user)
                        in (if given password then AppendEncoded (sb @ '':'') (the password) else sb) @ ''@'')
                  else sb);
            socket_host = SocketHost host; h = HostText host
        in if \<not> socket_host \<and> CHR '':'' \<in> set h \<and> \<not> list_all (\<lambda>c. isxdigit c \<or> c = CHR '':'' \<or> c = CHR ''.'') h
           then Inl ''the Server keyword is neither a host name nor an IPv6 address''
           else
             let sb = (if socket_host then sb
                       else (if CHR '':'' \<in> set h then sb @ ''['' @ h @ '']'' else AppendEncoded sb h)
                            @ (if given port then '':'' @ the port else []));
                 sb = sb @ ''/'';
                 sb = (if given database then AppendEncoded sb (the database) else sb)
             in Inr (if socket_host
                     then AppendParams (AppendEncoded (sb @ ''?host='') (the host) @ (if given port then ''&port='' @ the port else [])) ''&'' params
                     else AppendParams sb ''?'' params))"

definition kHostKeys :: "string list" where "kHostKeys = [''Server'', ''Servername'', ''Host'', ''Hostname'']"
definition kPortKeys :: "string list" where "kPortKeys = [''Port'']"
definition kDatabaseKeys :: "string list" where "kDatabaseKeys = [''Database'', ''DB'', ''Data Source'', ''Dbname'']"
definition kUserKeys :: "string list" where "kUserKeys = [''Uid'', ''User'', ''Username'']"
definition kPasswordKeys :: "string list" where "kPasswordKeys = [''Pwd'', ''Password'']"

definition BuildNativeUri ::
  "profile \<Rightarrow> OdbcNativeFamily \<Rightarrow> string option \<Rightarrow> string option \<Rightarrow> string option \<Rightarrow> string option \<Rightarrow> string + string" where
  "BuildNativeUri ini family conn dsn username password =
     (case CollectKeywords ini family conn dsn of
        Inl why \<Rightarrow> Inl why
      | Inr params \<Rightarrow>
          let database = KeywordGet ini conn dsn kDatabaseKeys
          in (if family = FAMILY_SQLITE \<or> family = FAMILY_DUCKDB
              then (if given database then Inr (the database) else Inl ''no Database keyword to hand to the native driver'')
              else if family = FAMILY_POSTGRESQL
              then BuildPostgresUri (KeywordGet ini conn dsn kHostKeys) (KeywordGet ini conn dsn kPortKeys) database
                     (case username of None \<Rightarrow> KeywordGet ini conn dsn kUserKeys | Some u \<Rightarrow> Some u)
                     (case password of None \<Rightarrow> KeywordGet ini conn dsn kPasswordKeys | Some p \<Rightarrow> Some p) params
              else Inl ''a native URI is required for this database family''))"

definition UriWithParams :: "string \<Rightarrow> KeyValueList \<Rightarrow> string" where
  "UriWithParams uri params = AppendParams uri (if CHR ''?'' \<in> set uri then ''&'' else ''?'') params"

section \<open>Reading a native URI\<close>

record ParsedUri =
  pu_user :: "string option"
  pu_password :: "string option"
  pu_host :: "string option"
  pu_port :: "string option"
  pu_path :: "string option"
  pu_params :: KeyValueList

definition QueryPair :: "string \<Rightarrow> KeyValueList \<Rightarrow> KeyValueList" where
  "QueryPair s params =
     (if CHR ''='' \<in> set s
      then KvAdd params (PercentDecode (takeWhile (\<lambda>c. c \<noteq> CHR ''='') s)) (PercentDecode (tl (dropWhile (\<lambda>c. c \<noteq> CHR ''='') s)))
      else params)"

function ParseUriQuery :: "string \<Rightarrow> KeyValueList \<Rightarrow> KeyValueList" where
  "ParseUriQuery p params =
     (if p = [] then params
      else
        let params' = QueryPair (takeWhile (\<lambda>c. c \<noteq> CHR ''&'') p) params; r = dropWhile (\<lambda>c. c \<noteq> CHR ''&'') p
        in if r = [] then params' else ParseUriQuery (tl r) params')"
  by pat_completeness auto
termination
proof (relation "measure (length \<circ> fst)", goal_cases)
  case (2 p params params' r)
  then have "length (tl r) < length r" by (cases r) auto
  also have "\<dots> \<le> length p" unfolding 2(3) by (rule length_dropWhile_le)
  finally show ?case by simp
qed simp

declare ParseUriQuery.simps [simp del]

text \<open>Splitting at the first occurrence of a character, and at the last.\<close>

definition upto :: "char \<Rightarrow> string \<Rightarrow> string" where "upto c s = takeWhile (\<lambda>x. x \<noteq> c) s"
definition behind :: "char \<Rightarrow> string \<Rightarrow> string" where "behind c s = tl (dropWhile (\<lambda>x. x \<noteq> c) s)"

definition ParseHost :: "string \<Rightarrow> ParsedUri \<Rightarrow> ParsedUri" where
  "ParseHost hostpart uri =
     (if hostpart \<noteq> [] \<and> hd hostpart = CHR ''['' \<and> CHR '']'' \<in> set hostpart
      then
        let r = behind CHR '']'' hostpart
        in uri\<lparr>pu_host := Some (PercentDecode (upto CHR '']'' (tl hostpart))),
               pu_port := (if r \<noteq> [] \<and> hd r = CHR '':'' then Some (PercentDecode (tl r)) else None)\<rparr>
      else if hostpart \<noteq> []
      then uri\<lparr>pu_host := Some (PercentDecode (upto CHR '':'' hostpart)),
               pu_port := (if CHR '':'' \<in> set hostpart then Some (PercentDecode (behind CHR '':'' hostpart)) else None)\<rparr>
      else uri)"

definition ParseAuthority :: "string \<Rightarrow> ParsedUri \<Rightarrow> ParsedUri" where
  "ParseAuthority auth uri =
     (if CHR ''@'' \<in> set auth
      then
        let cred = rev (behind CHR ''@'' (rev auth)); hostpart = rev (upto CHR ''@'' (rev auth))
        in ParseHost hostpart
             (uri\<lparr>pu_user := Some (PercentDecode (upto CHR '':'' cred)),
                  pu_password := (if CHR '':'' \<in> set cred then Some (PercentDecode (behind CHR '':'' cred)) else None)\<rparr>)
      else ParseHost auth uri)"

definition no_uri :: ParsedUri where
  "no_uri = \<lparr>pu_user = None, pu_password = None, pu_host = None, pu_port = None, pu_path = None, pu_params = []\<rparr>"

definition ParseUriRest :: "string \<Rightarrow> ParsedUri" where
  "ParseUriRest rest =
     (let is_auth = (\<lambda>c. c \<noteq> CHR ''/'' \<and> c \<noteq> CHR ''?'' \<and> c \<noteq> CHR ''#'');
          (uri, rest) = (if take 2 rest = ''//''
                         then (ParseAuthority (takeWhile is_auth (drop 2 rest)) no_uri, dropWhile is_auth (drop 2 rest))
                         else (no_uri, rest));
          path = upto CHR ''?'' rest;
          path = (if path \<noteq> [] \<and> hd path = CHR ''/'' then tl path else path);
          uri = (if path \<noteq> [] then uri\<lparr>pu_path := Some (PercentDecode path)\<rparr> else uri)
      in if CHR ''?'' \<in> set rest then uri\<lparr>pu_params := ParseUriQuery (behind CHR ''?'' rest) []\<rparr> else uri)"

definition FindOdbcDriverForFamily :: "profile \<Rightarrow> OdbcNativeFamily \<Rightarrow> string option" where
  "FindOdbcDriverForFamily ini family =
     (case ProfileNames ini None ''odbcinst.ini'' of
        None \<Rightarrow> None
      | Some drivers \<Rightarrow> find (\<lambda>d. \<not> EqualsNoCase d ''ODBC Drivers'' \<and> FamilyFromOdbcDriver (Some d) = family) drivers)"

section \<open>A native URI as an ODBC connection string\<close>

definition OdbcSetting :: "string \<Rightarrow> string \<Rightarrow> string \<Rightarrow> string" where
  "OdbcSetting sb key v = AppendOdbcValue (sb @ key @ ''='') v @ '';''"

definition OptSetting :: "string \<Rightarrow> string \<Rightarrow> string option \<Rightarrow> string" where
  "OptSetting sb key v = (case v of None \<Rightarrow> sb | Some s \<Rightarrow> OdbcSetting sb key s)"

definition OdbcParamKey :: "string \<Rightarrow> string option" where
  "OdbcParamKey k =
     (if EqualsNoCase k ''sslmode'' then Some ''SSLmode''
      else if EqualsNoCase k ''host'' then Some ''Server''
      else if EqualsNoCase k ''port'' then Some ''Port''
      else if EqualsNoCase k ''user'' then Some ''Uid''
      else if EqualsNoCase k ''password'' then Some ''Pwd''
      else None)"

text \<open>The parameter loop: \<open>Inl\<close> the parameter that cannot be expressed.\<close>

fun OdbcParams :: "string \<Rightarrow> KeyValueList \<Rightarrow> string + string" where
  "OdbcParams sb [] = Inr sb"
| "OdbcParams sb ((k, v) # params) =
     (case OdbcParamKey k of None \<Rightarrow> Inl k | Some key \<Rightarrow> OdbcParams (OdbcSetting sb key v) params)"

text \<open>
  The result is the status and what \<^verbatim>\<open>*out\<close> is set to; \<open>None\<close> leaves the string alone, which means an
  ordinary ODBC string when the status is OK.
\<close>

definition OdbcDelegateNativeUriToOdbc :: "profile \<Rightarrow> string option \<Rightarrow> status \<times> string option" where
  "OdbcDelegateNativeUriToOdbc ini uri =
     (let (family, rest) = FamilyFromUri uri
      in if family = FAMILY_NONE then (ADBC_STATUS_OK, None)
         else case FindOdbcDriverForFamily ini family of
                None \<Rightarrow> (ADBC_STATUS_INVALID_ARGUMENT, None)
              | Some driver \<Rightarrow>
                  let sb = OdbcSetting [] ''Driver'' driver
                  in if family = FAMILY_SQLITE \<or> family = FAMILY_DUCKDB
                     then (ADBC_STATUS_OK, Some (OdbcSetting sb ''Database'' (PathFromUriRest rest)))
                     else if family = FAMILY_POSTGRESQL
                     then
                       let p = ParseUriRest rest;
                           sb = OdbcSetting sb ''Server'' (case pu_host p of None \<Rightarrow> ''localhost'' | Some h \<Rightarrow> h);
                           sb = OptSetting (OptSetting (OptSetting (OptSetting sb ''Port'' (pu_port p)) ''Database'' (pu_path p))
                                  ''Uid'' (pu_user p)) ''Pwd'' (pu_password p)
                       in (case OdbcParams sb (pu_params p) of
                             Inl k \<Rightarrow> (ADBC_STATUS_INVALID_ARGUMENT, None)
                           | Inr sb \<Rightarrow> (ADBC_STATUS_OK, Some sb))
                     else (ADBC_STATUS_INVALID_ARGUMENT, None))"

section \<open>Translating a URI cannot inject a keyword\<close>

lemma odbc_text_simps [simp]:
  "odbc_text (a @ b) = odbc_text a @ odbc_text b"
  "odbc_text [] = []"
  "odbc_text ((k, v) # kvs) = OdbcSetting [] k v @ odbc_text kvs"
  by (simp_all add: odbc_text_def OdbcSetting_def AppendOdbcValue_def)

lemma OdbcSetting_text: "OdbcSetting sb key v = sb @ OdbcSetting [] key v"
  by (simp add: OdbcSetting_def AppendOdbcValue_def)

definition opt_pair :: "string \<Rightarrow> string option \<Rightarrow> (string \<times> string) list" where
  "opt_pair key v = (case v of None \<Rightarrow> [] | Some s \<Rightarrow> [(key, s)])"

lemma OptSetting_text: "OptSetting sb key v = sb @ odbc_text (opt_pair key v)"
  by (cases v) (simp_all add: OptSetting_def opt_pair_def OdbcSetting_text [of sb])

lemma OdbcParams_text:
  "OdbcParams sb params = Inr s \<longleftrightarrow>
     (\<forall>(k, v) \<in> set params. OdbcParamKey k \<noteq> None) \<and> s = sb @ odbc_text (map (\<lambda>(k, v). (the (OdbcParamKey k), v)) params)"
proof (induction sb params rule: OdbcParams.induct)
  case (2 sb k v params)
  show ?case
  proof (cases "OdbcParamKey k")
    case (Some key)
    then show ?thesis using "2.IH" [OF Some] by (simp add: OdbcSetting_text [of sb])
  qed simp
qed auto

lemma plain_keys:
  "plain_key ''Driver'' \<and> plain_key ''Server'' \<and> plain_key ''Port'' \<and> plain_key ''Database'' \<and> plain_key ''Uid'' \<and> plain_key ''Pwd''
   \<and> plain_key ''SSLmode''"
  by (simp add: plain_key_def is_separator_def is_blank_def)

lemma plain_param_key: "OdbcParamKey k = Some key \<Longrightarrow> plain_key key"
  using plain_keys by (auto simp: OdbcParamKey_def split: if_splits)

lemma plain_opt_pair: "plain_key key \<Longrightarrow> list_all (plain_key \<circ> fst) (opt_pair key v)"
  by (cases v) (simp_all add: opt_pair_def)

definition uri_settings :: "string \<Rightarrow> ParsedUri \<Rightarrow> (string \<times> string) list" where
  "uri_settings driver p =
     [(''Driver'', driver), (''Server'', case pu_host p of None \<Rightarrow> ''localhost'' | Some h \<Rightarrow> h)]
     @ opt_pair ''Port'' (pu_port p) @ opt_pair ''Database'' (pu_path p) @ opt_pair ''Uid'' (pu_user p) @ opt_pair ''Pwd'' (pu_password p)
     @ map (\<lambda>(k, v). (the (OdbcParamKey k), v)) (pu_params p)"


section \<open>The URI built from ODBC keywords reads back\<close>

definition encoded :: "string \<Rightarrow> string" where "encoded s = concat (map EncodeByte s)"

lemma encoded_empty [simp]: "encoded [] = []"
  by (simp add: encoded_def)

lemma AppendEncoded_eq: "AppendEncoded sb s = sb @ encoded s"
  by (simp add: AppendEncoded_def encoded_def)

lemma decode_encoded [simp]: "CHR 0x00 \<notin> set s \<Longrightarrow> PercentDecode (encoded s) = s"
  by (simp add: encoded_def PercentDecode_encoded)

lemma encoded_delims: "d \<in> url_delims \<Longrightarrow> d \<notin> set (encoded s)"
  using EncodeByte_delims by (fastforce simp: encoded_def)

lemma while_encoded [simp]:
  assumes "d \<in> url_delims"
  shows "takeWhile (\<lambda>c. c \<noteq> d) (encoded s @ r) = encoded s @ takeWhile (\<lambda>c. c \<noteq> d) r"
    "dropWhile (\<lambda>c. c \<noteq> d) (encoded s @ r) = dropWhile (\<lambda>c. c \<noteq> d) r"
    "takeWhile (\<lambda>c. c \<noteq> d) (encoded s) = encoded s" "dropWhile (\<lambda>c. c \<noteq> d) (encoded s) = []"
proof -
  have "\<forall>c \<in> set (encoded s). c \<noteq> d" using encoded_delims [OF assms] by blast
  then show "takeWhile (\<lambda>c. c \<noteq> d) (encoded s @ r) = encoded s @ takeWhile (\<lambda>c. c \<noteq> d) r"
    "dropWhile (\<lambda>c. c \<noteq> d) (encoded s @ r) = dropWhile (\<lambda>c. c \<noteq> d) r"
    "takeWhile (\<lambda>c. c \<noteq> d) (encoded s) = encoded s" "dropWhile (\<lambda>c. c \<noteq> d) (encoded s) = []"
    by (simp_all add: takeWhile_eq_all_conv dropWhile_eq_Nil_conv)
qed

lemma delims [simp]:
  "CHR ''/'' \<in> url_delims" "CHR ''?'' \<in> url_delims" "CHR ''#'' \<in> url_delims" "CHR ''@'' \<in> url_delims" "CHR '':'' \<in> url_delims"
  "CHR ''['' \<in> url_delims" "CHR '']'' \<in> url_delims" "CHR ''&'' \<in> url_delims" "CHR ''='' \<in> url_delims"
  by (simp_all add: url_delims_def)

lemma encoded_Nil [simp]: "encoded s = [] \<longleftrightarrow> s = []"
  by (cases s) (auto simp: encoded_def EncodeByte_def)

lemma split_first [simp]: "c \<notin> set s \<Longrightarrow> upto c (s @ c # r) = s" "c \<notin> set s \<Longrightarrow> behind c (s @ c # r) = r"
  "c \<notin> set s \<Longrightarrow> upto c s = s"
  by (auto simp: upto_def behind_def takeWhile_append dropWhile_append)

lemma PercentDecode_plain: "CHR ''%'' \<notin> set s \<Longrightarrow> CHR 0x00 \<notin> set s \<Longrightarrow> PercentDecode s = s"
proof -
  have "CHR ''%'' \<notin> set s \<Longrightarrow> DecodeLoop s = s" by (induction s rule: DecodeLoop.induct) auto
  then show "CHR ''%'' \<notin> set s \<Longrightarrow> CHR 0x00 \<notin> set s \<Longrightarrow> PercentDecode s = s"
    unfolding PercentDecode_def by (induction s) (auto simp: takeWhile_eq_all_conv)
qed

fun query_text :: "KeyValueList \<Rightarrow> string" where
  "query_text [] = []"
| "query_text [(k, v)] = encoded k @ ''='' @ encoded v"
| "query_text ((k, v) # params) = encoded k @ ''='' @ encoded v @ ''&'' @ query_text params"

lemma AppendParams_text: "AppendParams sb sep params = sb @ (if params = [] then [] else sep @ query_text params)"
  by (induction sb sep params rule: AppendParams.induct) (auto simp: AppendEncoded_eq neq_Nil_conv)

definition c_string :: "string \<Rightarrow> bool" where "c_string s \<longleftrightarrow> CHR 0x00 \<notin> set s"

lemma QueryPair_encoded: "c_string k \<Longrightarrow> c_string v \<Longrightarrow> QueryPair (encoded k @ CHR ''='' # encoded v) params = KvAdd params k v"
  using split_first(1,2) [of "CHR ''=''" "encoded k" "encoded v"] encoded_delims [of "CHR ''=''" k]
  by (simp add: QueryPair_def c_string_def upto_def behind_def)

lemma ParseUriQuery_text:
  assumes "\<forall>(k, v) \<in> set params. c_string k \<and> c_string v"
  shows "ParseUriQuery (query_text params) acc = foldl (\<lambda>kv (k, v). KvAdd kv k v) acc params"
  using assms
proof (induction params arbitrary: acc rule: query_text.induct)
  case 1
  show ?case by (simp add: ParseUriQuery.simps)
next
  case (2 k v)
  then show ?case by (simp add: ParseUriQuery.simps [of "encoded k @ CHR ''='' # encoded v"] QueryPair_encoded)
next
  case (3 k v kv params)
  then show ?case
    by (simp add: ParseUriQuery.simps [of "encoded k @ CHR ''='' # encoded v @ CHR ''&'' # query_text (kv # params)"] QueryPair_encoded Let_def)
qed

text \<open>Keys that differ in more than case.\<close>

definition keys_distinct :: "KeyValueList \<Rightarrow> bool" where
  "keys_distinct kv \<longleftrightarrow> distinct (map (map to_lower \<circ> fst) kv)"

lemma KvAdd_new: "map to_lower k \<notin> set (map (map to_lower \<circ> fst) kv) \<Longrightarrow> KvAdd kv k v = kv @ [(k, v)]"
  by (induction kv k v rule: KvAdd.induct) (auto simp: EqualsNoCase_map)

lemma KvAdd_all: "keys_distinct (kv @ params) \<Longrightarrow> foldl (\<lambda>kv (k, v). KvAdd kv k v) kv params = kv @ params"
proof (induction params arbitrary: kv)
  case (Cons p params)
  obtain k v where p: "p = (k, v)" by force
  have "KvAdd kv k v = kv @ [(k, v)]" using Cons.prems by (intro KvAdd_new) (auto simp: keys_distinct_def p)
  then show ?case using Cons.IH [of "kv @ [(k, v)]"] Cons.prems by (simp add: p)
qed simp

end
