(* ===== verification/DelegateUri.thy ===== *)
theory DelegateUri
  imports Delegate
begin

text \<open>
  The native URI that is built from ODBC keywords (\<^verbatim>\<open>BuildPostgresUri\<close>, \<^verbatim>\<open>BuildNativeUri\<close>) read back
  with \<^verbatim>\<open>ParseUriRest\<close>, and which keywords reach it.
\<close>

section \<open>Reading back what was built\<close>

lemma digits_plain:
  assumes "list_all is_digit s"
  shows "PercentDecode s = s" "CHR ''/'' \<notin> set s" "CHR ''?'' \<notin> set s" "CHR ''#'' \<notin> set s" "CHR ''@'' \<notin> set s"
proof -
  have none: "c \<notin> set s" if "\<not> is_digit c" for c using assms that by (auto simp: list_all_iff)
  show "PercentDecode s = s" by (rule PercentDecode_plain) (rule none, simp add: is_digit_def)+
  show "CHR ''/'' \<notin> set s" "CHR ''?'' \<notin> set s" "CHR ''#'' \<notin> set s" "CHR ''@'' \<notin> set s"
    by (rule none, simp add: is_digit_def)+
qed

definition ipv6_like :: "string \<Rightarrow> bool" where
  "ipv6_like h \<longleftrightarrow> list_all (\<lambda>c. isxdigit c \<or> c = CHR '':'' \<or> c = CHR ''.'') h"

lemma ipv6_plain:
  assumes "ipv6_like h"
  shows "PercentDecode h = h" "CHR '']'' \<notin> set h" "CHR ''/'' \<notin> set h" "CHR ''?'' \<notin> set h" "CHR ''#'' \<notin> set h" "CHR ''@'' \<notin> set h"
proof -
  have none: "c \<notin> set h" if "\<not> isxdigit c \<and> c \<noteq> CHR '':'' \<and> c \<noteq> CHR ''.''" for c
    using assms that by (auto simp: list_all_iff ipv6_like_def)
  show "PercentDecode h = h" by (rule PercentDecode_plain) (rule none, simp add: isxdigit_def is_digit_def)+
  show "CHR '']'' \<notin> set h" "CHR ''/'' \<notin> set h" "CHR ''?'' \<notin> set h" "CHR ''#'' \<notin> set h" "CHR ''@'' \<notin> set h"
    by (rule none, simp add: isxdigit_def is_digit_def)+
qed

text \<open>The authority of the URI, behind the credentials, and in front of the path.\<close>

definition port_text :: "string option \<Rightarrow> string" where
  "port_text port = (if given port then CHR '':'' # the port else [])"

definition host_part :: "string \<Rightarrow> string option \<Rightarrow> string" where
  "host_part h port = (if CHR '':'' \<in> set h then CHR ''['' # h @ CHR '']'' # port_text port else encoded h @ port_text port)"

lemma ParseHost_part:
  assumes "h \<noteq> []" "c_string h" "CHR '':'' \<in> set h \<Longrightarrow> ipv6_like h" "given port \<Longrightarrow> AllDigits port"
  shows "ParseHost (host_part h port) uri = uri\<lparr>pu_host := Some h, pu_port := (if given port then port else None)\<rparr>"
proof -
  obtain p where p: "given port \<Longrightarrow> port = Some p \<and> list_all is_digit p"
    using assms(4) by (cases port) (auto simp: given_def AllDigits_def)
  then have dp: "given port \<Longrightarrow> PercentDecode p = p" by (simp add: digits_plain)
  show ?thesis
  proof (cases "CHR '':'' \<in> set h")
    case True
    note plain = ipv6_plain [OF assms(3) [OF True]]
    have "CHR '']'' \<notin> set (CHR ''['' # h)" using plain by simp
    note b = split_first(2) [OF this, of "port_text port"]
    have "ParseHost (host_part h port) uri = (let r = port_text port in uri\<lparr>pu_host := Some (PercentDecode h),
        pu_port := (if r \<noteq> [] \<and> hd r = CHR '':'' then Some (PercentDecode (tl r)) else None)\<rparr>)"
      using True b plain by (simp add: ParseHost_def host_part_def)
    then show ?thesis using plain p dp by (cases "given port") (simp_all add: port_text_def Let_def)
  next
    case False
    have e: "host_part h port = encoded h @ port_text port" "encoded h @ port_text port \<noteq> []" using False assms(1) by (simp_all add: host_part_def)
    have "hd (encoded h @ port_text port) \<noteq> CHR ''[''" using encoded_delims [of "CHR ''[''" h] assms(1) by (cases "encoded h") auto
    moreover have "CHR '':'' \<in> set (encoded h @ port_text port) \<longleftrightarrow> given port"
      using encoded_delims [of "CHR '':''" h] p by (auto simp: port_text_def list_all_iff is_digit_def)
    ultimately have "ParseHost (host_part h port) uri = uri\<lparr>pu_host := Some (PercentDecode (upto CHR '':'' (encoded h @ port_text port))),
        pu_port := (if given port then Some (PercentDecode (behind CHR '':'' (encoded h @ port_text port))) else None)\<rparr>"
      using e by (simp add: ParseHost_def)
    then show ?thesis using assms(2) p dp by (cases "given port") (simp_all add: upto_def behind_def port_text_def c_string_def)
  qed
qed

definition credentials :: "string option \<Rightarrow> string option \<Rightarrow> string" where
  "credentials user password =
     (if given user then encoded (the user) @ (if given password then CHR '':'' # encoded (the password) else []) @ ''@'' else [])"

lemma host_part_chars:
  assumes "CHR '':'' \<in> set h \<Longrightarrow> ipv6_like h" "given port \<Longrightarrow> AllDigits port"
  shows "CHR ''/'' \<notin> set (host_part h port)" "CHR ''?'' \<notin> set (host_part h port)" "CHR ''#'' \<notin> set (host_part h port)"
    "CHR ''@'' \<notin> set (host_part h port)"
proof -
  have p: "given port \<Longrightarrow> list_all is_digit (the port)" using assms(2) by (cases port) (auto simp: AllDigits_def)
  have d: "c \<notin> set (port_text port)" if "c \<noteq> CHR '':''" "given port \<Longrightarrow> c \<notin> set (the port)" for c
    using that by (simp add: port_text_def)
  show "CHR ''/'' \<notin> set (host_part h port)" "CHR ''?'' \<notin> set (host_part h port)" "CHR ''#'' \<notin> set (host_part h port)"
    "CHR ''@'' \<notin> set (host_part h port)"
    using ipv6_plain [OF assms(1)] d digits_plain [OF p] encoded_delims [of _ h] by (auto simp: host_part_def)
qed

lemma ParseAuthority_text:
  assumes "CHR ''@'' \<notin> set part" "given user \<Longrightarrow> c_string (the user)" "given password \<Longrightarrow> c_string (the password)"
  shows "ParseAuthority (credentials user password @ part) no_uri =
     ParseHost part (no_uri\<lparr>pu_user := (if given user then user else None),
                            pu_password := (if given user \<and> given password then password else None)\<rparr>)"
proof (cases "given user")
  case True
  let ?cred = "encoded (the user) @ (if given password then CHR '':'' # encoded (the password) else [])"
  have a: "credentials user password @ part = ?cred @ CHR ''@'' # part" using True by (simp add: credentials_def)
  have r: "rev (?cred @ CHR ''@'' # part) = rev part @ CHR ''@'' # rev ?cred" by simp
  have "CHR ''@'' \<notin> set (rev part)" using assms(1) by simp
  note s = split_first(1,2) [OF this, of "rev ?cred", folded r]
  have colon: "CHR '':'' \<in> set ?cred \<longleftrightarrow> given password" using encoded_delims [of "CHR '':''" "the user"] by auto
  have "ParseAuthority (credentials user password @ part) no_uri =
     ParseHost part (no_uri\<lparr>pu_user := Some (PercentDecode (upto CHR '':'' ?cred)),
       pu_password := (if given password then Some (PercentDecode (behind CHR '':'' ?cred)) else None)\<rparr>)"
    unfolding a ParseAuthority_def s rev_rev_ident Let_def colon by simp
  moreover have "given s \<Longrightarrow> Some (the s) = s" for s :: "string option" by (cases s) (simp_all add: given_def)
  ultimately show ?thesis using True assms(2,3) by (auto simp: upto_def behind_def c_string_def)
next
  case False
  then show ?thesis using assms(1) by (simp add: credentials_def ParseAuthority_def no_uri_def)
qed

lemma encoded_plain: "\<forall>c \<in> set s. EncodeByte c = [c] \<Longrightarrow> encoded s = s"
  by (induction s) (simp_all add: encoded_def)

lemma encoded_literals: "encoded ''host'' = ''host''" "encoded ''port'' = ''port''" "list_all is_digit s \<Longrightarrow> encoded s = s"
  by (rule encoded_plain, simp add: EncodeByte_def isalnum_def list_all_iff)+

lemma query_text_Cons: "query_text ((k, v) # ps) = encoded k @ CHR ''='' # encoded v @ (if ps = [] then [] else CHR ''&'' # query_text ps)"
  by (cases ps) simp_all

definition socket_params :: "string option \<Rightarrow> string option \<Rightarrow> KeyValueList" where
  "socket_params host port =
     (if SocketHost host then (''host'', the host) # (if given port then [(''port'', the port)] else []) else [])"

definition uri_rest :: "string option \<Rightarrow> string option \<Rightarrow> string option \<Rightarrow> string option \<Rightarrow> string option \<Rightarrow> KeyValueList \<Rightarrow> string" where
  "uri_rest host port database user password ps =
     ''//'' @ credentials user password @ (if SocketHost host then [] else host_part (HostText host) port)
     @ CHR ''/'' # (if given database then encoded (the database) else []) @ (if ps = [] then [] else CHR ''?'' # query_text ps)"

lemma BuildPostgresUri_text:
  assumes "BuildPostgresUri host port database user password params = Inr uri"
  shows "uri = ''postgresql:'' @ uri_rest host port database user password (socket_params host port @ params)"
    and "given port \<Longrightarrow> AllDigits port"
    and "\<not> SocketHost host \<Longrightarrow> CHR '':'' \<in> set (HostText host) \<Longrightarrow> ipv6_like (HostText host)"
proof -
  show d: "given port \<Longrightarrow> AllDigits port" and "\<not> SocketHost host \<Longrightarrow> CHR '':'' \<in> set (HostText host) \<Longrightarrow> ipv6_like (HostText host)"
    using assms by (auto simp: BuildPostgresUri_def ipv6_like_def Let_def split: if_splits)
  have "given port \<Longrightarrow> list_all is_digit (the port)" using d by (cases port) (auto simp: AllDigits_def)
  then have e: "given port \<Longrightarrow> encoded (the port) = the port" by (rule encoded_literals)
  show "uri = ''postgresql:'' @ uri_rest host port database user password (socket_params host port @ params)"
  proof (cases "SocketHost host")
    case True
    then show ?thesis using assms e
      by (cases "given user"; cases "given password"; cases "given database"; cases "given port")
        (auto simp: BuildPostgresUri_def uri_rest_def socket_params_def credentials_def AppendEncoded_eq AppendParams_text
          query_text_Cons encoded_literals Let_def split: if_splits)
  next
    case False
    then show ?thesis using assms
      by (cases "given user"; cases "given password"; cases "given database")
        (auto simp: BuildPostgresUri_def uri_rest_def socket_params_def credentials_def AppendEncoded_eq AppendParams_text
          host_part_def port_text_def Let_def split: if_splits)
  qed
qed

lemma FamilyFromUri_postgresql: "FamilyFromUri (Some (''postgresql:'' @ rest)) = (FAMILY_POSTGRESQL, rest)"
  by (simp add: FamilyFromUri_def isalnum_def is_digit_def Let_def)

lemma credentials_chars: "CHR ''/'' \<notin> set (credentials user password)" "CHR ''?'' \<notin> set (credentials user password)" "CHR ''#'' \<notin> set (credentials user password)"
  using encoded_delims by (auto simp: credentials_def)

lemma ParseUriRest_split:
  assumes "CHR ''/'' \<notin> set auth" "CHR ''?'' \<notin> set auth" "CHR ''#'' \<notin> set auth"
  shows "ParseUriRest (''//'' @ auth @ CHR ''/'' # encoded db @ (if ps = [] then [] else CHR ''?'' # query_text ps)) =
     (let uri = ParseAuthority auth no_uri;
          uri = (if db = [] then uri else uri\<lparr>pu_path := Some (PercentDecode (encoded db))\<rparr>)
      in if ps = [] then uri else uri\<lparr>pu_params := ParseUriQuery (query_text ps) []\<rparr>)"
proof -
  let ?is = "\<lambda>c. c \<noteq> CHR ''/'' \<and> c \<noteq> CHR ''?'' \<and> c \<noteq> CHR ''#''"
  have "\<forall>c \<in> set auth. ?is c" using assms by auto
  then have s: "takeWhile ?is (auth @ CHR ''/'' # r) = auth" "dropWhile ?is (auth @ CHR ''/'' # r) = CHR ''/'' # r" for r
    by (simp_all add: takeWhile_append dropWhile_append)
  have q: "CHR ''?'' \<notin> set (encoded db)" by (simp add: encoded_delims)
  show ?thesis
    by (cases "ps = []"; cases "db = []") (simp_all add: ParseUriRest_def s Let_def upto_def behind_def q)
qed

text \<open>The URI read back: each part is unchanged, whatever characters it holds.\<close>

lemma postgres_uri_read_back:
  assumes "BuildPostgresUri host port database user password params = Inr uri"
    and "\<forall>s \<in> {host, port, database, user, password}. given s \<longrightarrow> c_string (the s)"
    and "\<forall>(k, v) \<in> set params. c_string k \<and> c_string v"
    and "keys_distinct (socket_params host port @ params)" "HostText host \<noteq> []"
  shows "fst (FamilyFromUri (Some uri)) = FAMILY_POSTGRESQL
       \<and> ParseUriRest (snd (FamilyFromUri (Some uri))) =
           \<lparr>pu_user = (if given user then user else None),
            pu_password = (if given user \<and> given password then password else None),
            pu_host = (if SocketHost host then None else Some (HostText host)),
            pu_port = (if SocketHost host \<or> \<not> given port then None else port),
            pu_path = (if given database then database else None),
            pu_params = socket_params host port @ params\<rparr>"
proof -
  let ?ps = "socket_params host port @ params"
  let ?part = "if SocketHost host then [] else host_part (HostText host) port"
  note t = BuildPostgresUri_text [OF assms(1)]
  have host: "c_string (HostText host)"
  proof -
    have "c_string (Unbracket h)" if "c_string h" for h
      using that by (auto simp: c_string_def Unbracket_def dest: in_set_takeD list.set_sel(2))
    then show ?thesis using assms(2) by (auto simp: HostText_def c_string_def)
  qed
  have part: "CHR ''/'' \<notin> set ?part" "CHR ''?'' \<notin> set ?part" "CHR ''#'' \<notin> set ?part" "CHR ''@'' \<notin> set ?part"
  proof -
    have c: "d \<notin> set ?part" if "\<not> SocketHost host \<Longrightarrow> d \<notin> set (host_part (HostText host) port)" for d using that by simp
    show "CHR ''/'' \<notin> set ?part" "CHR ''?'' \<notin> set ?part" "CHR ''#'' \<notin> set ?part" "CHR ''@'' \<notin> set ?part"
      by (rule c, rule host_part_chars, erule (1) t(3), erule t(2))+
  qed
  have str: "given host \<Longrightarrow> c_string (the host)" "given port \<Longrightarrow> c_string (the port)" "given database \<Longrightarrow> c_string (the database)"
    "given user \<Longrightarrow> c_string (the user)" "given password \<Longrightarrow> c_string (the password)"
    using assms(2) by blast+
  have "SocketHost host \<Longrightarrow> given host" by (simp add: SocketHost_def given_def split: option.splits list.splits)
  then have "\<forall>(k, v) \<in> set (socket_params host port). c_string k \<and> c_string v"
    unfolding socket_params_def by (cases "SocketHost host"; cases "given port") (simp_all add: str, simp_all add: c_string_def)
  then have ps: "\<forall>(k, v) \<in> set ?ps. c_string k \<and> c_string v"
    using assms(3) by (simp only: set_append ball_Un)
  have q: "ParseUriQuery (query_text ?ps) [] = ?ps"
    using ParseUriQuery_text [OF ps, of "[]"] KvAdd_all [of "[]" ?ps] assms(4) by simp
  have db: "given database \<Longrightarrow> database = Some (the database) \<and> PercentDecode (encoded (the database)) = the database \<and> the database \<noteq> []"
    using str(3) by (cases database) (simp_all add: given_def c_string_def)
  have auth: "ParseAuthority (credentials user password @ ?part) no_uri =
      no_uri\<lparr>pu_user := (if given user then user else None), pu_password := (if given user \<and> given password then password else None),
             pu_host := (if SocketHost host then None else Some (HostText host)), pu_port := (if SocketHost host \<or> \<not> given port then None else port)\<rparr>"
  proof (cases "SocketHost host")
    case True
    then show ?thesis using ParseAuthority_text [of "[]" user password] str(4,5) by (simp add: ParseHost_def no_uri_def)
  next
    case False
    then show ?thesis using ParseAuthority_text [OF part(4), of user password] str(4,5) ParseHost_part [OF assms(5) host t(3) t(2)] by simp
  qed
  have "ParseUriRest (uri_rest host port database user password ?ps) =
     (let uri = ParseAuthority (credentials user password @ ?part) no_uri;
          uri = (if \<not> given database then uri else uri\<lparr>pu_path := database\<rparr>)
      in if ?ps = [] then uri else uri\<lparr>pu_params := ?ps\<rparr>)"
  proof -
    define db where "db = (if given database then the database else [])"
    have u: "uri_rest host port database user password ?ps =
        ''//'' @ (credentials user password @ ?part) @ CHR ''/'' # encoded db @ (if ?ps = [] then [] else CHR ''?'' # query_text ?ps)"
      by (simp add: uri_rest_def db_def)
    have "db = [] \<longleftrightarrow> \<not> given database" "given database \<Longrightarrow> Some (PercentDecode (encoded db)) = database"
      using db by (simp_all add: db_def)
    then show ?thesis
      unfolding u by (subst ParseUriRest_split) (simp_all only: set_append Un_iff part credentials_chars q simp_thms, simp add: Let_def)
  qed
  then show ?thesis unfolding t(1) FamilyFromUri_postgresql auth by (auto simp: no_uri_def Let_def)
qed

section \<open>Which settings reach the URI\<close>

definition kv_get :: "KeyValueList \<Rightarrow> string \<Rightarrow> string option" where
  "kv_get kv p = map_of (map (\<lambda>(k, v). (map to_lower k, v)) kv) (map to_lower p)"

lemma kv_get_KvAdd: "kv_get (KvAdd kv k v) p = (if map to_lower p = map to_lower k then Some v else kv_get kv p)"
  by (induction kv k v rule: KvAdd.induct) (auto simp: kv_get_def EqualsNoCase_map)

lemma KvAdd_keys: "fst ` set (KvAdd kv k v) \<subseteq> insert k (fst ` set kv)" "snd ` set (KvAdd kv k v) \<subseteq> insert v (snd ` set kv)"
  by (induction kv k v rule: KvAdd.induct) auto

lemma KvAdd_lower: "map to_lower ` fst ` set (KvAdd kv k v) = insert (map to_lower k) (map to_lower ` fst ` set kv)"
  by (induction kv k v rule: KvAdd.induct) (auto simp: EqualsNoCase_map)

lemma KvAdd_distinct: "keys_distinct kv \<Longrightarrow> keys_distinct (KvAdd kv k v)"
proof (induction kv k v rule: KvAdd.induct)
  case (2 k w kv key v)
  then show ?case using KvAdd_lower [of kv key v] by (auto simp: keys_distinct_def EqualsNoCase_map image_image image_iff)
qed (simp add: keys_distinct_def)

text \<open>
  The settings collected so far: no key twice, none that could pass for the host or the port of a
  socket connection, and C strings throughout.
\<close>

definition settings_ok :: "KeyValueList \<Rightarrow> bool" where
  "settings_ok kv \<longleftrightarrow> keys_distinct kv \<and> (\<forall>(k, v) \<in> set kv. length k \<noteq> 4 \<and> c_string k \<and> c_string v)"

lemma KvAdd_ok: "settings_ok kv \<Longrightarrow> length k \<noteq> 4 \<Longrightarrow> c_string k \<Longrightarrow> c_string v \<Longrightarrow> settings_ok (KvAdd kv k v)"
proof -
  have "\<forall>(k', v') \<in> set (KvAdd kv k v). (k', v') \<in> set kv \<or> (k' \<in> insert k (fst ` set kv) \<and> v' = v)"
    by (induction kv k v rule: KvAdd.induct) auto
  then show "settings_ok kv \<Longrightarrow> length k \<noteq> 4 \<Longrightarrow> c_string k \<Longrightarrow> c_string v \<Longrightarrow> settings_ok (KvAdd kv k v)"
    using KvAdd_distinct by (fastforce simp: settings_ok_def)
qed

lemma c_string_subset: "set s \<subseteq> set t \<Longrightarrow> c_string t \<Longrightarrow> c_string s"
  by (auto simp: c_string_def)

lemma PqQuoted_sub: "set (fst (PqQuoted p)) \<subseteq> set p" "set (snd (PqQuoted p)) \<subseteq> set p"
  by (induction p rule: PqQuoted.induct) (auto simp: case_prod_unfold Let_def neq_Nil_conv)

lemma PqPlain_sub: "set (fst (PqPlain p)) \<subseteq> set p" "set (snd (PqPlain p)) \<subseteq> set p"
  by (induction p rule: PqPlain.induct) (auto simp: case_prod_unfold Let_def neq_Nil_conv)

lemma PqValue_sub: "set (fst (PqValue p)) \<subseteq> set p" "set (snd (PqValue p)) \<subseteq> set p"
  using PqQuoted_sub [of "tl p"] PqPlain_sub [of p] set_subset_Cons [of "tl p" "hd p"] by (cases p; auto simp: PqValue_def)+

lemma EqualsNoCase_length: "EqualsNoCase a b \<Longrightarrow> length a = length b"
  by (metis EqualsNoCase_map length_map)

lemma no_name_of_4: "list_all (\<lambda>n. length n \<noteq> 4) kPqoptKeys" "list_all (\<lambda>n. length n \<noteq> 4 \<and> c_string n) kPgForwardKeys"
  by (simp_all add: kPqoptKeys_def kPgForwardKeys_def c_string_def)

lemma pqopt_name: "InNameList kPqoptKeys nm \<Longrightarrow> length nm \<noteq> 4"
  using no_name_of_4(1) EqualsNoCase_length by (fastforce simp: InNameList_def list_ex_iff list_all_iff)

lemma ParsePqopt_ok:
  assumes "ParsePqopt v params = Inr params'" "c_string v" "settings_ok params"
  shows "settings_ok params'"
  using assms
proof (induction v params rule: ParsePqopt.induct)
  case (1 v params)
  let ?is = "\<lambda>c. c \<noteq> CHR ''='' \<and> \<not> is_blank c"
  define p where "p = dropWhile is_blank v"
  show ?case
  proof (cases "p = []")
    case False
    define nm where "nm = takeWhile ?is p"
    define q where "q = dropWhile is_blank (dropWhile ?is p)"
    obtain val r where v: "PqValue (dropWhile is_blank (tl q)) = (val, r)" by force
    note simp = ParsePqopt.simps [of v params, unfolded Let_def, folded p_def, folded nm_def q_def]
    have ok: "\<not> (nm = [] \<or> 64 \<le> length nm)" "\<not> (q = [] \<or> hd q \<noteq> CHR ''='')" "InNameList kPqoptKeys nm" "ParsePqopt r (KvAdd params nm val) = Inr params'"
      using "1.prems"(1) False by (simp_all add: simp v split: if_splits)
    have sub: "set nm \<subseteq> set v" "set q \<subseteq> set v"
      unfolding nm_def q_def p_def by (blast dest: set_takeWhileD set_dropWhileD)+
    have "set (dropWhile is_blank (tl q)) \<subseteq> set (tl q)" by (blast dest: set_dropWhileD)
    also have "\<dots> \<subseteq> set v" using ok(2) sub(2) by (cases q) auto
    finally have "set (dropWhile is_blank (tl q)) \<subseteq> set v" .
    then have "set val \<subseteq> set v" "set r \<subseteq> set v" using PqValue_sub [of "dropWhile is_blank (tl q)"] by (auto simp: v)
    then have "c_string nm" "c_string val" "c_string r" using sub "1.prems"(2) c_string_subset by blast+
    moreover have "settings_ok (KvAdd params nm val)"
      using "1.prems"(3) pqopt_name [OF ok(3)] calculation by (intro KvAdd_ok)
    ultimately show ?thesis
      using "1.IH" [OF p_def False refl nm_def q_def ok(1,2) v [symmetric] refl] ok(3,4) by simp
  qed (use "1.prems" in \<open>simp add: ParsePqopt.simps [of v params] p_def\<close>)
qed

text \<open>A keyword that leaves the setting \<open>q\<close> as it is.\<close>

definition leaves :: "OdbcNativeFamily \<Rightarrow> string \<Rightarrow> string \<Rightarrow> bool" where
  "leaves family q k \<longleftrightarrow> (case ClassifyKeyword family k of (KW_FORWARD, None) \<Rightarrow> False | (KW_FORWARD, Some p) \<Rightarrow> \<not> EqualsNoCase p q | _ \<Rightarrow> True)"

lemma AcceptKeyword_leaves:
  "AcceptKeyword family k v params = Inr params' \<Longrightarrow> leaves family q k \<Longrightarrow> kv_get params' q = kv_get params q"
  by (auto simp: AcceptKeyword_def leaves_def kv_get_KvAdd EqualsNoCase_map split: prod.splits KeywordClass.splits option.splits list.splits)

lemma AcceptKeyword_known: "AcceptKeyword family k v params = Inr params' \<Longrightarrow> fst (ClassifyKeyword family k) \<noteq> KW_UNKNOWN"
  by (auto simp: AcceptKeyword_def split: prod.splits)

lemma forward_name: "ClassifyKeyword family k = (KW_FORWARD, Some q) \<Longrightarrow> length q \<noteq> 4 \<and> c_string q"
  using no_name_of_4(2)
  by (fastforce simp: ClassifyKeyword_def c_string_def list_all_iff find_Some_iff split: if_splits OdbcNativeFamily.splits option.splits)

lemma AcceptKeyword_ok:
  assumes "AcceptKeyword family k v params = Inr params'" "settings_ok params" "\<And>s. v = Some s \<Longrightarrow> c_string s"
  shows "settings_ok params'"
proof (cases "ClassifyKeyword family k")
  case (Pair cls p)
  show ?thesis
  proof (cases "cls = KW_FORWARD \<and> p \<noteq> None \<and> given v")
    case True
    then obtain q s where q: "p = Some q" "v = Some s" "s \<noteq> []" by (cases v) (auto simp: given_def)
    then show ?thesis using assms Pair True forward_name [of family k q]
      by (auto simp: AcceptKeyword_def neq_Nil_conv intro!: KvAdd_ok)
  next
    case False
    have "c_string (case v of None \<Rightarrow> [] | Some s \<Rightarrow> s)" using assms(3) by (cases v) (simp_all add: c_string_def)
    then show ?thesis using assms(1,2) Pair False ParsePqopt_ok
      by (cases cls) (auto simp: AcceptKeyword_def given_def split: option.splits list.splits)
  qed
qed

lemma AcceptAll_append:
  "AcceptAll family (kvs @ kvs') params = (case AcceptAll family kvs params of Inl why \<Rightarrow> Inl why | Inr ps \<Rightarrow> AcceptAll family kvs' ps)"
  by (induction family kvs params rule: AcceptAll.induct) (auto split: sum.split)

lemma AcceptAll_ok:
  "AcceptAll family kvs params = Inr params' \<Longrightarrow> settings_ok params \<Longrightarrow> \<forall>(k, v) \<in> set kvs. \<forall>s. v = Some s \<longrightarrow> c_string s \<Longrightarrow>
   settings_ok params' \<and> (\<forall>(k, v) \<in> set kvs. fst (ClassifyKeyword family k) \<noteq> KW_UNKNOWN)"
proof (induction family kvs params rule: AcceptAll.induct)
  case (2 family k v kvs params)
  obtain ps where ps: "AcceptKeyword family k v params = Inr ps" "AcceptAll family kvs ps = Inr params'"
    using "2.prems"(1) by (auto split: sum.splits)
  have "settings_ok ps" by (rule AcceptKeyword_ok [OF ps(1) "2.prems"(2)]) (use "2.prems"(3) in auto)
  then show ?case using "2.IH" [OF ps] "2.prems"(3) AcceptKeyword_known [OF ps(1)] by simp
qed simp

lemma AcceptAll_leaves:
  "AcceptAll family kvs params = Inr params' \<Longrightarrow> \<forall>(k, v) \<in> set kvs. leaves family q k \<Longrightarrow> kv_get params' q = kv_get params q"
  by (induction family kvs params rule: AcceptAll.induct) (auto simp: AcceptKeyword_leaves split: sum.splits)

lemma AcceptAll_last:
  assumes "AcceptAll family (pre @ (k, Some v) # post) params = Inr params'" "ClassifyKeyword family k = (KW_FORWARD, Some q)" "v \<noteq> []"
    and "\<forall>(k, v) \<in> set post. leaves family q k"
  shows "kv_get params' q = Some v"
proof -
  obtain ps where ps: "AcceptAll family post (KvAdd ps q v) = Inr params'"
    using assms(1-3) by (auto simp: AcceptAll_append AcceptKeyword_def neq_Nil_conv split: sum.splits)
  then show ?thesis using AcceptAll_leaves [OF ps assms(4)] by (simp add: kv_get_KvAdd)
qed

section \<open>The whole way\<close>

lemma BraceValue_sub: "set (fst (BraceValue v)) \<subseteq> set v" "set (snd (BraceValue v)) \<subseteq> set v"
  by (induction v rule: BraceValue.induct) (auto simp: case_prod_unfold Let_def neq_Nil_conv)

lemma ConnStringNext_sub:
  assumes "ConnStringNext it = Some ((k, v), r)"
  shows "set v \<subseteq> set it" "set r \<subseteq> set it"
proof -
  define p where "p = dropWhile is_separator it"
  define t where "t = tl (dropWhile (\<lambda>c. c \<noteq> CHR ''='') p)"
  have "set (tl s) \<subseteq> set s" for s :: string by (cases s) auto
  then have t: "set t \<subseteq> set it" "set (tl t) \<subseteq> set it" unfolding t_def p_def by (blast dest: set_dropWhileD)+
  have "(if t \<noteq> [] \<and> hd t = CHR ''{'' then v = fst (BraceValue (tl t)) \<and> r = dropWhile (\<lambda>c. c \<noteq> CHR '';'') (snd (BraceValue (tl t)))
         else v = takeWhile (\<lambda>c. c \<noteq> CHR '';'') t \<and> r = dropWhile (\<lambda>c. c \<noteq> CHR '';'') t)"
    using assms by (auto simp: ConnStringNext_def Let_def case_prod_unfold p_def t_def split: if_splits)
  then show "set v \<subseteq> set it" "set r \<subseteq> set it"
    using t BraceValue_sub [of "tl t"] by (auto split: if_splits dest: set_dropWhileD set_takeWhileD)
qed

lemma ConnStringPairs_sub: "(k, v) \<in> set (ConnStringPairs s) \<Longrightarrow> set v \<subseteq> set s"
proof (induction s rule: ConnStringPairs.induct)
  case (1 it)
  show ?case
  proof (cases "ConnStringNext it")
    case (Some n)
    obtain k' v' r where n: "n = ((k', v'), r)" by (metis surj_pair)
    note sub = ConnStringNext_sub [OF Some [unfolded n]]
    have "(k, v) = (k', v') \<or> (k, v) \<in> set (ConnStringPairs r)" using "1.prems" Some by (simp add: ConnStringPairs.simps [of it] n)
    then show ?thesis using "1.IH" [OF Some n [symmetric]] sub by auto
  qed (use "1.prems" in \<open>simp add: ConnStringPairs.simps [of it]\<close>)
qed

lemma FirstValue_Some: "FirstValue get as = Some v \<Longrightarrow> \<exists>a. get a = Some v"
  by (induction get as rule: FirstValue.induct) (auto split: option.splits list.splits)

definition ini_c_strings :: "profile \<Rightarrow> bool" where
  "ini_c_strings ini \<longleftrightarrow> (\<forall>d k. c_string (ini_value ini d k))"

lemma DsnGet_c_string: "ini_c_strings ini \<Longrightarrow> DsnGet ini dsn k = Some v \<Longrightarrow> c_string v"
  by (auto simp: DsnGet_def ini_c_strings_def split: option.splits if_splits)

lemma KeywordGet_c_string:
  assumes "KeywordGet ini (Some conn) dsn aliases = Some v" "c_string conn" "ini_c_strings ini"
  shows "c_string v"
proof -
  have "(\<exists>a. ConnStringGet (Some conn) a = Some v) \<or> (\<exists>a. DsnGet ini dsn a = Some v)"
    using assms(1) FirstValue_Some by (auto simp: KeywordGet_def split: option.splits)
  then show ?thesis
  proof
    assume "\<exists>a. ConnStringGet (Some conn) a = Some v"
    then obtain k where "(k, v) \<in> set (ConnStringPairs conn)" by (fastforce simp: ConnStringGet_def find_Some_iff in_set_conv_nth)
    then show ?thesis using ConnStringPairs_sub assms(2) c_string_subset by blast
  qed (use DsnGet_c_string assms(3) in blast)
qed

lemma CollectKeywords_ok:
  assumes "CollectKeywords ini family (Some conn) dsn = Inr params" "c_string conn" "ini_c_strings ini"
  shows "settings_ok params" "\<forall>(k, v) \<in> set (ConnStringPairs conn). fst (ClassifyKeyword family k) \<noteq> KW_UNKNOWN"
    "ConnStringPairs conn = pre @ (k, v) # post \<Longrightarrow> ClassifyKeyword family k = (KW_FORWARD, Some q) \<Longrightarrow> v \<noteq> [] \<Longrightarrow>
     \<forall>(k, v) \<in> set post. leaves family q k \<Longrightarrow> kv_get params q = Some v"
proof -
  let ?kvs = "map (\<lambda>(k, v). (k, Some v)) (ConnStringPairs conn)"
  obtain ps where ps: "AcceptAll family ?kvs ps = Inr params" "settings_ok ps"
  proof (cases "given dsn")
    case True
    then obtain entries ps where e: "AcceptAll family (map (\<lambda>e. (e, DsnGet ini dsn e)) entries) [] = Inr ps" "AcceptAll family ?kvs ps = Inr params"
      using assms(1) by (auto simp: CollectKeywords_def given_def split: option.splits sum.splits if_splits)
    have "settings_ok ps"
      using AcceptAll_ok [OF e(1)] DsnGet_c_string [OF assms(3)] by (auto simp: settings_ok_def keys_distinct_def)
    then show ?thesis using that e(2) by blast
  next
    case False
    then have "AcceptAll family ?kvs [] = Inr params" using assms(1) by (auto simp: CollectKeywords_def given_def split: option.splits)
    then show ?thesis using that by (simp add: settings_ok_def keys_distinct_def)
  qed
  have "\<forall>(k, v) \<in> set ?kvs. \<forall>s. v = Some s \<longrightarrow> c_string s" using ConnStringPairs_sub assms(2) c_string_subset by fastforce
  then have "settings_ok params \<and> (\<forall>(k, v) \<in> set ?kvs. fst (ClassifyKeyword family k) \<noteq> KW_UNKNOWN)" by (rule AcceptAll_ok [OF ps])
  then show "settings_ok params" "\<forall>(k, v) \<in> set (ConnStringPairs conn). fst (ClassifyKeyword family k) \<noteq> KW_UNKNOWN" by auto
  show "kv_get params q = Some v"
    if "ConnStringPairs conn = pre @ (k, v) # post" "ClassifyKeyword family k = (KW_FORWARD, Some q)" "v \<noteq> []" "\<forall>(k, v) \<in> set post. leaves family q k"
  proof (rule AcceptAll_last)
    show "AcceptAll family (map (\<lambda>(k, v). (k, Some v)) pre @ (k, Some v) # map (\<lambda>(k, v). (k, Some v)) post) ps = Inr params"
      using ps(1) that(1) by simp
  qed (use that in auto)
qed

lemma lower_of_4: "length s = 4 \<Longrightarrow> kv_get kv' q = kv_get kv q \<Longrightarrow> length q \<noteq> 4 \<Longrightarrow> kv_get ((s, v) # kv') q = kv_get kv q"
  by (auto simp: kv_get_def dest: map_eq_imp_length_eq)

lemma socket_params_get: "length q \<noteq> 4 \<Longrightarrow> kv_get (socket_params host port @ params) q = kv_get params q"
  by (simp add: socket_params_def lower_of_4)

lemma socket_params_distinct: "settings_ok params \<Longrightarrow> keys_distinct (socket_params host port @ params)"
proof -
  have h: "map to_lower ''host'' \<noteq> map to_lower ''port''" by (simp add: to_lower_def)
  have n: "map to_lower s \<noteq> map to_lower k" if "settings_ok params" "(k, v) \<in> set params" "length s = 4" for s k v
    using that by (auto simp: settings_ok_def dest!: map_eq_imp_length_eq)
  have d: "keys_distinct ((s, w) # kv) \<longleftrightarrow> keys_distinct kv \<and> (\<forall>(k, v) \<in> set kv. map to_lower s \<noteq> map to_lower k)" for s w kv
    by (auto simp: keys_distinct_def image_iff)
  show "settings_ok params \<Longrightarrow> keys_distinct (socket_params host port @ params)"
    using h n [of _ _ "''host''"] n [of _ _ "''port''"]
    by (cases "SocketHost host"; cases "given port") (auto simp del: list.map(2) simp: socket_params_def d settings_ok_def)
qed


section \<open>Examples\<close>

definition demo_profile :: profile where
  "demo_profile = \<lparr>ini_names = (\<lambda>s f. if s = None then Some [''PostgreSQL Unicode''] else None), ini_value = (\<lambda>d k. [])\<rparr>"

definition demo_settings :: "(string \<times> string) list" where
  "demo_settings = [(''Server'', ''db''), (''Uid'', ''me''), (''Pwd'', ''p;w}''), (''sslmode'', ''require'')]"

definition demo_conn :: string where "demo_conn = odbc_text demo_settings"

lemma demo_pairs: "ConnStringPairs demo_conn = demo_settings"
  unfolding demo_conn_def by (rule ConnStringPairs_odbc_text) (simp add: demo_settings_def plain_key_def is_separator_def is_blank_def)

lemma demo_get: "ConnStringGet (Some demo_conn) k = map_option snd (find (\<lambda>(k', v). EqualsNoCase k' k) demo_settings)"
  by (simp add: ConnStringGet_def demo_pairs)

lemma demo_host: "KeywordGet demo_profile (Some demo_conn) None kHostKeys = Some ''db''"
  "KeywordGet demo_profile (Some demo_conn) None kPortKeys = None"
  "KeywordGet demo_profile (Some demo_conn) None kUserKeys = Some ''me''"
  "KeywordGet demo_profile (Some demo_conn) None kPasswordKeys = Some ''p;w}''"
  by (simp_all add: KeywordGet_def demo_get kHostKeys_def kPortKeys_def kUserKeys_def kPasswordKeys_def demo_settings_def to_lower_def DsnGet_def)

lemma demo_classes:
  "ClassifyKeyword FAMILY_POSTGRESQL ''Server'' = (KW_CONSUMED, None)" "ClassifyKeyword FAMILY_POSTGRESQL ''Uid'' = (KW_CONSUMED, None)"
  "ClassifyKeyword FAMILY_POSTGRESQL ''Pwd'' = (KW_CONSUMED, None)"
  by (simp_all add: ClassifyKeyword_def InNameList_def kConsumedKeys_def)

lemma demo_forward: "ClassifyKeyword FAMILY_POSTGRESQL ''sslmode'' = (KW_FORWARD, Some ''sslmode'')"
  by code_simp

lemma demo_uri: "\<exists>uri. BuildNativeUri demo_profile FAMILY_POSTGRESQL (Some demo_conn) None None None = Inr uri"
proof -
  have "CollectKeywords demo_profile FAMILY_POSTGRESQL (Some demo_conn) None = Inr [(''sslmode'', ''require'')]"
    by (simp add: CollectKeywords_def demo_pairs demo_settings_def AcceptKeyword_def demo_classes demo_forward)
  then show ?thesis by (simp add: BuildNativeUri_def demo_host BuildPostgresUri_def Let_def given_def HostText_def Unbracket_def)
qed

lemma demo_c_string: "c_string demo_conn" "ini_c_strings demo_profile"
  by (simp_all add: demo_conn_def c_string_def demo_settings_def OdbcSetting_def AppendOdbcValue_def ini_c_strings_def demo_profile_def)


definition demo_native_uri :: string where "demo_native_uri = ''postgresql://me:p;w@db/x}y''"

lemma demo_to_odbc:
  "\<exists>s. OdbcDelegateNativeUriToOdbc demo_profile (Some demo_native_uri) = (ADBC_STATUS_OK, Some s)"
  "FamilyFromUri (Some demo_native_uri) = (FAMILY_POSTGRESQL, ''//me:p;w@db/x}y'')"
proof -
  show f: "FamilyFromUri (Some demo_native_uri) = (FAMILY_POSTGRESQL, ''//me:p;w@db/x}y'')"
    using FamilyFromUri_postgresql [of "''//me:p;w@db/x}y''"] by (simp add: demo_native_uri_def)
  have "FindOdbcDriverForFamily demo_profile FAMILY_POSTGRESQL = Some ''PostgreSQL Unicode''"
    by code_simp
  moreover have "pu_params (ParseUriRest ''//me:p;w@db/x}y'') = []"
    by (simp add: ParseUriRest_def Let_def upto_def ParseAuthority_def ParseHost_def no_uri_def behind_def)
  ultimately show "\<exists>s. OdbcDelegateNativeUriToOdbc demo_profile (Some demo_native_uri) = (ADBC_STATUS_OK, Some s)"
    by (simp add: OdbcDelegateNativeUriToOdbc_def f Let_def)
qed


end
