(* ===== verification/DelegateInit.thy ===== *)
theory DelegateInit
  imports Delegate
begin

text \<open>
  \<^verbatim>\<open>src/odbc_delegate.c\<close>, the decision part: the delegation options, working out which native driver fits
  a target, the places its library may be loaded from, and the hand-over with its fallbacks.

  The operating system is a parameter (\<open>os\<close>): the environment, whether the process runs with raised
  privileges, what \<^verbatim>\<open>access\<close> and \<^verbatim>\<open>stat\<close> answer, the lines of a readable file, and the paths of the
  loaded objects.  So are the driver manager's loader and the native drivers it returns.  Allocation
  succeeds, and the platform is POSIX.
\<close>

record os =
  os_env :: "string \<Rightarrow> string option"
  os_secure :: bool
  os_euid :: nat
  os_readable :: "string \<Rightarrow> bool"
  os_stat :: "string \<Rightarrow> (bool \<times> nat) option"
  os_lines :: "string \<Rightarrow> string list option"
  os_objects :: "string list"
  os_platform :: string

section \<open>Options\<close>

datatype OdbcDelegateMode = ODBC_DELEGATE_AUTO | ODBC_DELEGATE_NEVER | ODBC_DELEGATE_ALWAYS

record OdbcDelegateOptions =
  do_mode :: OdbcDelegateMode
  do_driver :: "string option"
  do_search_path :: "string option"
  do_last_error :: "string option"
  do_delegated_to :: "string option"
  do_allow_paths :: bool
  do_initialized :: bool
  do_pass :: "(string \<times> string) list"

definition ParseMode :: "string option \<Rightarrow> OdbcDelegateMode option" where
  "ParseMode v =
     (if v = None \<or> v = Some ''auto'' then Some ODBC_DELEGATE_AUTO
      else if v = Some ''never'' then Some ODBC_DELEGATE_NEVER
      else if v = Some ''always'' then Some ODBC_DELEGATE_ALWAYS
      else None)"

definition ParseBool :: "string option \<Rightarrow> bool option" where
  "ParseBool v =
     (if v = Some ''true'' \<or> v = Some ''1'' then Some True
      else if v = Some ''false'' \<or> v = Some ''0'' then Some False
      else None)"

definition OdbcDelegateOptionsInit :: "os \<Rightarrow> OdbcDelegateOptions" where
  "OdbcDelegateOptionsInit env =
     \<lparr>do_mode = (case os_env env ''ADBC_ODBC_DELEGATE'' of
                   Some (c # s) \<Rightarrow> (case ParseMode (Some (c # s)) of Some m \<Rightarrow> m | None \<Rightarrow> ODBC_DELEGATE_AUTO)
                 | _ \<Rightarrow> ODBC_DELEGATE_AUTO),
      do_driver = None, do_search_path = None, do_last_error = None, do_delegated_to = None,
      do_allow_paths = (case os_env env ''ADBC_ODBC_DELEGATE_ALLOW_PATHS'' of
                          Some v \<Rightarrow> \<not> os_secure env \<and> ParseBool (Some v) = Some True
                        | None \<Rightarrow> False),
      do_initialized = False, do_pass = []\<rparr>"

definition starts_with :: "string \<Rightarrow> string \<Rightarrow> bool" where
  "starts_with p s \<longleftrightarrow> take (length p) s = p"

definition IsPassThroughKey :: "string \<Rightarrow> bool" where
  "IsPassThroughKey key \<longleftrightarrow> starts_with ''adbc.'' key \<and> \<not> starts_with ''adbc.odbc.'' key"

fun PutPair :: "(string \<times> string) list \<Rightarrow> string \<Rightarrow> string \<Rightarrow> (string \<times> string) list" where
  "PutPair [] key v = [(key, v)]"
| "PutPair ((k, w) # kv) key v = (if k = key then (k, v) # kv else (k, w) # PutPair kv key v)"

definition AddPassThrough :: "OdbcDelegateOptions \<Rightarrow> string \<Rightarrow> string \<Rightarrow> OdbcDelegateOptions" where
  "AddPassThrough opts key v = opts\<lparr>do_pass := PutPair (do_pass opts) key v\<rparr>"

definition OdbcDelegateHeldOption :: "OdbcDelegateOptions \<Rightarrow> string option" where
  "OdbcDelegateHeldOption opts = (case do_pass opts of [] \<Rightarrow> None | (k, _) # _ \<Rightarrow> Some k)"

abbreviation (input) ADBC_ODBC_OPTION_DELEGATE :: string where "ADBC_ODBC_OPTION_DELEGATE \<equiv> ''adbc.odbc.delegate''"
abbreviation (input) OPTION_DELEGATE_DRIVER :: string where "OPTION_DELEGATE_DRIVER \<equiv> ''adbc.odbc.delegate.driver''"
abbreviation (input) OPTION_SEARCH_PATH :: string where "OPTION_SEARCH_PATH \<equiv> ''adbc.odbc.delegate.search_path''"
abbreviation (input) OPTION_ALLOW_PATHS :: string where "OPTION_ALLOW_PATHS \<equiv> ''adbc.odbc.delegate.allow_paths''"
abbreviation (input) OPTION_LAST_ERROR :: string where "OPTION_LAST_ERROR \<equiv> ''adbc.odbc.delegate.last_error''"
abbreviation (input) OPTION_DELEGATED_TO :: string where "OPTION_DELEGATED_TO \<equiv> ''adbc.odbc.delegated_to''"

text \<open>\<open>None\<close> is \<^verbatim>\<open>false\<close>: the option is not one of these.\<close>

definition OdbcDelegateSetOption :: "OdbcDelegateOptions \<Rightarrow> string \<Rightarrow> string option \<Rightarrow> (status \<times> OdbcDelegateOptions) option" where
  "OdbcDelegateSetOption opts key v =
     (if \<not> (key = ADBC_ODBC_OPTION_DELEGATE \<or> key = OPTION_DELEGATE_DRIVER \<or> key = OPTION_SEARCH_PATH \<or> key = OPTION_ALLOW_PATHS
             \<or> key = OPTION_LAST_ERROR \<or> key = OPTION_DELEGATED_TO \<or> IsPassThroughKey key) then None
      else if key = OPTION_LAST_ERROR \<or> key = OPTION_DELEGATED_TO then Some (ADBC_STATUS_INVALID_ARGUMENT, opts)
      else if do_initialized opts then Some (ADBC_STATUS_INVALID_STATE, opts)
      else if key = ADBC_ODBC_OPTION_DELEGATE
      then Some (case ParseMode v of None \<Rightarrow> (ADBC_STATUS_INVALID_ARGUMENT, opts) | Some m \<Rightarrow> (ADBC_STATUS_OK, opts\<lparr>do_mode := m\<rparr>))
      else if key = OPTION_ALLOW_PATHS
      then Some (case ParseBool v of None \<Rightarrow> (ADBC_STATUS_INVALID_ARGUMENT, opts) | Some b \<Rightarrow> (ADBC_STATUS_OK, opts\<lparr>do_allow_paths := b\<rparr>))
      else if key = OPTION_DELEGATE_DRIVER then Some (ADBC_STATUS_OK, opts\<lparr>do_driver := v\<rparr>)
      else if key = OPTION_SEARCH_PATH then Some (ADBC_STATUS_OK, opts\<lparr>do_search_path := v\<rparr>)
      else if do_mode opts = ODBC_DELEGATE_NEVER then None
      else Some (ADBC_STATUS_OK, AddPassThrough opts key (case v of None \<Rightarrow> [] | Some s \<Rightarrow> s)))"

definition OdbcDelegateGetOption :: "OdbcDelegateOptions \<Rightarrow> string \<Rightarrow> string option" where
  "OdbcDelegateGetOption opts key =
     (let or_empty = (\<lambda>s. case s of None \<Rightarrow> [] | Some t \<Rightarrow> t)
      in if key = OPTION_DELEGATED_TO then Some (or_empty (do_delegated_to opts))
         else if key = ADBC_ODBC_OPTION_DELEGATE
         then Some (if do_mode opts = ODBC_DELEGATE_NEVER then ''never'' else if do_mode opts = ODBC_DELEGATE_ALWAYS then ''always'' else ''auto'')
         else if key = OPTION_DELEGATE_DRIVER then Some (or_empty (do_driver opts))
         else if key = OPTION_SEARCH_PATH then Some (or_empty (do_search_path opts))
         else if key = OPTION_ALLOW_PATHS then Some (if do_allow_paths opts then ''true'' else ''false'')
         else if key = OPTION_LAST_ERROR then Some (or_empty (do_last_error opts))
         else None)"

section \<open>Which native driver fits\<close>

record OdbcDelegateTarget =
  dt_connection_string :: "string option"
  dt_dsn :: "string option"
  dt_username :: "string option"
  dt_password :: "string option"

record NativeTarget =
  nt_driver_name :: string
  nt_uri :: string
  nt_uri_verbatim :: bool
  nt_family :: OdbcNativeFamily

definition no_driver_for :: "string option \<Rightarrow> string option \<Rightarrow> string" where
  "no_driver_for odbc_driver dsn =
     ''no native ADBC driver is known for ''
     @ (if given odbc_driver then ''ODBC driver '' @ [CHR 0x22] @ the odbc_driver @ [CHR 0x22]
        else if given dsn then ''DSN '' @ [CHR 0x22] @ the dsn @ [CHR 0x22]
        else ''this connection string'')"

definition DetectNative :: "profile \<Rightarrow> OdbcDelegateTarget \<Rightarrow> OdbcDelegateOptions \<Rightarrow> string + NativeTarget" where
  "DetectNative ini target opts =
     (let conn = dt_connection_string target;
          (family, rest) = FamilyFromUri conn;
          dsn = (if given (dt_dsn target) then dt_dsn target else ConnStringGet conn ''DSN'');
          verbatim = (family \<noteq> FAMILY_NONE);
          uri = (if family = FAMILY_SQLITE \<or> family = FAMILY_DUCKDB then PathFromUriRest rest else the conn);
          built = (\<lambda>fam. BuildNativeUri ini fam conn dsn (dt_username target) (dt_password target))
      in if given (do_driver opts)
         then
           (if verbatim
            then Inr \<lparr>nt_driver_name = the (do_driver opts), nt_uri = uri, nt_uri_verbatim = True, nt_family = family\<rparr>
            else let family = FamilyFromDriverName (do_driver opts)
                 in if family = FAMILY_NONE
                    then Inl (''adbc.odbc.delegate.driver does not name a known database family; pass a native URI as '' @ [CHR 0x22] @ ''uri'' @ [CHR 0x22])
                    else case built family of
                           Inl why \<Rightarrow> Inl why
                         | Inr uri \<Rightarrow> Inr \<lparr>nt_driver_name = the (do_driver opts), nt_uri = uri, nt_uri_verbatim = False, nt_family = family\<rparr>)
         else if verbatim
         then Inr \<lparr>nt_driver_name = the (FamilyDriverName family), nt_uri = uri, nt_uri_verbatim = True, nt_family = family\<rparr>
         else
           let odbc_driver = KeywordGet ini conn dsn [''Driver'']; family = FamilyFromOdbcDriver odbc_driver
           in if family = FAMILY_NONE then Inl (no_driver_for odbc_driver dsn)
              else case built family of
                     Inl why \<Rightarrow> Inl why
                   | Inr uri \<Rightarrow> Inr \<lparr>nt_driver_name = the (FamilyDriverName family), nt_uri = uri, nt_uri_verbatim = False, nt_family = family\<rparr>)"

section \<open>Where its library may come from\<close>

function StrListAddPathList :: "string list \<Rightarrow> string \<Rightarrow> string list" where
  "StrListAddPathList l p =
     (if p = [] then l
      else
        let e = takeWhile (\<lambda>c. c \<noteq> CHR '':'') p; r = dropWhile (\<lambda>c. c \<noteq> CHR '':'') p;
            l = (if length e > 0 \<and> length e < 4096 then StrListAdd l (Some e) else l)
        in if r = [] then l else StrListAddPathList l (tl r))"
  by pat_completeness auto
termination
proof (relation "measure (length \<circ> snd)", goal_cases)
  case (2 l p e r l')
  then have "length (tl r) < length r" by (cases r) auto
  also have "\<dots> \<le> length p" unfolding 2(3) by (rule length_dropWhile_le)
  finally show ?case by simp
qed simp

declare StrListAddPathList.simps [simp del]

definition AddPathListOpt :: "string list \<Rightarrow> string option \<Rightarrow> string list" where
  "AddPathListOpt l p = (case p of None \<Rightarrow> l | Some s \<Rightarrow> StrListAddPathList l s)"

definition DirName :: "string \<Rightarrow> string option" where
  "DirName path =
     (let d = rev (tl (dropWhile (\<lambda>c. c \<noteq> CHR ''/'') (rev path)))
      in if CHR ''/'' \<notin> set path \<or> d = [] then None else Some d)"

definition safe_owner :: "os \<Rightarrow> (bool \<times> nat) option \<Rightarrow> bool" where
  "safe_owner env st \<longleftrightarrow> (case st of None \<Rightarrow> False | Some (other_writable, uid) \<Rightarrow> \<not> other_writable \<and> (uid = 0 \<or> uid = os_euid env))"

definition PathIsTrusted :: "os \<Rightarrow> string \<Rightarrow> bool" where
  "PathIsTrusted env path \<longleftrightarrow>
     safe_owner env (os_stat env path) \<and> (case DirName path of None \<Rightarrow> True | Some dir \<Rightarrow> safe_owner env (os_stat env dir))"

definition ManifestLine :: "string \<Rightarrow> string \<Rightarrow> string option" where
  "ManifestLine platform ln =
     (let p = dropWhile is_blank ln
      in if p = [] \<or> hd p = CHR ''#'' \<or> hd p = CHR ''['' \<or> CHR ''='' \<notin> set p then None
         else
           let key = TrimBlanks (upto CHR ''='' p); v = dropWhile is_blank (behind CHR ''='' p)
           in if key = [] \<or> length key \<ge> 128 \<or> \<not> (EqualsNoCase key platform \<or> EqualsNoCase key ''shared'') then None
              else if v = [] \<or> (hd v \<noteq> CHR 0x22 \<and> hd v \<noteq> CHR 0x27) then None
              else if hd v \<notin> set (tl v) then None
              else (case upto (hd v) (tl v) of [] \<Rightarrow> None | s \<Rightarrow> Some s))"

fun ManifestScan :: "string \<Rightarrow> string list \<Rightarrow> string option" where
  "ManifestScan platform [] = None"
| "ManifestScan platform (ln # lns) = (case ManifestLine platform ln of Some s \<Rightarrow> Some s | None \<Rightarrow> ManifestScan platform lns)"

definition ManifestLibraryPath :: "os \<Rightarrow> string \<Rightarrow> string option" where
  "ManifestLibraryPath env manifest_path =
     (case os_lines env manifest_path of None \<Rightarrow> None | Some lns \<Rightarrow> ManifestScan (os_platform env) lns)"

record LoadedObjectScan =
  los_dirs :: "string list"
  los_parents :: "string list"
  los_managers :: "string list"

definition ScanObjectPath :: "LoadedObjectScan \<Rightarrow> string \<Rightarrow> LoadedObjectScan" where
  "ScanObjectPath scan path =
     (if path = [] \<or> \<not> ContainsNoCase (Some path) ''adbc'' then scan
      else
        let scan = (if ContainsNoCase (Some path) ''adbc_driver_manager''
                    then scan\<lparr>los_managers := StrListAdd (los_managers scan) (Some path)\<rparr> else scan)
        in case DirName path of
             None \<Rightarrow> scan
           | Some dir \<Rightarrow>
               (let scan = scan\<lparr>los_dirs := StrListAdd (los_dirs scan) (Some dir)\<rparr>
                in scan\<lparr>los_parents := StrListAdd (los_parents scan) (DirName dir)\<rparr>))"

definition ScanLoadedObjects :: "os \<Rightarrow> LoadedObjectScan" where
  "ScanLoadedObjects env = foldl ScanObjectPath \<lparr>los_dirs = [], los_parents = [], los_managers = []\<rparr> (os_objects env)"

text \<open>What \<^verbatim>\<open>snprintf\<close> leaves in a buffer of 4096 bytes.\<close>

definition path_buf :: "string \<Rightarrow> string" where "path_buf s = take 4095 s"

definition ManifestDirs :: "os \<Rightarrow> string list \<Rightarrow> string list" where
  "ManifestDirs env extra =
     (let out = (if \<not> os_secure env then AddPathListOpt [] (os_env env ''ADBC_DRIVER_PATH'') else []);
          xdg = os_env env ''XDG_CONFIG_HOME''; home = os_env env ''HOME'';
          out = (if given xdg then StrListAdd out (Some (path_buf (the xdg @ ''/adbc/drivers'')))
                 else if given home then StrListAdd out (Some (path_buf (the home @ ''/.config/adbc/drivers'')))
                 else out)
      in foldl (\<lambda>l d. StrListAdd l (Some d)) (StrListAdd out (Some ''/etc/adbc/drivers'')) extra)"

definition ManifestCandidate :: "os \<Rightarrow> string \<Rightarrow> string \<Rightarrow> string option" where
  "ManifestCandidate env nm dir =
     (let path = path_buf (dir @ ''/'' @ nm @ ''.toml'')
      in if os_readable env path then ManifestLibraryPath env path else None)"

definition IfUsable :: "os \<Rightarrow> bool \<Rightarrow> string \<Rightarrow> string option" where
  "IfUsable env derived path =
     (let path = path_buf path in if os_readable env path \<and> (\<not> derived \<or> PathIsTrusted env path) then Some path else None)"

definition WheelPaths :: "string \<Rightarrow> string \<Rightarrow> string list" where
  "WheelPaths nm dir =
     [dir @ ''/adbc_driver_'' @ nm @ ''/libadbc_driver_'' @ nm @ ''.so'', dir @ ''/adbc_driver_'' @ nm @ ''/libadbc_driver_'' @ nm @ ''.dylib'']"

definition DirPaths :: "string \<Rightarrow> string \<Rightarrow> string list" where
  "DirPaths nm dir =
     [dir @ ''/libadbc_driver_'' @ nm @ ''.so'', dir @ ''/libadbc_driver_'' @ nm @ ''.dylib'',
      dir @ ''/adbc_driver_'' @ nm @ ''/libadbc_driver_'' @ nm @ ''.so'']"

definition NativeDriverCandidates :: "os \<Rightarrow> string \<Rightarrow> bool \<Rightarrow> LoadedObjectScan \<Rightarrow> string list \<Rightarrow> string list" where
  "NativeDriverCandidates env nm is_path scan extra_dirs =
     (if is_path
      then StrListAdd (if length nm > 5 \<and> drop (length nm - 5) nm = ''.toml'' then StrListAdd [] (ManifestLibraryPath env nm) else []) (Some nm)
      else
        foldl StrListAdd []
          (map (ManifestCandidate env nm) (ManifestDirs env extra_dirs)
           @ map (IfUsable env True) (concat (map (WheelPaths nm) (los_dirs scan)))
           @ map (IfUsable env True) (concat (map (WheelPaths nm) (los_parents scan)))
           @ map (IfUsable env False) (concat (map (DirPaths nm) extra_dirs))
           @ map (IfUsable env True) (concat (map (DirPaths nm) (los_dirs scan)))
           @ [Some (path_buf (''libadbc_driver_'' @ nm @ ''.so'')), Some (path_buf (''libadbc_driver_'' @ nm @ ''.dylib'')), Some nm]))"

section \<open>The hand-over\<close>

text \<open>
  A native driver, as what its entry points answer: whether it is this driver, and the statuses of
  \<^verbatim>\<open>DatabaseNew\<close>, of setting an option and of \<^verbatim>\<open>DatabaseInit\<close> after the options already set, the error
  message it then has, and what the probe query ends in (\<open>None\<close> for success, else the stage that
  failed and the detail).  The driver manager's loader answers for a library and an ADBC version.
\<close>

record native =
  nd_is_self :: bool
  nd_new :: status
  nd_set :: "(string \<times> string) list \<Rightarrow> string \<Rightarrow> string \<Rightarrow> status"
  nd_init :: "(string \<times> string) list \<Rightarrow> status"
  nd_message :: "(string \<times> string) list \<Rightarrow> string option"
  nd_probe :: "(string \<times> string) list \<Rightarrow> (string \<times> string) option"

record manager =
  dm_load :: "string \<Rightarrow> int \<Rightarrow> native option"
  dm_error :: string

text \<open>The proxy: the library that was loaded, its ADBC version, its name and the options it was given.\<close>

record OdbcDelegateProxy =
  px_library :: string
  px_version :: int
  px_name :: string
  px_options :: "(string \<times> string) list"

abbreviation (input) ADBC_VERSION_1_0_0 :: int where "ADBC_VERSION_1_0_0 \<equiv> 1000000"
abbreviation (input) ADBC_VERSION_1_1_0 :: int where "ADBC_VERSION_1_1_0 \<equiv> 1001000"

fun LoadLoop :: "manager \<Rightarrow> (int \<times> string) list \<Rightarrow> (int \<times> string \<times> native) option" where
  "LoadLoop dm [] = None"
| "LoadLoop dm ((v, c) # tries) = (case dm_load dm c v of Some d \<Rightarrow> Some (v, c, d) | None \<Rightarrow> LoadLoop dm tries)"

definition LoadNativeDriver :: "os \<Rightarrow> manager \<Rightarrow> string \<Rightarrow> bool \<Rightarrow> LoadedObjectScan \<Rightarrow> string list \<Rightarrow> string + (int \<times> string \<times> native)" where
  "LoadNativeDriver env dm nm is_path scan extra_dirs =
     (let candidates = NativeDriverCandidates env nm is_path scan extra_dirs
      in case LoadLoop dm (map (Pair ADBC_VERSION_1_1_0) candidates @ map (Pair ADBC_VERSION_1_0_0) candidates) of
           Some d \<Rightarrow> Inr d
         | None \<Rightarrow> Inl (''no native '' @ [CHR 0x22] @ nm @ [CHR 0x22] @ '' ADBC driver could be loaded''
                       @ (if dm_error dm = [] then [] else '' ('' @ dm_error dm @ '')'')))"

definition SetNative :: "native \<Rightarrow> status \<times> (string \<times> string) list \<Rightarrow> string \<times> string \<Rightarrow> status \<times> (string \<times> string) list" where
  "SetNative d s kv = (if fst s = ADBC_STATUS_OK then (nd_set d (snd s) (fst kv) (snd kv), snd s @ [kv]) else s)"

definition opt_setting :: "string \<Rightarrow> string option \<Rightarrow> (string \<times> string) list" where
  "opt_setting k v = (case v of None \<Rightarrow> [] | Some s \<Rightarrow> [(k, s)])"

text \<open>The credentials of a URI that was passed verbatim; the last component: the driver cannot take them.\<close>

definition SetCredentials ::
  "native \<Rightarrow> OdbcDelegateTarget \<Rightarrow> NativeTarget \<Rightarrow> status \<times> (string \<times> string) list \<Rightarrow> (status \<times> (string \<times> string) list) \<times> bool" where
  "SetCredentials d target t s =
     (if fst s = ADBC_STATUS_OK \<and> nt_uri_verbatim t \<and> (dt_username target \<noteq> None \<or> dt_password target \<noteq> None)
      then
        let s = foldl (SetNative d) s (opt_setting ''username'' (dt_username target) @ opt_setting ''password'' (dt_password target))
        in if fst s = ADBC_STATUS_OK then (s, False)
           else if nt_family t = FAMILY_POSTGRESQL
           then
             let creds = (case dt_username target of None \<Rightarrow> [] | Some u \<Rightarrow> KvAdd [] ''user'' u);
                 creds = (case dt_password target of None \<Rightarrow> creds | Some p \<Rightarrow> KvAdd creds ''password'' p);
                 merged = UriWithParams (nt_uri t) creds
             in ((nd_set d (snd s) ''uri'' merged, snd s @ [(''uri'', merged)]), False)
           else (s, True)
      else (s, False))"

definition SetUpNative :: "native \<Rightarrow> OdbcDelegateTarget \<Rightarrow> NativeTarget \<Rightarrow> (string \<times> string) list \<Rightarrow> (status \<times> (string \<times> string) list) \<times> bool" where
  "SetUpNative d target t pass =
     (let (s, why) = SetCredentials d target t (SetNative d (nd_new d, []) (''uri'', nt_uri t));
          s = foldl (SetNative d) s pass
      in (if fst s = ADBC_STATUS_OK \<and> \<not> why then (nd_init d (snd s), snd s) else s, why))"

definition DelegateGiveUp :: "OdbcDelegateOptions \<Rightarrow> string \<Rightarrow> status \<Rightarrow> status \<times> OdbcDelegateOptions \<times> OdbcDelegateProxy option" where
  "DelegateGiveUp opts why code =
     (if do_mode opts = ODBC_DELEGATE_ALWAYS then code else ADBC_STATUS_OK,
      opts\<lparr>do_last_error := Some why, do_delegated_to := Some ''odbc''\<rparr>, None)"

definition quoted :: "string \<Rightarrow> string" where "quoted s = [CHR 0x22] @ s @ [CHR 0x22]"

definition ExtraDirs :: "os \<Rightarrow> OdbcDelegateOptions \<Rightarrow> string list" where
  "ExtraDirs env opts =
     (let dirs = (if do_allow_paths opts then AddPathListOpt [] (do_search_path opts) else [])
      in if \<not> os_secure env then AddPathListOpt dirs (os_env env ''ADBC_ODBC_DELEGATE_PATH'') else dirs)"

text \<open>From the loaded driver on: set it up, probe it, and keep it or fall back.\<close>

definition HandOver ::
  "OdbcDelegateTarget \<Rightarrow> OdbcDelegateOptions \<Rightarrow> NativeTarget \<Rightarrow> int \<times> string \<times> native \<Rightarrow> status \<times> OdbcDelegateOptions \<times> OdbcDelegateProxy option" where
  "HandOver target opts t loaded =
     (let (version, library, d) = loaded; nm = nt_driver_name t;
          ((status, sets), why) = SetUpNative d target t (do_pass opts)
      in if status \<noteq> ADBC_STATUS_OK \<or> why
         then
           let text = (if why then ''the native '' @ quoted nm @ '' driver does not accept a separate username/password; put the credentials in the URI''
                       else ''the native '' @ quoted nm @ '' driver rejected the target''
                            @ (case nd_message d sets of None \<Rightarrow> [] | Some m \<Rightarrow> '': '' @ m));
               code = (if why \<and> status = ADBC_STATUS_OK then ADBC_STATUS_INVALID_ARGUMENT else status)
           in if nt_uri_verbatim t
              then (code, opts\<lparr>do_last_error := Some text, do_delegated_to := Some ''odbc''\<rparr>, None)
              else DelegateGiveUp opts text code
         else
           case (if \<not> nt_uri_verbatim t \<and> do_mode opts \<noteq> ODBC_DELEGATE_ALWAYS \<and> nt_family t = FAMILY_POSTGRESQL
                 then nd_probe d sets else None) of
             Some (stage, detail) \<Rightarrow>
               DelegateGiveUp opts (''the native '' @ quoted nm @ '' driver initialized but could not '' @ stage
                 @ '' the server, so the connection stays on ODBC'' @ (if detail = [] then [] else '': '' @ detail)) ADBC_STATUS_IO
           | None \<Rightarrow>
               (ADBC_STATUS_OK, opts\<lparr>do_delegated_to := Some nm\<rparr>,
                Some \<lparr>px_library = library, px_version = version, px_name = nm, px_options = sets\<rparr>))"

definition PathOffender :: "OdbcDelegateOptions \<Rightarrow> bool" where
  "PathOffender opts \<longleftrightarrow> \<not> do_allow_paths opts \<and> (LooksLikePath (do_driver opts) \<or> given (do_search_path opts))"

definition OdbcDelegateTryInit ::
  "os \<Rightarrow> profile \<Rightarrow> manager option \<Rightarrow> OdbcDelegateTarget \<Rightarrow> OdbcDelegateOptions \<Rightarrow> status \<times> OdbcDelegateOptions \<times> OdbcDelegateProxy option" where
  "OdbcDelegateTryInit env ini loader target opts =
     (let opts = opts\<lparr>do_initialized := True\<rparr>
      in if do_mode opts = ODBC_DELEGATE_NEVER
         then (ADBC_STATUS_OK, opts\<lparr>do_delegated_to := Some ''odbc'', do_last_error := Some ''delegation is off (adbc.odbc.delegate=never)''\<rparr>, None)
         else if PathOffender opts
         then (ADBC_STATUS_INVALID_ARGUMENT,
               opts\<lparr>do_delegated_to := Some ''odbc'', do_last_error := Some ''delegation by path is not allowed''\<rparr>, None)
         else
           case DetectNative ini target opts of
             Inl why \<Rightarrow> DelegateGiveUp opts why ADBC_STATUS_NOT_FOUND
           | Inr t \<Rightarrow>
               (case loader of
                  None \<Rightarrow> DelegateGiveUp opts ''the ADBC driver manager's loader (AdbcLoadDriver) was not found'' ADBC_STATUS_NOT_FOUND
                | Some dm \<Rightarrow>
                    (case LoadNativeDriver env dm (nt_driver_name t) (do_allow_paths opts \<and> LooksLikePath (Some (nt_driver_name t)))
                            (ScanLoadedObjects env) (ExtraDirs env opts) of
                       Inl why \<Rightarrow> DelegateGiveUp opts why ADBC_STATUS_NOT_FOUND
                     | Inr (version, library, d) \<Rightarrow>
                         if nd_is_self d
                         then DelegateGiveUp opts ''adbc.odbc.delegate.driver resolves to adbcbridge itself; refusing to delegate to this driver''
                                ADBC_STATUS_INVALID_ARGUMENT
                         else HandOver target opts t (version, library, d))))"

section \<open>Options take effect until the decision is made\<close>

definition option_text :: "string \<Rightarrow> string option \<Rightarrow> string" where
  "option_text key v =
     (if key = ''adbc.odbc.delegate.allow_paths'' then (if ParseBool v = Some True then ''true'' else ''false'')
      else case v of None \<Rightarrow> (if key = ''adbc.odbc.delegate'' then ''auto'' else []) | Some s \<Rightarrow> s)"

lemma ParseMode_text:
  "ParseMode v = Some m \<Longrightarrow>
   (if m = ODBC_DELEGATE_NEVER then ''never'' else if m = ODBC_DELEGATE_ALWAYS then ''always'' else ''auto'') = (case v of None \<Rightarrow> ''auto'' | Some s \<Rightarrow> s)"
  by (auto simp: ParseMode_def split: if_splits)

lemma PutPair_map_of: "map_of (PutPair kv key v) = (map_of kv)(key \<mapsto> v)"
  by (induction kv key v rule: PutPair.induct) auto

text \<open>
  An option that is accepted takes effect, and only before the decision: what was set is read back
  (or held for the native driver, under its key); once \<^verbatim>\<open>AdbcDatabaseInit\<close> has run, and for a value or
  a key that cannot be set, nothing changes and the status is an error.
\<close>

theorem SetOption_effective:
  assumes "OdbcDelegateSetOption opts key v = Some (st, opts')"
  shows "if st = ADBC_STATUS_OK
         then \<not> do_initialized opts \<and> \<not> do_initialized opts'
            \<and> (if IsPassThroughKey key then map_of (do_pass opts') = (map_of (do_pass opts))(key \<mapsto> (case v of None \<Rightarrow> [] | Some s \<Rightarrow> s))
               else OdbcDelegateGetOption opts' key = Some (option_text key v) \<and> do_pass opts' = do_pass opts)
         else opts' = opts"
proof -
  have ours: "\<not> IsPassThroughKey ''adbc.odbc.delegate'' \<and> \<not> IsPassThroughKey ''adbc.odbc.delegate.driver''
     \<and> \<not> IsPassThroughKey ''adbc.odbc.delegate.search_path'' \<and> \<not> IsPassThroughKey ''adbc.odbc.delegate.allow_paths''"
    by (simp add: IsPassThroughKey_def starts_with_def)
  consider "key = ''adbc.odbc.delegate.last_error'' \<or> key = ''adbc.odbc.delegated_to'' \<or> do_initialized opts"
    | "\<not> do_initialized opts" "key = ''adbc.odbc.delegate''" | "\<not> do_initialized opts" "key = ''adbc.odbc.delegate.allow_paths''"
    | "\<not> do_initialized opts" "key = ''adbc.odbc.delegate.driver''" | "\<not> do_initialized opts" "key = ''adbc.odbc.delegate.search_path''"
    | "\<not> do_initialized opts" "IsPassThroughKey key" "key \<notin> {''adbc.odbc.delegate'', ''adbc.odbc.delegate.allow_paths'',
         ''adbc.odbc.delegate.driver'', ''adbc.odbc.delegate.search_path'', ''adbc.odbc.delegate.last_error'', ''adbc.odbc.delegated_to''}"
    using assms by (auto simp: OdbcDelegateSetOption_def split: if_splits)
  then show ?thesis
  proof cases
    case 1
    then show ?thesis using assms by (auto simp: OdbcDelegateSetOption_def split: if_splits)
  next
    case 2
    then have "(case ParseMode v of None \<Rightarrow> (ADBC_STATUS_INVALID_ARGUMENT, opts) | Some m \<Rightarrow> (ADBC_STATUS_OK, opts\<lparr>do_mode := m\<rparr>)) = (st, opts')"
      using assms by (simp add: OdbcDelegateSetOption_def)
    then show ?thesis using 2 ours ParseMode_text [of v]
      by (cases "ParseMode v") (auto simp: OdbcDelegateGetOption_def option_text_def)
  next
    case 3
    then have "(case ParseBool v of None \<Rightarrow> (ADBC_STATUS_INVALID_ARGUMENT, opts) | Some b \<Rightarrow> (ADBC_STATUS_OK, opts\<lparr>do_allow_paths := b\<rparr>)) = (st, opts')"
      using assms by (simp add: OdbcDelegateSetOption_def)
    then show ?thesis using 3 ours by (cases "ParseBool v") (auto simp: OdbcDelegateGetOption_def option_text_def)
  next
    case 4
    then show ?thesis using assms ours by (auto simp: OdbcDelegateSetOption_def OdbcDelegateGetOption_def option_text_def)
  next
    case 5
    then show ?thesis using assms ours by (auto simp: OdbcDelegateSetOption_def OdbcDelegateGetOption_def option_text_def)
  next
    case 6
    then show ?thesis using assms by (auto simp: OdbcDelegateSetOption_def AddPassThrough_def PutPair_map_of split: if_splits)
  qed
qed

section \<open>What the hand-over can end in\<close>

lemma foldl_SetNative:
  "fst (foldl (SetNative d) s kvs) = ADBC_STATUS_OK \<Longrightarrow> fst s = ADBC_STATUS_OK \<and> snd (foldl (SetNative d) s kvs) = snd s @ kvs"
proof (induction kvs arbitrary: s)
  case (Cons kv kvs)
  from Cons.IH [of "SetNative d s kv"] Cons.prems show ?case by (auto simp: SetNative_def split: if_splits)
qed simp

lemma SetUpNative_ok:
  assumes "SetUpNative d target t pass = ((ADBC_STATUS_OK, sets), False)"
  shows "\<exists>before. sets = before @ pass"
proof -
  obtain s why where c: "SetCredentials d target t (SetNative d (nd_new d, []) (''uri'', nt_uri t)) = (s, why)" by (metis surj_pair)
  have "fst (foldl (SetNative d) s pass) = ADBC_STATUS_OK \<and> sets = snd (foldl (SetNative d) s pass)"
    using assms by (auto simp: SetUpNative_def Let_def c split: if_splits)
  then show ?thesis using foldl_SetNative by blast
qed

lemma DelegateGiveUp_simps:
  "DelegateGiveUp opts why code = (st, opts', proxy) \<longleftrightarrow>
     proxy = None \<and> opts' = opts\<lparr>do_last_error := Some why, do_delegated_to := Some ''odbc''\<rparr>
     \<and> st = (if do_mode opts = ODBC_DELEGATE_ALWAYS then code else ADBC_STATUS_OK)"
  by (auto simp: DelegateGiveUp_def)

definition same_choice :: "OdbcDelegateOptions \<Rightarrow> OdbcDelegateOptions \<Rightarrow> bool" where
  "same_choice opts opts' \<longleftrightarrow>
     opts' = opts\<lparr>do_initialized := True, do_last_error := do_last_error opts', do_delegated_to := do_delegated_to opts'\<rparr>"

text \<open>How a delegation attempt may end: with a proxy, or on ODBC.\<close>

definition outcome_ok :: "OdbcDelegateOptions \<Rightarrow> bool \<Rightarrow> status \<times> OdbcDelegateOptions \<times> OdbcDelegateProxy option \<Rightarrow> bool" where
  "outcome_ok opts verbatim res \<longleftrightarrow>
     (case res of (st, opts', proxy) \<Rightarrow>
        same_choice opts opts' \<and>
        (case proxy of
           Some p \<Rightarrow> st = ADBC_STATUS_OK \<and> do_delegated_to opts' = Some (px_name p) \<and> (\<exists>before. px_options p = before @ do_pass opts)
         | None \<Rightarrow> do_delegated_to opts' = Some ''odbc'' \<and> do_last_error opts' \<noteq> None
                 \<and> (do_mode opts = ODBC_DELEGATE_ALWAYS \<longrightarrow> st \<noteq> ADBC_STATUS_OK)
                 \<and> (do_mode opts \<noteq> ODBC_DELEGATE_ALWAYS \<and> \<not> verbatim \<longrightarrow> st = ADBC_STATUS_OK)))"

lemma outcome_give_up:
  "code \<noteq> ADBC_STATUS_OK \<Longrightarrow> outcome_ok opts verbatim (DelegateGiveUp (opts\<lparr>do_initialized := True\<rparr>) why code)"
  by (simp add: outcome_ok_def DelegateGiveUp_def same_choice_def)

lemma outcome_HandOver: "outcome_ok opts (nt_uri_verbatim t) (HandOver target (opts\<lparr>do_initialized := True\<rparr>) t loaded)"
proof -
  obtain version library d where l: "loaded = (version, library, d)" by (metis surj_pair)
  obtain status sets why where s: "SetUpNative d target t (do_pass opts) = ((status, sets), why)" by (metis surj_pair)
  show ?thesis
  proof (cases "status \<noteq> ADBC_STATUS_OK \<or> why")
    case True
    show ?thesis
    proof (cases "nt_uri_verbatim t")
      case v: True
      then show ?thesis using True by (auto simp: HandOver_def l s Let_def outcome_ok_def same_choice_def)
    next
      case False
      have "(if why \<and> status = ADBC_STATUS_OK then ADBC_STATUS_INVALID_ARGUMENT else status) \<noteq> ADBC_STATUS_OK" using True by auto
      from outcome_give_up [OF this] show ?thesis using True False by (simp add: HandOver_def l s Let_def)
    qed
  next
    case False
    then obtain before where "sets = before @ do_pass opts" using SetUpNative_ok [of d target t "do_pass opts" sets] s by auto
    then have ok: "outcome_ok opts v (ADBC_STATUS_OK, opts\<lparr>do_initialized := True, do_delegated_to := Some (nt_driver_name t)\<rparr>,
        Some \<lparr>px_library = library, px_version = version, px_name = nt_driver_name t, px_options = sets\<rparr>)" for v
      by (simp add: outcome_ok_def same_choice_def)
    then show ?thesis using False outcome_give_up [of ADBC_STATUS_IO opts]
      by (auto simp: HandOver_def l s Let_def split: option.split)
  qed
qed

lemma DetectNative_verbatim:
  "DetectNative ini target opts = Inr t \<Longrightarrow> nt_uri_verbatim t \<longleftrightarrow> OdbcDelegateIsNativeUri (dt_connection_string target)"
  by (auto simp: DetectNative_def OdbcDelegateIsNativeUri_def Let_def split: prod.splits if_splits sum.splits)

text \<open>
  C34. Every delegation attempt ends in one of the ways the mode allows.  Either a native driver took
  the database, with success, under its own name and with every held option set; or the database
  stays on ODBC, with the reason recorded.  \<^verbatim>\<open>always\<close> never falls back silently, \<^verbatim>\<open>never\<close> never
  delegates, and \<^verbatim>\<open>auto\<close> never fails a connection that did not name a native URI, unless it names a
  path without the permission to.
\<close>

theorem TryInit_outcome:
  "outcome_ok opts (OdbcDelegateIsNativeUri (dt_connection_string target) \<or> PathOffender opts) (OdbcDelegateTryInit env ini loader target opts)
   \<and> (do_mode opts = ODBC_DELEGATE_NEVER \<or> PathOffender opts \<longrightarrow> snd (snd (OdbcDelegateTryInit env ini loader target opts)) = None)"
proof (cases "do_mode opts = ODBC_DELEGATE_NEVER \<or> PathOffender opts")
  case True
  moreover have "PathOffender (opts\<lparr>do_initialized := True\<rparr>) = PathOffender opts" by (simp add: PathOffender_def)
  ultimately show ?thesis by (auto simp: OdbcDelegateTryInit_def Let_def outcome_ok_def same_choice_def)
next
  case False
  have p: "PathOffender (opts\<lparr>do_initialized := True\<rparr>) = PathOffender opts" by (simp add: PathOffender_def)
  have "outcome_ok opts (OdbcDelegateIsNativeUri (dt_connection_string target)) (OdbcDelegateTryInit env ini loader target opts)"
  proof (cases "DetectNative ini target (opts\<lparr>do_initialized := True\<rparr>)")
    case (Inr t)
    have v: "nt_uri_verbatim t = OdbcDelegateIsNativeUri (dt_connection_string target)" by (rule DetectNative_verbatim [OF Inr])
    show ?thesis using False Inr outcome_HandOver [of opts t target] v
      by (auto simp: OdbcDelegateTryInit_def p Let_def outcome_give_up split: option.split sum.split)
  qed (use False in \<open>simp add: OdbcDelegateTryInit_def p outcome_give_up\<close>)
  then show ?thesis using False by simp
qed

section \<open>Which library can be loaded\<close>

lemma foldl_StrListAdd: "set (foldl StrListAdd l cs) \<subseteq> set l \<union> {c. Some c \<in> set cs}"
proof (induction cs arbitrary: l)
  case (Cons c cs)
  have "set (StrListAdd l c) \<subseteq> set l \<union> {x. c = Some x}" by (auto simp: StrListAdd_def split: option.splits)
  then show ?case using Cons.IH [of "StrListAdd l c"] by auto
qed simp

text \<open>
  The libraries a bare driver name may resolve to: what a manifest names, a file that exists and that
  only root or the user can write, a file in a nominated directory, and the bare names that are left
  to the dynamic loader.
\<close>

definition allowed_library :: "os \<Rightarrow> string \<Rightarrow> string list \<Rightarrow> string \<Rightarrow> bool" where
  "allowed_library env nm extra c \<longleftrightarrow>
     (\<exists>dir \<in> set (ManifestDirs env extra). ManifestCandidate env nm dir = Some c)
     \<or> os_readable env c \<and> PathIsTrusted env c
     \<or> os_readable env c \<and> (\<exists>dir \<in> set extra. c \<in> path_buf ` set (DirPaths nm dir))
     \<or> c \<in> {path_buf (''libadbc_driver_'' @ nm @ ''.so''), path_buf (''libadbc_driver_'' @ nm @ ''.dylib''), nm}"

lemma NativeDriverCandidates_allowed:
  assumes "c \<in> set (NativeDriverCandidates env nm False scan extra)"
  shows "allowed_library env nm extra c"
proof -
  have usable: "IfUsable env derived p = Some c \<Longrightarrow> os_readable env c \<and> c = path_buf p \<and> (derived \<longrightarrow> PathIsTrusted env c)" for derived p
    by (auto simp: IfUsable_def Let_def split: if_splits)
  have in_map: "Some c \<in> set (map f xs) \<longleftrightarrow> (\<exists>x \<in> set xs. f x = Some c)" for f :: "'b \<Rightarrow> string option" and xs
    by (auto simp: image_iff) metis
  have in_concat: "p \<in> set (concat (map g xs)) \<longleftrightarrow> (\<exists>x \<in> set xs. p \<in> set (g x))" for g :: "'b \<Rightarrow> 'c list" and xs p
    by auto
  let ?dirs = "los_dirs scan" and ?parents = "los_parents scan"
  have "c \<in> {c. Some c \<in> set (map (ManifestCandidate env nm) (ManifestDirs env extra)
           @ map (IfUsable env True) (concat (map (WheelPaths nm) ?dirs)) @ map (IfUsable env True) (concat (map (WheelPaths nm) ?parents))
           @ map (IfUsable env False) (concat (map (DirPaths nm) extra)) @ map (IfUsable env True) (concat (map (DirPaths nm) ?dirs))
           @ [Some (path_buf (''libadbc_driver_'' @ nm @ ''.so'')), Some (path_buf (''libadbc_driver_'' @ nm @ ''.dylib'')), Some nm])}"
    using assms foldl_StrListAdd [of "[]"] unfolding NativeDriverCandidates_def if_False list.set Un_empty_left by (rule subsetD [rotated])
  then consider dir where "dir \<in> set (ManifestDirs env extra)" "ManifestCandidate env nm dir = Some c"
    | p where "IfUsable env True p = Some c"
    | p dir where "dir \<in> set extra" "p \<in> set (DirPaths nm dir)" "IfUsable env False p = Some c"
    | "c \<in> {path_buf (''libadbc_driver_'' @ nm @ ''.so''), path_buf (''libadbc_driver_'' @ nm @ ''.dylib''), nm}"
    unfolding mem_Collect_eq set_append Un_iff in_map Bex_def in_concat list.set insert_iff empty_iff option.inject by blast
  then show ?thesis
  proof cases
    case 1
    then show ?thesis unfolding allowed_library_def by blast
  next
    case 2
    then show ?thesis using usable unfolding allowed_library_def by blast
  next
    case 3
    then show ?thesis using usable [OF 3(3)] unfolding allowed_library_def by blast
  next
    case 4
    then show ?thesis unfolding allowed_library_def by blast
  qed
qed

lemma LoadLoop_tried: "LoadLoop dm tries = Some (v, c, d) \<Longrightarrow> (v, c) \<in> set tries \<and> dm_load dm c v = Some d"
  by (induction dm tries rule: LoadLoop.induct) (auto split: option.splits)

lemma DetectNative_name:
  assumes "DetectNative ini target opts = Inr t" "\<not> LooksLikePath (do_driver opts)"
  shows "\<not> LooksLikePath (Some (nt_driver_name t))"
proof (cases "given (do_driver opts)")
  case True
  then have "nt_driver_name t = the (do_driver opts)" using assms(1)
    by (auto simp: DetectNative_def Let_def split: prod.splits if_splits sum.splits)
  then show ?thesis using assms(2) True by (cases "do_driver opts") (simp_all add: given_def)
next
  case False
  have bare: "family \<noteq> FAMILY_NONE \<Longrightarrow> \<not> LooksLikePath (Some (the (FamilyDriverName family)))" for family
    by (cases family) (simp_all add: LooksLikePath_def isalnum_def is_digit_def)
  note bare [of FAMILY_SQLITE] bare [of FAMILY_DUCKDB]
  with False show ?thesis using assms(1) bare
    by (auto simp: DetectNative_def Let_def split: prod.splits if_splits sum.splits)
qed

text \<open>
  C18. Without the explicit permission, no option can make this driver load a library by its path.  If
  a native driver was loaded, its name is a bare one, and the library is one a bare name may resolve
  to, with no directory but those of the environment, and with a raised privilege none at all.
\<close>

theorem TryInit_library_allowed:
  assumes "OdbcDelegateTryInit env ini (Some dm) target opts = (st, opts', Some p)" "\<not> do_allow_paths opts"
  shows "\<not> LooksLikePath (Some (px_name p)) \<and> dm_load dm (px_library p) (px_version p) \<noteq> None
       \<and> allowed_library env (px_name p) (if os_secure env then [] else AddPathListOpt [] (os_env env ''ADBC_ODBC_DELEGATE_PATH'')) (px_library p)"
proof -
  let ?o = "opts\<lparr>do_initialized := True\<rparr>"
  have gate: "do_mode opts \<noteq> ODBC_DELEGATE_NEVER" "\<not> PathOffender ?o"
    using assms(1) by (auto simp: OdbcDelegateTryInit_def Let_def split: if_splits)
  note run = assms(1) [unfolded OdbcDelegateTryInit_def Let_def option.case]
  obtain t where t: "DetectNative ini target ?o = Inr t"
    using run gate by (cases "DetectNative ini target ?o") (simp_all add: DelegateGiveUp_simps)
  let ?load = "LoadNativeDriver env dm (nt_driver_name t) False (ScanLoadedObjects env) (ExtraDirs env ?o)"
  have r: "(case ?load of Inl why \<Rightarrow> DelegateGiveUp ?o why ADBC_STATUS_NOT_FOUND
       | Inr (version, library, d) \<Rightarrow>
           if nd_is_self d then DelegateGiveUp ?o ''adbc.odbc.delegate.driver resolves to adbcbridge itself; refusing to delegate to this driver'' ADBC_STATUS_INVALID_ARGUMENT
           else HandOver target ?o t (version, library, d)) = (st, opts', Some p)"
    using run gate assms(2) by (simp add: t)
  obtain version library d where l: "?load = Inr (version, library, d)"
    using r by (cases ?load) (auto simp: DelegateGiveUp_simps)
  have h: "HandOver target ?o t (version, library, d) = (st, opts', Some p)"
    using r by (simp add: l DelegateGiveUp_simps split: if_splits)
  have p: "px_name p = nt_driver_name t" "px_library p = library" "px_version p = version"
    using h by (auto simp: HandOver_def Let_def DelegateGiveUp_simps split: prod.splits if_splits option.splits)
  have "\<not> LooksLikePath (do_driver ?o)" using gate(2) assms(2) by (simp add: PathOffender_def)
  then have "\<not> LooksLikePath (Some (px_name p))" using DetectNative_name [OF t] p by simp
  moreover have "library \<in> set (NativeDriverCandidates env (nt_driver_name t) False (ScanLoadedObjects env) (ExtraDirs env ?o))
      \<and> dm_load dm library version = Some d"
    using l by (auto dest!: LoadLoop_tried simp: LoadNativeDriver_def Let_def split: option.splits)
  moreover have "ExtraDirs env ?o = (if os_secure env then [] else AddPathListOpt [] (os_env env ''ADBC_ODBC_DELEGATE_PATH''))"
    using assms(2) by (simp add: ExtraDirs_def)
  ultimately show ?thesis using NativeDriverCandidates_allowed p by auto
qed

lemma secure_first_candidate:
  assumes "os_secure env" "os_env env ''XDG_CONFIG_HOME'' = Some home" "home \<noteq> []"
    and "ManifestCandidate env nm (path_buf (home @ ''/adbc/drivers'')) = Some library" "library \<noteq> []"
  shows "NativeDriverCandidates env nm False scan extra \<noteq> [] \<and> hd (NativeDriverCandidates env nm False scan extra) = library"
proof -
  have keep: "l \<noteq> [] \<Longrightarrow> foldl (\<lambda>l d. StrListAdd l (f d)) l ds \<noteq> [] \<and> hd (foldl (\<lambda>l d. StrListAdd l (f d)) l ds) = hd l"
    for l and f :: "'b \<Rightarrow> string option" and ds
  proof (induction ds arbitrary: l)
    case (Cons d ds)
    have "StrListAdd l (f d) \<noteq> [] \<and> hd (StrListAdd l (f d)) = hd l" using Cons.prems by (auto simp: StrListAdd_def split: option.split)
    then show ?case using Cons.IH [of "StrListAdd l (f d)"] by simp
  qed simp
  let ?first = "path_buf (home @ ''/adbc/drivers'')"
  have ne: "?first \<noteq> []" using assms(3) by (cases home) (simp_all add: path_buf_def)
  have "ManifestDirs env extra \<noteq> [] \<and> hd (ManifestDirs env extra) = ?first"
    using assms(1-3) ne keep [of "StrListAdd (StrListAdd [] (Some ?first)) (Some ''/etc/adbc/drivers'')" Some extra]
    by (auto simp: ManifestDirs_def given_def Let_def StrListAdd_def split: if_splits)
  then obtain dirs where dirs: "ManifestDirs env extra = ?first # dirs" by (cases "ManifestDirs env extra") auto
  have "StrListAdd [] (Some library) = [library]" using assms(5) by (simp add: StrListAdd_def)
  moreover have h: "foldl StrListAdd [library] ds \<noteq> [] \<and> hd (foldl StrListAdd [library] ds) = library" for ds using keep [of "[library]" id] by simp
  ultimately show ?thesis
    unfolding NativeDriverCandidates_def dirs if_False list.map append_Cons foldl_Cons assms(4) by (simp only: h simp_thms)
qed


section \<open>Examples\<close>

text \<open>
  A privileged process whose \<^verbatim>\<open>XDG_CONFIG_HOME\<close> is \<^verbatim>\<open>/x\<close>, with a manifest there; a manager that loads
  the bare library name, as a driver that accepts everything.
\<close>

definition demo_manifest :: string where "demo_manifest = ''/x/adbc/drivers/postgresql.toml''"

definition demo_os :: os where
  "demo_os = \<lparr>os_env = [''XDG_CONFIG_HOME'' \<mapsto> ''/x''], os_secure = True, os_euid = 0, os_readable = (\<lambda>p. p = demo_manifest),
     os_stat = (\<lambda>p. None), os_lines = [demo_manifest \<mapsto> [''[Driver]'', ''shared = '' @ [CHR 0x22] @ ''/x/lib.so'' @ [CHR 0x22]]],
     os_objects = [], os_platform = ''linux_amd64''\<rparr>"

definition demo_manager :: manager where
  "demo_manager = \<lparr>dm_load = (\<lambda>c v. Some \<lparr>nd_is_self = False, nd_new = ADBC_STATUS_OK, nd_set = (\<lambda>sets k v. ADBC_STATUS_OK),
       nd_init = (\<lambda>sets. ADBC_STATUS_OK), nd_message = (\<lambda>sets. None), nd_probe = (\<lambda>sets. None)\<rparr>), dm_error = []\<rparr>"

definition demo_target :: OdbcDelegateTarget where
  "demo_target = \<lparr>dt_connection_string = Some ''postgresql://db/x'', dt_dsn = None, dt_username = None, dt_password = None\<rparr>"

definition demo_ini :: profile where "demo_ini = \<lparr>ini_names = (\<lambda>s f. None), ini_value = (\<lambda>d k. [])\<rparr>"

lemma demo_manifest_library: "ManifestCandidate demo_os ''postgresql'' (path_buf (''/x'' @ ''/adbc/drivers'')) = Some ''/x/lib.so''"
  by (simp add: ManifestCandidate_def path_buf_def demo_os_def demo_manifest_def ManifestLibraryPath_def ManifestLine_def is_blank_def upto_def
      behind_def TrimBlanks_def to_lower_def Let_def)


theorem SetOption_effective_witness:
  "OdbcDelegateGetOption ((OdbcDelegateOptionsInit demo_os)\<lparr>do_mode := ODBC_DELEGATE_ALWAYS\<rparr>) ''adbc.odbc.delegate'' = Some ''always''"
  using SetOption_effective [of "OdbcDelegateOptionsInit demo_os" "''adbc.odbc.delegate''" "Some ''always''" ADBC_STATUS_OK
      "(OdbcDelegateOptionsInit demo_os)\<lparr>do_mode := ODBC_DELEGATE_ALWAYS\<rparr>"]
  by (simp add: OdbcDelegateSetOption_def ParseMode_def OdbcDelegateOptionsInit_def demo_os_def IsPassThroughKey_def starts_with_def option_text_def)

theorem TryInit_outcome_witness:
  "snd (snd (OdbcDelegateTryInit demo_os demo_ini (Some demo_manager) demo_target
     ((OdbcDelegateOptionsInit demo_os)\<lparr>do_mode := ODBC_DELEGATE_NEVER\<rparr>))) = None"
  using TryInit_outcome [of "(OdbcDelegateOptionsInit demo_os)\<lparr>do_mode := ODBC_DELEGATE_NEVER\<rparr>" demo_target demo_os demo_ini "Some demo_manager"]
  by simp

lemma demo_load:
  "LoadNativeDriver demo_os demo_manager ''postgresql'' False scan extra = Inr (1001000, ''/x/lib.so'', the (dm_load demo_manager ''/x/lib.so'' 1001000))"
proof -
  have "NativeDriverCandidates demo_os ''postgresql'' False scan extra \<noteq> [] \<and> hd (NativeDriverCandidates demo_os ''postgresql'' False scan extra) = ''/x/lib.so''"
    using secure_first_candidate [OF _ _ _ demo_manifest_library] by (simp add: demo_os_def)
  then obtain cs where "NativeDriverCandidates demo_os ''postgresql'' False scan extra = ''/x/lib.so'' # cs"
    by (metis list.exhaust_sel)
  then show ?thesis by (simp add: LoadNativeDriver_def demo_manager_def)
qed

lemma demo_detect:
  "DetectNative demo_ini demo_target opts = Inr \<lparr>nt_driver_name = ''postgresql'', nt_uri = ''postgresql://db/x'', nt_uri_verbatim = True, nt_family = FAMILY_POSTGRESQL\<rparr>"
  if "do_driver opts = None"
  using that by (simp add: DetectNative_def demo_target_def FamilyFromUri_def isalnum_def is_digit_def given_def Let_def)

lemma demo_delegated:
  "snd (snd (OdbcDelegateTryInit demo_os demo_ini (Some demo_manager) demo_target (OdbcDelegateOptionsInit demo_os)))
   = Some \<lparr>px_library = ''/x/lib.so'', px_version = 1001000, px_name = ''postgresql'', px_options = [(''uri'', ''postgresql://db/x'')]\<rparr>"
proof -
  have o: "do_mode (OdbcDelegateOptionsInit demo_os) = ODBC_DELEGATE_AUTO" "do_driver (OdbcDelegateOptionsInit demo_os) = None"
    "do_search_path (OdbcDelegateOptionsInit demo_os) = None" "do_pass (OdbcDelegateOptionsInit demo_os) = []"
    "\<not> do_allow_paths (OdbcDelegateOptionsInit demo_os)"
    by (simp_all add: OdbcDelegateOptionsInit_def demo_os_def)
  have d: "nd_is_self d = False" "nd_new d = ADBC_STATUS_OK" "nd_set d = (\<lambda>sets k v. ADBC_STATUS_OK)" "nd_init d = (\<lambda>sets. ADBC_STATUS_OK)"
    if "d = the (dm_load demo_manager ''/x/lib.so'' 1001000)" for d
    using that by (simp_all add: demo_manager_def)
  have t: "dt_username demo_target = None" "dt_password demo_target = None" by (simp_all add: demo_target_def)
  show ?thesis
    by (simp add: OdbcDelegateTryInit_def Let_def o PathOffender_def LooksLikePath_def given_def demo_detect demo_load HandOver_def
        SetUpNative_def SetCredentials_def SetNative_def d t)
qed

theorem TryInit_library_allowed_witness:
  "\<not> LooksLikePath (Some ''postgresql'') \<and> allowed_library demo_os ''postgresql'' [] ''/x/lib.so''"
proof -
  obtain st opts' where r: "OdbcDelegateTryInit demo_os demo_ini (Some demo_manager) demo_target (OdbcDelegateOptionsInit demo_os)
      = (st, opts', Some \<lparr>px_library = ''/x/lib.so'', px_version = 1001000, px_name = ''postgresql'', px_options = [(''uri'', ''postgresql://db/x'')]\<rparr>)"
    using demo_delegated by (metis surjective_pairing)
  have "\<not> do_allow_paths (OdbcDelegateOptionsInit demo_os)" "os_secure demo_os" by (simp_all add: OdbcDelegateOptionsInit_def demo_os_def)
  then show ?thesis using TryInit_library_allowed [OF r] by simp
qed

section \<open>Credentials of a file-backed database\<close>

text \<open>
  A native SQLite or DuckDB URI built from ODBC keywords does not depend on the user and password: they
  are left out without a word, although the hand-over of a native URI refuses to do that.
\<close>

lemma file_credentials_dropped:
  assumes "family = FAMILY_SQLITE \<or> family = FAMILY_DUCKDB"
  shows "BuildNativeUri ini family conn dsn username password = BuildNativeUri ini family conn dsn None None"
  using assms by (auto simp: BuildNativeUri_def Let_def split: sum.split)

end
