(* ===== verification/ArrayText.thy ===== *)
theory ArrayText
  imports Times
begin

text \<open>
  \<open>ArrayIngestFillColumn\<close> of \<^verbatim>\<open>src/odbc_bind.c\<close>: one column of a batch as the text of one PostgreSQL
  array, \<^verbatim>\<open>{1,NULL,3}\<close>.  A bulk ingest sends such a literal per column and the server expands them side
  by side, so what matters is that a literal says exactly the cells it was made from, and that a value
  that cannot be spelled ends the literal cleanly.

  A cell holds what the Arrow accessors of the code return: an integer for booleans, integers, dates,
  times and timestamps, the unscaled value of a decimal, a string, or a floating-point value of which
  only its class and its \<^verbatim>\<open>%.17g\<close> text (\<open>g17\<close>, the C library's) are used.
\<close>

datatype ingest_type =
    IT_BOOL | IT_INT nat | IT_UINT nat | IT_FLOAT nat | IT_DECIMAL int | IT_DATE32 | IT_TIME time_unit
  | IT_TIMESTAMP time_unit | IT_STRING | IT_BINARY | IT_DICTIONARY | IT_NA | IT_OTHER

datatype 'f float_value = FNaN | FInf bool | FFinite 'f

datatype 'f cell = CNull | CInt int | CFloat "'f float_value" | CText string

section \<open>Element texts\<close>

definition ArrayIngestElemType :: "ingest_type \<Rightarrow> string option" where
  "ArrayIngestElemType ty =
     (case ty of
        IT_BOOL \<Rightarrow> Some ''boolean''
      | IT_INT w \<Rightarrow> Some ''bigint''
      | IT_UINT w \<Rightarrow> Some (if w = 64 then ''numeric'' else ''bigint'')
      | IT_FLOAT w \<Rightarrow> Some ''float8''
      | IT_DECIMAL s \<Rightarrow> Some ''numeric''
      | IT_STRING \<Rightarrow> Some ''text''
      | IT_DATE32 \<Rightarrow> Some ''date''
      | IT_TIME u \<Rightarrow> Some ''time''
      | IT_TIMESTAMP u \<Rightarrow> Some ''timestamp''
      | _ \<Rightarrow> None)"

text \<open>The digits of a decimal with a point put in, as nanoarrow does it.\<close>

definition ArrowDecimalAppendString :: "int \<Rightarrow> int \<Rightarrow> string" where
  "ArrowDecimalAppendString v scale =
     (let ds = fmt_d v;
          neg = (ds \<noteq> [] \<and> hd ds = CHR ''-'');
          sgn = (if neg then ''-'' else []); num = (if neg then tl ds else ds);
          s = nat scale
      in if scale \<le> 0 then ds @ replicate (nat (- scale)) CHR ''0''
         else if length num \<le> s then sgn @ ''0.'' @ replicate (s - length num) CHR ''0'' @ num
         else sgn @ take (length num - s) num @ CHR ''.'' # drop (length num - s) num)"

fun ArrayIngestEscape :: "string \<Rightarrow> string" where
  "ArrayIngestEscape [] = []"
| "ArrayIngestEscape (c # cs) =
     (if c = CHR 0x22 \<or> c = CHR 0x5C then CHR 0x5C # c # ArrayIngestEscape cs else c # ArrayIngestEscape cs)"

definition ArrayIngestAppendQuoted :: "string \<Rightarrow> string" where
  "ArrayIngestAppendQuoted s = CHR 0x22 # ArrayIngestEscape s @ [CHR 0x22]"

definition ADBC_ODBC_ARRAY_INGEST_MAX_BYTES :: nat where
  "ADBC_ODBC_ARRAY_INGEST_MAX_BYTES = 32 * 1024 * 1024"

text \<open>
  One element that is not NULL, \<open>i\<close> being its position and \<open>used\<close> the bytes already in the buffer, the
  separator included.  \<^const>\<open>None\<close> is \<^verbatim>\<open>goto done\<close>: the value is not spelled here.  What \<^verbatim>\<open>snprintf\<close>
  cuts off is cut off.
\<close>

definition ArrayIngestElem :: "('f \<Rightarrow> string) \<Rightarrow> ingest_type \<Rightarrow> nat \<Rightarrow> nat \<Rightarrow> 'f cell \<Rightarrow> string option" where
  "ArrayIngestElem g17 ty i used x =
     (case (ty, x) of
        (IT_BOOL, CInt v) \<Rightarrow> Some (if v \<noteq> 0 then ''t'' else ''f'')
      | (IT_INT w, CInt v) \<Rightarrow> Some (snd (snprintf 22 (fmt_d v)))
      | (IT_UINT w, CInt v) \<Rightarrow> Some (snd (snprintf 22 (fmt_d v)))
      | (IT_FLOAT w, CFloat FNaN) \<Rightarrow> Some ''NaN''
      | (IT_FLOAT w, CFloat (FInf pos)) \<Rightarrow> Some (if pos then ''Infinity'' else ''-Infinity'')
      | (IT_FLOAT w, CFloat (FFinite f)) \<Rightarrow> Some (snd (snprintf 28 (g17 f)))
      | (IT_DECIMAL scale, CInt v) \<Rightarrow> Some (ArrowDecimalAppendString v scale)
      | (IT_DATE32, CInt v) \<Rightarrow>
          (let (y, m, d) = CivilFromDays v
           in if y < 1 \<or> y > 9999 then None
              else Some (snd (snprintf 13 (fmt_0d 4 y @ ''-'' @ fmt_0d 2 m @ ''-'' @ fmt_0d 2 d))))
      | (IT_TIME unit, CInt v) \<Rightarrow> Some (snd (TimeTextFromArrow v unit 20))
      | (IT_TIMESTAMP unit, CInt v) \<Rightarrow>
          (let per_sec = TicksPerSecond unit;
               secs = (if v smod per_sec < 0 then v sdiv per_sec - 1 else v sdiv per_sec)
           in if secs < - 62135596800 \<or> secs > 253402300799 then None
              else Some (snd (TimestampTextFromStruct (TimestampFromArrow v unit) unit 32)))
      | (IT_STRING, CText s) \<Rightarrow>
          (if CHR 0x00 \<in> set s then None
           else if used + length s * 2 + 4 > ADBC_ODBC_ARRAY_INGEST_MAX_BYTES \<and> i > 0 then None
           else Some (ArrayIngestAppendQuoted s))
      | _ \<Rightarrow> None)"

section \<open>The literal\<close>

fun ArrayIngestCells :: "('f \<Rightarrow> string) \<Rightarrow> ingest_type \<Rightarrow> nat \<Rightarrow> string \<Rightarrow> 'f cell list \<Rightarrow> nat \<times> string" where
  "ArrayIngestCells g17 ty i b [] = (i, b)"
| "ArrayIngestCells g17 ty i b (x # xs) =
     (let b' = (if i > 0 then b @ '','' else b)
      in if x = CNull then ArrayIngestCells g17 ty (Suc i) (b' @ ''NULL'') xs
         else case ArrayIngestElem g17 ty i (length b') x of
                None \<Rightarrow> (i, b)
              | Some e \<Rightarrow> ArrayIngestCells g17 ty (Suc i) (b' @ e) xs)"

definition ArrayIngestFillColumn :: "('f \<Rightarrow> string) \<Rightarrow> ingest_type \<Rightarrow> 'f cell list \<Rightarrow> nat \<times> string" where
  "ArrayIngestFillColumn g17 ty xs =
     (if ArrayIngestElemType ty = None then (0, ''{}'')
      else let (fit, b) = ArrayIngestCells g17 ty 0 ''{'' xs in (fit, b @ ''}''))"
section \<open>What a literal says\<close>

text \<open>
  The array input syntax of PostgreSQL, as far as the literals above go: elements between braces,
  separated by commas; a quoted element is everything up to the closing quote, a backslash taking the
  next character as it is; an unquoted element is a plain word, \<^verbatim>\<open>NULL\<close> in any case being the null value.
  White space around a plain word would be dropped, so a word that begins or ends with it is not read
  here at all.
\<close>

fun read_quoted :: "string \<Rightarrow> (string \<times> string) option" where
  "read_quoted [] = None"
| "read_quoted (c # cs) =
     (if c = CHR 0x22 then Some ([], cs)
      else if c = CHR 0x5C then
        (case cs of [] \<Rightarrow> None | d # ds \<Rightarrow> map_option (\<lambda>(t, r). (d # t, r)) (read_quoted ds))
      else map_option (\<lambda>(t, r). (c # t, r)) (read_quoted cs))"

definition plain_char :: "char \<Rightarrow> bool" where
  "plain_char c \<longleftrightarrow> c \<noteq> CHR '','' \<and> c \<noteq> CHR ''{'' \<and> c \<noteq> CHR ''}'' \<and> c \<noteq> CHR 0x22 \<and> c \<noteq> CHR 0x5C"

definition plain_word :: "string \<Rightarrow> bool" where
  "plain_word t \<longleftrightarrow> t \<noteq> [] \<and> list_all plain_char t \<and> hd t \<noteq> CHR '' '' \<and> last t \<noteq> CHR '' ''"

definition read_element :: "string \<Rightarrow> (string option \<times> string) option" where
  "read_element s =
     (if s \<noteq> [] \<and> hd s = CHR 0x22 then map_option (\<lambda>(t, r). (Some t, r)) (read_quoted (tl s))
      else let t = takeWhile plain_char s; r = dropWhile plain_char s
           in if \<not> plain_word t then None
              else Some (if map to_lower t = ''null'' then None else Some t, r))"

fun read_elements :: "nat \<Rightarrow> string \<Rightarrow> string option list option" where
  "read_elements 0 s = None"
| "read_elements (Suc k) s =
     (case read_element s of
        Some (e, c # r) \<Rightarrow>
          if c = CHR '','' then map_option (Cons e) (read_elements k r)
          else if c = CHR ''}'' \<and> r = [] then Some [e] else None
      | _ \<Rightarrow> None)"

definition read_array :: "string \<Rightarrow> string option list option" where
  "read_array s =
     (if s = ''{}'' then Some []
      else if s \<noteq> [] \<and> hd s = CHR ''{'' then read_elements (length s) (tl s) else None)"

text \<open>What a cell means: nothing, its characters, or the text its type gives it.\<close>

definition cell_says :: "('f \<Rightarrow> string) \<Rightarrow> ingest_type \<Rightarrow> 'f cell \<Rightarrow> string option" where
  "cell_says g17 ty x =
     (case x of
        CNull \<Rightarrow> None
      | CText s \<Rightarrow> Some s
      | CFloat (FFinite f) \<Rightarrow> Some (g17 f)
      | CInt v \<Rightarrow> (case ty of IT_INT w \<Rightarrow> Some (fmt_d v) | IT_UINT w \<Rightarrow> Some (fmt_d v) | _ \<Rightarrow> ArrayIngestElem g17 ty 0 0 x)
      | _ \<Rightarrow> ArrayIngestElem g17 ty 0 0 x)"

text \<open>Values the Arrow column can hold, and a number the C library prints as a word that fits.\<close>

definition cell_fits :: "('f \<Rightarrow> string) \<Rightarrow> ingest_type \<Rightarrow> 'f cell \<Rightarrow> bool" where
  "cell_fits g17 ty x \<longleftrightarrow>
     (case x of
        CInt v \<Rightarrow> (case ty of IT_UINT w \<Rightarrow> 0 \<le> v \<and> v \<le> UINT64_MAX | IT_DECIMAL s \<Rightarrow> True
                   | IT_DATE32 \<Rightarrow> INT32_MIN \<le> v \<and> v \<le> INT32_MAX | _ \<Rightarrow> is_s64 v)
      | CFloat (FFinite f) \<Rightarrow> plain_word (g17 f) \<and> length (g17 f) < 28 \<and> map to_lower (g17 f) \<noteq> ''null''
      | _ \<Rightarrow> True)"

section \<open>Reading elements back\<close>

lemma read_quoted_escape [simp]: "read_quoted (ArrayIngestEscape s @ CHR 0x22 # r) = Some (s, r)"
  by (induction s) auto

lemma read_element_quoted: "read_element (ArrayIngestAppendQuoted s @ r) = Some (Some s, r)"
  by (simp add: read_element_def ArrayIngestAppendQuoted_def)

lemma plain_word_split:
  assumes "plain_word t" "r \<noteq> []" "\<not> plain_char (hd r)"
  shows "takeWhile plain_char (t @ r) = t" "dropWhile plain_char (t @ r) = r"
proof -
  have "\<forall>x \<in> set t. plain_char x" using assms(1) by (simp add: plain_word_def list_all_iff)
  moreover have "takeWhile plain_char r = []" "dropWhile plain_char r = r" using assms(2,3) by (cases r; simp)+
  ultimately show "takeWhile plain_char (t @ r) = t" "dropWhile plain_char (t @ r) = r"
    by (simp_all add: takeWhile_append2 dropWhile_append2)
qed

lemma read_element_word:
  assumes "plain_word t" "r \<noteq> []" "\<not> plain_char (hd r)"
  shows "read_element (t @ r) = Some (if map to_lower t = ''null'' then None else Some t, r)"
proof -
  have "hd (t @ r) \<noteq> CHR 0x22"
    using assms(1) by (cases t) (auto simp: plain_word_def plain_char_def)
  then show ?thesis
    unfolding read_element_def plain_word_split [OF assms] Let_def using assms(1) by simp
qed

lemma not_plain [simp]: "\<not> plain_char CHR '',''" "\<not> plain_char CHR ''}''"
  by (simp_all add: plain_char_def)

text \<open>An element text \<open>e\<close> and what it says: the contract between the renderer and the reader.\<close>

definition says :: "string \<Rightarrow> string option \<Rightarrow> bool" where
  "says e v \<longleftrightarrow> (\<forall>r. r \<noteq> [] \<longrightarrow> \<not> plain_char (hd r) \<longrightarrow> read_element (e @ r) = Some (v, r))"

lemma says_quoted: "says (ArrayIngestAppendQuoted s) (Some s)"
  by (simp add: says_def read_element_quoted)

lemma says_word: "plain_word t \<Longrightarrow> map to_lower t \<noteq> ''null'' \<Longrightarrow> says t (Some t)"
  by (simp add: says_def read_element_word)

lemma says_null: "says ''NULL'' None"
proof -
  have "plain_word ''NULL''" by code_simp
  moreover have "map to_lower ''NULL'' = ''null''" by code_simp
  ultimately show ?thesis using read_element_word [of "''NULL''"] by (simp add: says_def)
qed

fun joined :: "nat \<Rightarrow> string list \<Rightarrow> string" where
  "joined i [] = []"
| "joined i (e # es) = (if i > 0 then '','' else []) @ e @ joined (Suc i) es"

lemma read_elements_joined:
  assumes "list_all2 says (e # es) (v # vs)" "length es < k" "0 < i"
  shows "read_elements k (e @ joined i es @ ''}'') = Some (v # vs)"
  using assms
proof (induction es arbitrary: e v vs k i)
  case Nil
  then obtain m where "k = Suc m" by (cases k) auto
  with Nil show ?case by (auto simp: says_def)
next
  case (Cons e' es)
  then obtain m where k: "k = Suc m" by (cases k) auto
  obtain v' vs' where v: "vs = v' # vs'" "list_all2 says (e' # es) (v' # vs')" "says e v"
    using Cons.prems(1) by (cases vs) auto
  have "read_element (e @ CHR '','' # (e' @ joined (Suc i) es @ ''}'')) = Some (v, CHR '','' # (e' @ joined (Suc i) es @ ''}''))"
    using v(3) by (simp add: says_def)
  moreover have "read_elements m (e' @ joined (Suc i) es @ ''}'') = Some (v' # vs')"
    using Cons.IH [OF v(2)] Cons.prems(2) k by simp
  ultimately show ?case using Cons.prems(3) by (simp add: k v(1))
qed

lemma length_joined: "list_all (\<lambda>e. e \<noteq> []) es \<Longrightarrow> length es \<le> length (joined i es)"
proof (induction es arbitrary: i)
  case (Cons e es)
  have "length es \<le> length (joined (Suc i) es)" "0 < length e" using Cons by auto
  then show ?case by (cases e) simp_all
qed simp

lemma says_nonempty: "says e v \<Longrightarrow> e \<noteq> []"
proof
  assume "says e v" "e = []"
  then have "read_element ''}'' = Some (v, ''}'')" by (simp add: says_def)
  then show False by (simp add: read_element_def plain_word_def plain_char_def)
qed

lemma read_array_joined:
  assumes "list_all2 says es vs"
  shows "read_array (''{'' @ joined 0 es @ ''}'') = Some vs"
proof (cases es)
  case Nil
  with assms show ?thesis by (simp add: read_array_def)
next
  case (Cons e es')
  then obtain v vs' where v: "vs = v # vs'" using assms by (cases vs) auto
  have ne: "list_all (\<lambda>e. e \<noteq> []) es"
    using assms by (auto simp: list_all_length list_all2_conv_all_nth dest: says_nonempty)
  then have "e \<noteq> []" using Cons by simp
  have "length es' \<le> length (joined 1 es')" using ne Cons by (simp add: length_joined)
  then have len: "length es' < length (''{'' @ e @ joined 1 es' @ ''}'')" by simp
  have hd: "''{'' @ e @ joined 1 es' @ ''}'' \<noteq> ''{}''" using \<open>e \<noteq> []\<close> by (cases e) auto
  show ?thesis
    using read_elements_joined [OF assms [unfolded Cons v] len, of 1] hd by (simp add: read_array_def Cons v)
qed
section \<open>Every element is one word\<close>

definition stamp_char :: "char \<Rightarrow> bool" where
  "stamp_char c \<longleftrightarrow> is_digit c \<or> c = CHR ''-'' \<or> c = CHR ''.'' \<or> c = CHR '':'' \<or> c = CHR '' ''"

definition numeric_text :: "string \<Rightarrow> bool" where
  "numeric_text t \<longleftrightarrow> t \<noteq> [] \<and> list_all stamp_char t \<and> (is_digit (hd t) \<or> hd t = CHR ''-'') \<and> is_digit (last t)"

lemma stamp_char_table:
  "\<not> is_digit CHR '',''" "\<not> is_digit CHR ''{''" "\<not> is_digit CHR ''}''" "\<not> is_digit CHR 0x22" "\<not> is_digit CHR 0x5C"
  "\<not> is_digit CHR '' ''" "\<not> is_digit CHR ''n''" "\<not> is_digit CHR ''N''"
  by code_simp+

lemma stamp_char_plain: "stamp_char c \<Longrightarrow> plain_char c"
  unfolding stamp_char_def plain_char_def using stamp_char_table(1-5) by auto

lemma to_lower_digit: "is_digit c \<or> c = CHR ''-'' \<Longrightarrow> to_lower c = c"
proof (erule disjE)
  assume "is_digit c"
  moreover have "\<not> (CHR ''A'' \<le> CHR ''9'')" by code_simp
  ultimately have "\<not> CHR ''A'' \<le> c" unfolding is_digit_def by (meson order_trans)
  then show ?thesis by (simp add: to_lower_def)
qed (simp add: to_lower_def)

lemma numeric_word:
  assumes "numeric_text t"
  shows "plain_word t" "map to_lower t \<noteq> ''null''"
proof -
  show "plain_word t"
    using assms stamp_char_table(6)
    by (auto simp: numeric_text_def plain_word_def list_all_iff stamp_char_plain)
  have "to_lower (hd t) = hd t" "hd t \<noteq> CHR ''n''"
    using assms stamp_char_table(7) by (auto simp: numeric_text_def to_lower_digit)
  then have "hd (map to_lower t) \<noteq> CHR ''n''" using assms by (simp add: numeric_text_def hd_map)
  then show "map to_lower t \<noteq> ''null''" by (metis list.sel(1))
qed

lemma says_numeric: "numeric_text t \<Longrightarrow> says t (Some t)"
  by (simp add: says_word numeric_word)

lemma numeric_append: "numeric_text a \<Longrightarrow> list_all stamp_char m \<Longrightarrow> numeric_text b \<Longrightarrow> numeric_text (a @ m @ b)"
  by (auto simp: numeric_text_def)

lemma stamp_chars [simp]: "stamp_char CHR ''-''" "stamp_char CHR ''.''" "stamp_char CHR '':''" "stamp_char CHR '' ''"
  by (simp_all add: stamp_char_def)

lemma digits_stamp: "list_all is_digit ds \<Longrightarrow> list_all stamp_char ds"
  by (auto simp: list_all_iff stamp_char_def)

lemma digits_numeric: "list_all is_digit ds \<Longrightarrow> ds \<noteq> [] \<Longrightarrow> numeric_text ds"
  unfolding numeric_text_def by (simp add: digits_stamp) (simp add: list_all_iff)

lemma ndigits_numeric: "0 < w \<Longrightarrow> numeric_text (ndigits w n)"
proof (rule digits_numeric [OF digits_ndigits])
  assume "0 < w"
  then show "ndigits w n \<noteq> []" by (metis length_ndigits list.size(3) less_irrefl)
qed

lemma numeric_fraction: "numeric_text t \<Longrightarrow> 0 < w \<Longrightarrow> numeric_text (t @ ''.'' @ ndigits w e)"
  by (rule numeric_append [OF _ _ ndigits_numeric]) simp_all

lemma dec_digits: "list_all is_digit (dec n)" "dec n \<noteq> []"
proof (induction n rule: dec.induct)
  case (1 n)
  { case 1 show ?case using "1.IH" by (subst dec.simps) simp }
  { case 2 show ?case by (subst dec.simps) simp }
qed

lemma fmt_d_numeric: "numeric_text (fmt_d v)"
proof -
  have "numeric_text (dec n)" for n by (simp add: digits_numeric dec_digits)
  moreover from this have "numeric_text (CHR ''-'' # dec n)" for n by (auto simp: numeric_text_def)
  ultimately show ?thesis by (simp add: fmt_d_def)
qed

lemma dec_length: "n < 10 ^ w \<Longrightarrow> 0 < w \<Longrightarrow> length (dec n) \<le> w"
  using dec_ndigits [of n w] by (metis length_append length_ndigits le_add2)

lemma fmt_d_bound:
  assumes "- (10 ^ 19) < v" "v < 10 ^ 20"
  shows "length (fmt_d v) \<le> 20"
proof (cases "v < 0")
  case True
  then have "length (dec (nat (- v))) \<le> 19" using assms by (intro dec_length) (simp_all add: nat_less_iff)
  then show ?thesis using True by (simp add: fmt_d_def)
next
  case False
  then have "length (dec (nat v)) \<le> 20" using assms by (intro dec_length) (simp_all add: nat_less_iff)
  then show ?thesis using False by (simp add: fmt_d_def)
qed

lemma snprintf_whole: "length s < cap \<Longrightarrow> snprintf cap s = (length s, s)"
  by (simp add: snprintf_def)

lemma snprintf_shorter: "snprintf c s = (n, t) \<Longrightarrow> n < c \<Longrightarrow> n < c' \<Longrightarrow> snprintf c' s = (n, t)"
  by (auto simp: snprintf_def)

text \<open>The decimal text once its sign is set apart.\<close>

lemma decimal_shape:
  assumes "num = dec (nat \<bar>v\<bar>)" "sg = (if v < 0 then ''-'' else [])" "s = nat scale"
  shows "ArrowDecimalAppendString v scale =
     sg @ (if scale \<le> 0 then num @ replicate (nat (- scale)) CHR ''0''
            else if length num \<le> s then ''0.'' @ replicate (s - length num) CHR ''0'' @ num
            else take (length num - s) num @ CHR ''.'' # drop (length num - s) num)"
proof (cases "v < 0")
  case True
  then have "fmt_d v = CHR ''-'' # num" using assms(1) by (simp add: fmt_d_def)
  then show ?thesis using True by (simp add: ArrowDecimalAppendString_def Let_def assms(2,3))
next
  case False
  have "\<not> is_digit CHR ''-''" by code_simp
  moreover have "num \<noteq> []" "is_digit (hd num)"
    using dec_digits [of "nat \<bar>v\<bar>"] assms(1) by (auto simp: list_all_iff)
  ultimately have "hd num \<noteq> CHR ''-''" by metis
  moreover have "fmt_d v = num" using False assms(1) by (simp add: fmt_d_def)
  ultimately show ?thesis using False by (simp add: ArrowDecimalAppendString_def Let_def assms(2,3))
qed

lemma decimal_numeric: "numeric_text (ArrowDecimalAppendString v scale)"
proof -
  define num where "num = dec (nat \<bar>v\<bar>)"
  have num: "list_all is_digit num" "num \<noteq> []" by (simp_all add: num_def dec_digits)
  have zeros: "list_all is_digit (replicate k CHR ''0'')" for k
    by (simp add: list_all_iff is_digit_def)
  have signed: "numeric_text ((if v < 0 then ''-'' else []) @ t)" if "numeric_text t" for t
    using that by (auto simp: numeric_text_def)
  have pointed: "numeric_text (a @ CHR ''.'' # b)" if "list_all is_digit a" "a \<noteq> []" "list_all is_digit b" "b \<noteq> []" for a b
    using numeric_append [of a "[CHR ''.'']" b] that by (simp add: digits_numeric)
  have tail: "list_all is_digit (take k num)" "list_all is_digit (drop k num)" for k
    using num(1) by (auto simp: list_all_iff dest: in_set_takeD in_set_dropD)
  have small: "numeric_text (''0.'' @ replicate k CHR ''0'' @ num)" for k
    using pointed [of "''0''" "replicate k CHR ''0'' @ num"] zeros [of 1] zeros num by simp
  have whole: "numeric_text (num @ replicate k CHR ''0'')" for k
    using num zeros by (intro digits_numeric) simp_all
  have cut: "numeric_text (take (length num - s) num @ CHR ''.'' # drop (length num - s) num)"
    if "0 < s" "s < length num" for s
    using that tail by (intro pointed) auto
  show ?thesis
    unfolding decimal_shape [OF num_def refl refl] using small whole cut by (intro signed) (simp split: if_split)
qed
lemma date_numeric:
  assumes "CivilFromDays v = (y, m, d)" "\<not> (y < 1 \<or> y > 9999)" "INT32_MIN \<le> civil_year v" "civil_year v \<le> INT32_MAX"
  shows "numeric_text (snd (snprintf 13 (fmt_0d 4 y @ ''-'' @ fmt_0d 2 m @ ''-'' @ fmt_0d 2 d)))"
proof -
  have "valid_date (CivilFromDays v)" using CivilFromDays_valid [OF assms(3,4)] by (rule conjunct1)
  then have "valid_date (y, m, d)" by (simp only: assms(1))
  then have b: "1 \<le> m" "m \<le> 12" "1 \<le> d" "d \<le> 31"
    by (auto simp: valid_date_def month_days_def split: if_splits)
  have "fmt_0d 4 y @ ''-'' @ fmt_0d 2 m @ ''-'' @ fmt_0d 2 d
      = ndigits 4 (nat y) @ (''-'' @ ndigits 2 (nat m) @ ''-'') @ ndigits 2 (nat d)"
    using assms(2) b by (simp add: fmt_0d_ndigits)
  also have "numeric_text \<dots>"
    by (intro numeric_append ndigits_numeric) (simp_all add: digits_stamp digits_ndigits)
  finally show ?thesis
    using assms(2) b by (simp add: snprintf_def fmt_0d_ndigits)
qed

lemma time_numeric: "numeric_text (snd (TimeTextFromArrow v unit 20))"
proof -
  define full where "full = TimeTextFromArrow v unit 64"
  obtain t where s: "\<And>c. TimeTextFromArrow v unit c = snprintf c t"
    unfolding TimeTextFromArrow_def Let_def
    by (cases "TimeOfDayFromArrow v unit"; cases "FractionalDigits unit = 0"; simp)
  let ?s = "v div TicksPerSecond unit mod 86400" and ?d = "FractionalDigits unit"
  let ?f = "nat (v mod TicksPerSecond unit * 10 ^ ?d div TicksPerSecond unit)"
  have t: "snd full = ndigits 2 (nat (?s div 3600)) @ ('':'' @ ndigits 2 (nat (?s mod 3600 div 60)) @ '':'')
            @ ndigits 2 (nat (?s mod 60)) @ (if ?d = 0 then [] else CHR ''.'' # ndigits ?d ?f)"
    and "fst full = length (snd full)"
    by (simp_all add: full_def TimeText_eq Let_def)
  moreover have "?d \<le> 7" by (cases unit) simp_all
  ultimately have "fst full < 20" by simp
  then have eq: "TimeTextFromArrow v unit 20 = full"
    using snprintf_shorter [of 64 t "fst full" "snd full" 20] by (simp add: s full_def)
  have "numeric_text (ndigits 2 a @ ('':'' @ ndigits 2 b @ '':'') @ ndigits 2 c)" for a b c
    by (intro numeric_append ndigits_numeric) (simp_all add: digits_stamp digits_ndigits)
  moreover from this have "numeric_text ((ndigits 2 a @ ('':'' @ ndigits 2 b @ '':'') @ ndigits 2 c) @ ''.'' @ ndigits ?d e)"
    if "?d \<noteq> 0" for a b c e
    using that by (intro numeric_fraction) simp_all
  ultimately show ?thesis unfolding eq t by (cases "?d = 0") simp_all
qed

lemma timestamp_year:
  assumes "- 62135596800 \<le> v div TicksPerSecond unit" "v div TicksPerSecond unit \<le> 253402300799"
  shows "1 \<le> ts_year v unit" "ts_year v unit \<le> 9999"
proof -
  have "DaysFromCivil 1 1 1 = - 719162" "DaysFromCivil 9999 12 31 = 2932896" by code_simp+
  then have "DaysFromCivil 1 1 1 \<le> ts_day v unit" "ts_day v unit \<le> DaysFromCivil 9999 12 31"
    using assms unfolding ts_day_def by linarith+
  then show "1 \<le> ts_year v unit" "ts_year v unit \<le> 9999"
    using civil_year_bounds [of 1 "ts_day v unit" 9999] by (simp_all add: ts_year_def)
qed

lemma stamp_text_numeric: "numeric_text (stamp_text y mo d h mi sec w F)"
proof -
  have "numeric_text (ndigits 4 y @ (''-'' @ ndigits 2 mo @ ''-'' @ ndigits 2 d @ '' '' @ ndigits 2 h @ '':'' @ ndigits 2 mi @ '':'') @ ndigits 2 sec)"
    by (intro numeric_append ndigits_numeric) (simp_all add: digits_stamp digits_ndigits)
  note head = this
  show ?thesis
  proof (cases "w = 0")
    case True
    with head show ?thesis by (simp add: stamp_text_def frac_text_def)
  next
    case False
    then have "numeric_text ((ndigits 4 y @ (''-'' @ ndigits 2 mo @ ''-'' @ ndigits 2 d @ '' '' @ ndigits 2 h @ '':'' @ ndigits 2 mi @ '':'') @ ndigits 2 sec) @ ''.'' @ ndigits w F)"
      by (intro numeric_fraction head) simp
    with False show ?thesis by (simp add: stamp_text_def frac_text_def)
  qed
qed

lemma timestamp_numeric:
  assumes "- 62135596800 \<le> v div TicksPerSecond unit" "v div TicksPerSecond unit \<le> 253402300799"
  shows "numeric_text (snd (TimestampTextFromStruct (TimestampFromArrow v unit) unit 32))"
proof -
  note y = timestamp_year [OF assms]
  obtain m d where ts: "TimestampFromArrow v unit =
       (let sod = v div TicksPerSecond unit mod 86400
        in \<lparr>year = ts_year v unit, month = m, day = d, hour = sod div 3600,
            minute = sod mod 3600 div 60, second = sod mod 60,
            fraction = v mod TicksPerSecond unit * (1000000000 div TicksPerSecond unit)\<rparr>)"
    and md: "1 \<le> m" "m \<le> 12" "1 \<le> d" "d \<le> 31"
    by (rule TimestampFromArrow_fields [of v unit]) (use y in auto)
  define sod where "sod = v div TicksPerSecond unit mod 86400"
  have sod: "0 \<le> sod" "sod < 86400" by (simp_all add: sod_def)
  have f: "0 \<le> v mod TicksPerSecond unit" "v mod TicksPerSecond unit < TicksPerSecond unit" by simp_all
  note h = hms_parts(4-9) [OF sod] ns_fraction [OF f]
  let ?ts = "TimestampFromArrow v unit"
  obtain t where s: "\<And>c. TimestampTextFromStruct ?ts unit c = snprintf c t"
    unfolding TimestampTextFromStruct_def Let_def by (cases "FractionalDigits unit = 0"; simp)
  have full: "TimestampTextFromStruct ?ts unit 64 =
     (TimestampTextColumnSize unit,
      stamp_text (nat (year ?ts)) (nat (month ?ts)) (nat (day ?ts)) (nat (hour ?ts)) (nat (minute ?ts))
        (nat (second ?ts)) (FractionalDigits unit) (nat (fraction ?ts div 10 ^ (9 - FractionalDigits unit))))"
    unfolding ts Let_def sod_def [symmetric]
    by (rule TimestampText_eq; simp only: TIMESTAMP_STRUCT.select_convs; use y md h in linarith)
  have "TimestampTextColumnSize unit < 32" by (cases unit) (simp_all add: TimestampTextColumnSize_def)
  then have "TimestampTextFromStruct ?ts unit 32 = TimestampTextFromStruct ?ts unit 64"
    using snprintf_shorter [of 64 t _ _ 32] full unfolding s by simp
  then show ?thesis by (simp add: full stamp_text_numeric)
qed

section \<open>The literal says the cells\<close>

lemma trunc_floor_secs:
  "(if v smod TicksPerSecond unit < 0 then v sdiv TicksPerSecond unit - 1 else v sdiv TicksPerSecond unit)
   = v div TicksPerSecond unit"
  by (simp add: trunc_fix_div)

lemma words_says:
  "says ''t'' (Some ''t'')" "says ''f'' (Some ''f'')" "says ''NaN'' (Some ''NaN'')"
  "says ''Infinity'' (Some ''Infinity'')" "says ''-Infinity'' (Some ''-Infinity'')"
  by (rule says_word; code_simp)+

text \<open>One element: whatever its position, it says what its cell says.\<close>

lemma ArrayIngestElem_says:
  assumes "ArrayIngestElem g17 ty i used x = Some e" "cell_fits g17 ty x" "x \<noteq> CNull"
  shows "says e (cell_says g17 ty x)"
proof (cases x)
  case (CText s)
  then show ?thesis using assms(1)
    by (auto simp: ArrayIngestElem_def cell_says_def says_quoted split: ingest_type.splits if_splits)
next
  case (CFloat f)
  then show ?thesis using assms(1,2)
    by (cases f; cases ty)
       (auto simp: ArrayIngestElem_def cell_says_def cell_fits_def words_says says_word snprintf_whole split: if_splits)
next
  case (CInt v)
  have num: "numeric_text (fmt_d v)" by (rule fmt_d_numeric)
  note e = assms(1) [unfolded CInt] and f = assms(2) [unfolded CInt]
  show ?thesis
  proof (cases ty)
    case IT_BOOL
    with e show ?thesis by (auto simp: CInt ArrayIngestElem_def cell_says_def words_says split: if_splits)
  next
    case (IT_INT w)
    with f have "length (fmt_d v) \<le> 20" by (intro fmt_d_bound) (simp_all add: cell_fits_def is_s64_def)
    with e IT_INT show ?thesis
      by (auto simp: CInt ArrayIngestElem_def cell_says_def says_numeric num snprintf_whole)
  next
    case (IT_UINT w)
    with f have "length (fmt_d v) \<le> 20" by (intro fmt_d_bound) (simp_all add: cell_fits_def)
    with e IT_UINT show ?thesis
      by (auto simp: CInt ArrayIngestElem_def cell_says_def says_numeric num snprintf_whole)
  next
    case (IT_DECIMAL scale)
    with e show ?thesis
      by (auto simp: CInt ArrayIngestElem_def cell_says_def says_numeric decimal_numeric)
  next
    case (IT_TIME unit)
    with e show ?thesis
      by (auto simp: CInt ArrayIngestElem_def cell_says_def says_numeric time_numeric)
  next
    case IT_DATE32
    obtain y m d where c: "CivilFromDays v = (y, m, d)" by (cases "CivilFromDays v")
    with e IT_DATE32 have y: "\<not> (y < 1 \<or> y > 9999)" "e = snd (snprintf 13 (fmt_0d 4 y @ ''-'' @ fmt_0d 2 m @ ''-'' @ fmt_0d 2 d))"
      by (auto simp: ArrayIngestElem_def split: if_splits)
    moreover from f IT_DATE32 have "INT32_MIN \<le> v" "v \<le> INT32_MAX" by (simp_all add: cell_fits_def)
    then have "INT32_MIN \<le> civil_year v" "civil_year v \<le> INT32_MAX" using date32_year [of v] by auto
    ultimately have "numeric_text e" using date_numeric [OF c] by simp
    moreover have "cell_says g17 ty x = Some e" using c y IT_DATE32 by (simp add: CInt cell_says_def ArrayIngestElem_def)
    ultimately show ?thesis by (simp add: says_numeric)
  next
    case (IT_TIMESTAMP unit)
    with e have "- 62135596800 \<le> v div TicksPerSecond unit" "v div TicksPerSecond unit \<le> 253402300799"
      "e = snd (TimestampTextFromStruct (TimestampFromArrow v unit) unit 32)"
      unfolding ArrayIngestElem_def by (simp_all add: trunc_floor_secs Let_def split: if_splits)
    moreover from this have "cell_says g17 ty x = Some e"
      using IT_TIMESTAMP by (simp add: CInt cell_says_def ArrayIngestElem_def trunc_floor_secs)
    ultimately show ?thesis using timestamp_numeric [of v unit] by (simp add: says_numeric)
  qed (use e in \<open>simp_all add: ArrayIngestElem_def\<close>)
qed (use assms in simp)

text \<open>The loop: the elements of a prefix of the cells, and the first cell after it is not spelled.\<close>

definition elem_text :: "('f \<Rightarrow> string) \<Rightarrow> ingest_type \<Rightarrow> 'f cell \<Rightarrow> string" where
  "elem_text g17 ty x =
     (case x of CNull \<Rightarrow> ''NULL'' | CText s \<Rightarrow> ArrayIngestAppendQuoted s | _ \<Rightarrow> the (ArrayIngestElem g17 ty 0 0 x))"

lemma ArrayIngestElem_text:
  assumes "ArrayIngestElem g17 ty i used x = Some e" "x \<noteq> CNull"
  shows "e = elem_text g17 ty x"
proof (cases x)
  case (CText s)
  with assms show ?thesis
    by (auto simp: elem_text_def ArrayIngestElem_def split: ingest_type.splits if_splits)
next
  case (CFloat f)
  then have "ArrayIngestElem g17 ty i used x = ArrayIngestElem g17 ty 0 0 x"
    by (cases ty) (simp_all add: ArrayIngestElem_def)
  with assms(1) CFloat have "ArrayIngestElem g17 ty 0 0 (CFloat f) = Some e" by simp
  then show ?thesis by (simp add: elem_text_def CFloat)
next
  case (CInt v)
  then have "ArrayIngestElem g17 ty i used x = ArrayIngestElem g17 ty 0 0 x"
    by (cases ty) (simp_all add: ArrayIngestElem_def)
  with assms(1) CInt have "ArrayIngestElem g17 ty 0 0 (CInt v) = Some e" by simp
  then show ?thesis by (simp add: elem_text_def CInt)
qed (use assms in simp)

lemma elem_text_says:
  assumes "x = CNull \<or> ArrayIngestElem g17 ty i used x \<noteq> None" "cell_fits g17 ty x"
  shows "says (elem_text g17 ty x) (cell_says g17 ty x)"
proof (cases "x = CNull")
  case True
  then show ?thesis by (simp add: elem_text_def cell_says_def says_null)
next
  case False
  with assms obtain e where "ArrayIngestElem g17 ty i used x = Some e" by auto
  with assms(2) False show ?thesis using ArrayIngestElem_says ArrayIngestElem_text by metis
qed

lemma ArrayIngestCells_prefix:
  obtains k where "k \<le> length xs"
    "ArrayIngestCells g17 ty i b xs = (i + k, b @ joined i (map (elem_text g17 ty) (take k xs)))"
    "\<forall>x \<in> set (take k xs). x = CNull \<or> (\<exists>j u. ArrayIngestElem g17 ty j u x \<noteq> None)"
proof (induction xs arbitrary: i b thesis)
  case Nil
  then show ?case by (auto intro: Nil [of 0])
next
  case (Cons x xs)
  define b' where "b' = (if i > 0 then b @ '','' else b)"
  have step: thesis if e: "x = CNull \<or> ArrayIngestElem g17 ty i (length b') x = Some (elem_text g17 ty x)"
  proof -
    obtain k where k: "k \<le> length xs"
      "ArrayIngestCells g17 ty (Suc i) (b' @ elem_text g17 ty x) xs
        = (Suc i + k, (b' @ elem_text g17 ty x) @ joined (Suc i) (map (elem_text g17 ty) (take k xs)))"
      "\<forall>x \<in> set (take k xs). x = CNull \<or> (\<exists>j u. ArrayIngestElem g17 ty j u x \<noteq> None)"
      using Cons.IH by blast
    have "ArrayIngestCells g17 ty i b (x # xs) = ArrayIngestCells g17 ty (Suc i) (b' @ elem_text g17 ty x) xs"
      using e by (auto simp: Let_def b'_def elem_text_def)
    moreover have "x = CNull \<or> (\<exists>j u. ArrayIngestElem g17 ty j u x \<noteq> None)" using e by fastforce
    ultimately show thesis
      using k by (intro Cons.prems [of "Suc k"]) (auto simp: b'_def)
  qed
  show ?case
  proof (cases "x = CNull \<or> ArrayIngestElem g17 ty i (length b') x \<noteq> None")
    case True
    then show ?thesis using step ArrayIngestElem_text by (metis not_None_eq)
  next
    case False
    then have "ArrayIngestCells g17 ty i b (x # xs) = (i, b)" by (simp add: Let_def b'_def)
    then show ?thesis by (intro Cons.prems [of 0]) simp_all
  qed
qed

lemma ArrayIngestFillColumn_texts:
  assumes "list_all (cell_fits g17 ty) xs"
  shows "fst (ArrayIngestFillColumn g17 ty xs) \<le> length xs
       \<and> read_array (snd (ArrayIngestFillColumn g17 ty xs))
           = Some (map (cell_says g17 ty) (take (fst (ArrayIngestFillColumn g17 ty xs)) xs))"
proof (cases "ArrayIngestElemType ty = None")
  case True
  then show ?thesis by (auto simp: ArrayIngestFillColumn_def read_array_def)
next
  case False
  obtain k where k: "k \<le> length xs"
    "ArrayIngestCells g17 ty 0 ''{'' xs = (0 + k, ''{'' @ joined 0 (map (elem_text g17 ty) (take k xs)))"
    "\<forall>x \<in> set (take k xs). x = CNull \<or> (\<exists>j u. ArrayIngestElem g17 ty j u x \<noteq> None)"
    by (rule ArrayIngestCells_prefix)
  have "list_all2 says (map (elem_text g17 ty) (take k xs)) (map (cell_says g17 ty) (take k xs))"
    unfolding list_all2_map1 list_all2_map2
  proof (rule list_all2_same [THEN iffD2], rule ballI)
    fix x assume x: "x \<in> set (take k xs)"
    then have "cell_fits g17 ty x" using assms by (auto simp: list_all_iff dest: in_set_takeD)
    then show "says (elem_text g17 ty x) (cell_says g17 ty x)" using k(3) x elem_text_says by blast
  qed
  from read_array_joined [OF this] show ?thesis
    using False k(1,2) by (auto simp: ArrayIngestFillColumn_def)
qed


text \<open>Columns are rendered again, shorter, until all hold the same number of rows; once is enough.\<close>

lemma ArrayIngestCells_take:
  "n \<le> fst (ArrayIngestCells g17 ty i b xs) - i \<Longrightarrow> n \<le> length xs
   \<Longrightarrow> fst (ArrayIngestCells g17 ty i b (take n xs)) = i + n"
proof (induction xs arbitrary: i b n)
  case (Cons x xs)
  show ?case
  proof (cases n)
    case (Suc m)
    define b' where "b' = (if i > 0 then b @ '','' else b)"
    show ?thesis
    proof (cases "x = CNull")
      case True
      then show ?thesis using Cons.IH [of m "Suc i" "b' @ ''NULL''"] Cons.prems Suc by (simp add: Let_def b'_def)
    next
      case False
      show ?thesis
      proof (cases "ArrayIngestElem g17 ty i (length b') x")
        case None
        then show ?thesis using Cons.prems Suc False by (simp add: Let_def b'_def)
      next
        case (Some e)
        then show ?thesis using Cons.IH [of m "Suc i" "b' @ e"] Cons.prems Suc False by (simp add: Let_def b'_def)
      qed
    qed
  qed simp
qed simp

lemma ArrayIngestFillColumn_fit_le: "fst (ArrayIngestFillColumn g17 ty xs) \<le> length xs"
proof -
  obtain k where "k \<le> length xs" "fst (ArrayIngestCells g17 ty 0 ''{'' xs) = k"
    using ArrayIngestCells_prefix [of xs g17 ty 0 "''{''"] by (metis add_0 fst_conv)
  then show ?thesis by (auto simp: ArrayIngestFillColumn_def split: prod.splits)
qed

lemma ArrayIngestFillColumn_take:
  assumes "n \<le> fst (ArrayIngestFillColumn g17 ty xs)"
  shows "fst (ArrayIngestFillColumn g17 ty (take n xs)) = n"
  using assms ArrayIngestCells_take [of n g17 ty 0 "''{''" xs] ArrayIngestFillColumn_fit_le [of g17 ty xs]
  by (auto simp: ArrayIngestFillColumn_def split: prod.splits if_splits)

definition demo_words :: "unit cell list" where
  "demo_words = [CText ''a,b'', CText [], CNull, CText [CHR ''x'', CHR 0x22, CHR ''y'', CHR 0x5C], CText [CHR 0x00]]"


end
