(* ===== verification/BulkIngest.thy ===== *)
theory BulkIngest
  imports ArrayText "HOL-Library.Multiset"
begin

text \<open>
  Executing a bound stream, \<^verbatim>\<open>src/odbc_bind.c\<close>: \<open>ExecuteRows\<close> and the ways it sends the rows of a batch,
  as array literals that the server expands (\<open>ArrayIngest*\<close>), as INSERT statements with several
  row-groups (\<open>MultiRow*\<close>), as ODBC parameter arrays (\<open>ExecuteBatchArray\<close>) and one row per execute
  (\<open>BindAndExecuteRow\<close>), each falling back to the next, under a transaction of its own
  (\<open>OdbcAutoTxn\<close>).

  The driver and the database behind it are a parameter, \<open>insert_server\<close>: a function per ODBC call
  whose answer the code looks at, over a state of its own.  \<open>sv_bind\<close> stands for \<open>SlotFromArrow\<close> with
  \<^verbatim>\<open>SQLBindParameter\<close>, \<open>sv_bind_columns\<close> for \<open>ArrayParamFill\<close> with it, \<open>ci_array_row_bytes\<close> for
  \<open>ArrayParamPlan\<close>.  What the code relies on is stated in \<^theory_text>\<open>BulkSafe\<close> as \<open>server_ok\<close>.  Allocation
  succeeds.
\<close>

section \<open>The server and the statement\<close>

datatype execute_return = RET_SUCCESS | RET_SUCCESS_WITH_INFO | RET_NO_DATA | RET_ERROR status

datatype param_status =
    SQL_PARAM_SUCCESS | SQL_PARAM_SUCCESS_WITH_INFO | SQL_PARAM_ERROR | SQL_PARAM_UNUSED | SQL_PARAM_DIAG_UNAVAILABLE

text \<open>What a driver leaves behind after executing a parameter array.\<close>

record array_reply =
  ar_ret :: execute_return
  ar_processed :: nat
  ar_status :: "param_status list"
  ar_count :: int
  ar_more_counts :: "int list"

record ('d, 'f) insert_server =
  sv_prepare :: "string \<Rightarrow> 'd \<Rightarrow> bool \<times> 'd"
  sv_bind :: "nat \<Rightarrow> 'f cell \<Rightarrow> 'd \<Rightarrow> status \<times> 'd"
  sv_execute :: "nat \<Rightarrow> 'f cell list \<Rightarrow> 'd \<Rightarrow> status \<times> 'd"
  sv_bind_text :: "nat \<Rightarrow> string \<Rightarrow> 'd \<Rightarrow> status \<times> 'd"
  sv_unnest :: "string list \<Rightarrow> 'd \<Rightarrow> status \<times> 'd"
  sv_array_verify :: "'d \<Rightarrow> bool \<times> 'd"
  sv_paramset :: "nat \<Rightarrow> 'd \<Rightarrow> bool \<times> 'd"
  sv_bind_columns :: "'f cell list list \<Rightarrow> 'd \<Rightarrow> status \<times> 'd"
  sv_array :: "'f cell list list \<Rightarrow> 'd \<Rightarrow> array_reply \<times> 'd"
  sv_row_count :: "'d \<Rightarrow> int"
  sv_autocommit :: "bool \<Rightarrow> 'd \<Rightarrow> bool \<times> 'd"
  sv_end_tran :: "bool \<Rightarrow> 'd \<Rightarrow> status \<times> 'd"

datatype OdbcMultiRowForm = ODBC_MULTIROW_VALUES | ODBC_MULTIROW_INSERT_ALL | ODBC_MULTIROW_UNION

text \<open>The bound schema, the statement and the reader options it is executed with.\<close>

record 'f insert_config =
  ci_types :: "ingest_type list"
  ci_g17 :: "'f \<Rightarrow> string"
  ci_ingest_into :: "string option"
  ci_rows_per_insert :: int
  ci_array_binding :: bool
  ci_connected :: bool
  ci_autocommit :: bool
  ci_txn_capable :: bool
  ci_pg_array_ingest :: bool
  ci_prefer_param_arrays :: bool
  ci_no_batch_counts :: bool
  ci_multirow_insert_all :: bool
  ci_multirow_union_from :: "string option"
  ci_column_type_sql :: "ingest_type \<Rightarrow> string option"
  ci_max_statement_len :: int
  ci_max_statement_params :: int
  ci_slot_bytes :: nat
  ci_array_row_bytes :: "'f cell list list \<Rightarrow> nat option"

definition ci_ncols :: "'f insert_config \<Rightarrow> nat" where
  "ci_ncols cfg = length (ci_types cfg)"

text \<open>
  The variable part: the driver's state, \<^verbatim>\<open>struct MultiRowInsert\<close>, \<^verbatim>\<open>struct ArrayIngest\<close>, what the
  connection remembers about both, and the local variables of \<open>ExecuteRows\<close>.
\<close>

record 'd insert_state =
  is_d :: 'd
  mr_ready :: bool
  mr_active :: bool
  mr_form :: OdbcMultiRowForm
  mr_cast_types :: "string list"
  mr_rows :: nat
  mr_tail :: "nat option"
  mc_multirow_probed :: bool
  mc_multirow_unsupported :: bool
  mc_multirow_form :: OdbcMultiRowForm
  mc_multirow_max_params :: nat
  ai_ready :: bool
  ai_active :: bool
  ai_rows :: nat
  mc_array_probed :: bool
  mc_array_unsupported :: bool
  is_use_array :: bool
  is_txn :: bool
  is_seen :: nat
  is_applied :: bool
  is_total :: int

section \<open>Transactions\<close>

definition OdbcAutoTxnBegin :: "'f insert_config \<Rightarrow> ('d, 'f) insert_server \<Rightarrow> 'd insert_state \<Rightarrow> 'd insert_state" where
  "OdbcAutoTxnBegin cfg sv st =
     (if is_txn st \<or> \<not> ci_connected cfg \<or> \<not> ci_autocommit cfg \<or> \<not> ci_txn_capable cfg then st
      else let (ok, d) = sv_autocommit sv False (is_d st) in st\<lparr>is_d := d, is_txn := ok\<rparr>)"

definition OdbcAutoTxnEnd :: "('d, 'f) insert_server \<Rightarrow> bool \<Rightarrow> 'd insert_state \<Rightarrow> status \<times> 'd insert_state" where
  "OdbcAutoTxnEnd sv commit st =
     (if \<not> is_txn st then (ADBC_STATUS_OK, st)
      else let (r, d1) = sv_end_tran sv commit (is_d st); (_, d2) = sv_autocommit sv True d1
           in (if commit then r else ADBC_STATUS_OK, st\<lparr>is_d := d2, is_txn := False\<rparr>))"

section \<open>INSERT statements with several row-groups\<close>

definition MultiRowSql :: "string \<Rightarrow> nat \<Rightarrow> nat \<Rightarrow> OdbcMultiRowForm \<Rightarrow> string list \<Rightarrow> string \<Rightarrow> string" where
  "MultiRowSql into ncols rows form cast_types union_from =
     (let head = (case form of
                    ODBC_MULTIROW_INSERT_ALL \<Rightarrow> ''INSERT ALL''
                  | ODBC_MULTIROW_UNION \<Rightarrow> ''INSERT INTO '' @ into @ '' ''
                  | ODBC_MULTIROW_VALUES \<Rightarrow> ''INSERT INTO '' @ into @ '' VALUES '');
          opened = (\<lambda>r. case form of
                    ODBC_MULTIROW_INSERT_ALL \<Rightarrow> '' INTO '' @ into @ '' VALUES (''
                  | ODBC_MULTIROW_UNION \<Rightarrow> if r > 0 then '' UNION ALL SELECT '' else ''SELECT ''
                  | ODBC_MULTIROW_VALUES \<Rightarrow> if r > (0::nat) then '', ('' else ''('');
          param = (\<lambda>c. case form of
                    ODBC_MULTIROW_UNION \<Rightarrow> (if c > 0 then '', '' else []) @ ''CAST(? AS '' @ cast_types ! c @ '')''
                  | _ \<Rightarrow> if c > (0::nat) then '', ?'' else ''?'');
          closed = (case form of ODBC_MULTIROW_UNION \<Rightarrow> '' FROM '' @ union_from | _ \<Rightarrow> '')'')
      in head @ concat (map (\<lambda>r. opened r @ concat (map param [0..<ncols]) @ closed) [0..<rows])
           @ (if form = ODBC_MULTIROW_INSERT_ALL then '' SELECT 1 FROM dual'' else []))"

definition MultiRowPrepareForm ::
  "'f insert_config \<Rightarrow> ('d, 'f) insert_server \<Rightarrow> nat \<Rightarrow> OdbcMultiRowForm \<Rightarrow> string list \<Rightarrow> 'd \<Rightarrow> bool \<times> 'd" where
  "MultiRowPrepareForm cfg sv rows form cast_types d =
     sv_prepare sv (MultiRowSql (case ci_ingest_into cfg of None \<Rightarrow> [] | Some s \<Rightarrow> s) (ci_ncols cfg) rows form cast_types
                      (case ci_multirow_union_from cfg of None \<Rightarrow> [] | Some s \<Rightarrow> s)) d"

definition MultiRowPrepare ::
  "'f insert_config \<Rightarrow> ('d, 'f) insert_server \<Rightarrow> nat \<Rightarrow> 'd insert_state \<Rightarrow> bool \<times> 'd insert_state" where
  "MultiRowPrepare cfg sv rows st =
     (let (ok, d) = MultiRowPrepareForm cfg sv rows (mr_form st) (mr_cast_types st) (is_d st) in (ok, st\<lparr>is_d := d\<rparr>))"

definition castable :: "ingest_type \<Rightarrow> bool" where
  "castable ty \<longleftrightarrow> (case ty of IT_UINT w \<Rightarrow> w \<noteq> 64 | IT_DICTIONARY \<Rightarrow> False | IT_NA \<Rightarrow> False | IT_OTHER \<Rightarrow> False | _ \<Rightarrow> True)"

definition MultiRowCastTypes :: "'f insert_config \<Rightarrow> string list option" where
  "MultiRowCastTypes cfg =
     those (map (\<lambda>ty. if castable ty then ci_column_type_sql cfg ty else None) (ci_types cfg))"

definition mr_enabled :: "'f insert_config \<Rightarrow> bool" where
  "mr_enabled cfg \<longleftrightarrow> ci_ingest_into cfg \<noteq> None \<and> ci_ncols cfg > 0 \<and> ci_rows_per_insert cfg \<noteq> 1 \<and> ci_connected cfg"

definition ADBC_ODBC_MULTIROW_MAX_PARAMS :: int where "ADBC_ODBC_MULTIROW_MAX_PARAMS = 2000"
definition ADBC_ODBC_MULTIROW_MAX_ROWS :: int where "ADBC_ODBC_MULTIROW_MAX_ROWS = 1000"
definition ADBC_ODBC_MULTIROW_MAX_SQL_BYTES :: int where "ADBC_ODBC_MULTIROW_MAX_SQL_BYTES = 1024 * 1024"
definition ADBC_ODBC_MULTIROW_MAX_SLOT_BYTES :: int where "ADBC_ODBC_MULTIROW_MAX_SLOT_BYTES = 16 * 1024 * 1024"

text \<open>How many row-groups to ask for, before the server has been asked.\<close>

definition MultiRowSqlMax :: "'f insert_config \<Rightarrow> int" where
  "MultiRowSqlMax cfg =
     (if ci_max_statement_len cfg > 0 \<and> ci_max_statement_len cfg < ADBC_ODBC_MULTIROW_MAX_SQL_BYTES
      then ci_max_statement_len cfg else ADBC_ODBC_MULTIROW_MAX_SQL_BYTES)"

definition MultiRowGroupCount :: "'f insert_config \<Rightarrow> OdbcMultiRowForm \<Rightarrow> string list \<Rightarrow> nat \<Rightarrow> int" where
  "MultiRowGroupCount cfg form cast_types max_params =
     (let ncols = int (ci_ncols cfg);
          into_len = int (length (case ci_ingest_into cfg of None \<Rightarrow> [] | Some s \<Rightarrow> s));
          k = (if ci_rows_per_insert cfg > 0 then ci_rows_per_insert cfg else ADBC_ODBC_MULTIROW_MAX_PARAMS sdiv ncols);
          k = (if max_params > 0 \<and> k > int max_params sdiv ncols then int max_params sdiv ncols else k);
          k = (if ci_max_statement_params cfg > 0 \<and> k > ci_max_statement_params cfg sdiv ncols
               then ci_max_statement_params cfg sdiv ncols else k);
          k = (if k > ADBC_ODBC_MULTIROW_MAX_ROWS then ADBC_ODBC_MULTIROW_MAX_ROWS else k);
          per_group = (case form of
              ODBC_MULTIROW_INSERT_ALL \<Rightarrow> ncols * 3 + 4 + (into_len + 20)
            | ODBC_MULTIROW_UNION \<Rightarrow>
                int (length (case ci_multirow_union_from cfg of None \<Rightarrow> [] | Some s \<Rightarrow> s)) + 24
                + sum_list (map (\<lambda>c. int (length (cast_types ! c)) + 14) [0..<ci_ncols cfg])
            | ODBC_MULTIROW_VALUES \<Rightarrow> ncols * 3 + 4);
          budget = (MultiRowSqlMax cfg - into_len - 64) sdiv per_group;
          k = (if budget < k then budget else k);
          slot_group = int (ci_slot_bytes cfg) * ncols;
          budget = ADBC_ODBC_MULTIROW_MAX_SLOT_BYTES sdiv (if slot_group > 0 then slot_group else 1)
      in if budget < k then budget else k)"

text \<open>\<^verbatim>\<open>while (k >= 2) { hstmt = MultiRowPrepare(mr, k); if (hstmt) break; k /= 2; }\<close>; 0 is no handle.\<close>

fun MultiRowHalve :: "'f insert_config \<Rightarrow> ('d, 'f) insert_server \<Rightarrow> nat \<Rightarrow> 'd insert_state \<Rightarrow> nat \<times> 'd insert_state" where
  "MultiRowHalve cfg sv k st =
     (if k < 2 then (0, st)
      else let (ok, st') = MultiRowPrepare cfg sv k st in if ok then (k, st') else MultiRowHalve cfg sv (k div 2) st')"

declare MultiRowHalve.simps [simp del]

definition union_offered :: "'f insert_config \<Rightarrow> bool" where
  "union_offered cfg \<longleftrightarrow> (case ci_multirow_union_from cfg of None \<Rightarrow> False | Some s \<Rightarrow> s \<noteq> [])"

text \<open>The two-group probe: the first of the forms the server prepares.\<close>

definition MultiRowProbe ::
  "'f insert_config \<Rightarrow> ('d, 'f) insert_server \<Rightarrow> string list option \<Rightarrow> 'd \<Rightarrow> OdbcMultiRowForm option \<times> 'd" where
  "MultiRowProbe cfg sv casts d =
     (let (ok, d) = MultiRowPrepareForm cfg sv 2 ODBC_MULTIROW_VALUES [] d
      in if ok then (Some ODBC_MULTIROW_VALUES, d)
         else let (ok, d) = (if ci_multirow_insert_all cfg then MultiRowPrepareForm cfg sv 2 ODBC_MULTIROW_INSERT_ALL [] d else (False, d))
              in if ok then (Some ODBC_MULTIROW_INSERT_ALL, d)
                 else case casts of
                        None \<Rightarrow> (None, d)
                      | Some ts \<Rightarrow> (let (ok, d) = MultiRowPrepareForm cfg sv 2 ODBC_MULTIROW_UNION ts d
                                  in (if ok then Some ODBC_MULTIROW_UNION else None, d)))"

text \<open>The form this connection settled on, asking at most once; \<^const>\<open>False\<close> is \<^verbatim>\<open>return\<close>.\<close>

definition MultiRowFindForm ::
  "'f insert_config \<Rightarrow> ('d, 'f) insert_server \<Rightarrow> string list option \<Rightarrow> 'd insert_state \<Rightarrow> bool \<times> 'd insert_state" where
  "MultiRowFindForm cfg sv casts st =
     (if mc_multirow_probed st then (True, st)
      else case MultiRowProbe cfg sv casts (is_d st) of
             (None, d) \<Rightarrow>
               (False, if \<not> union_offered cfg \<or> casts \<noteq> None
                       then st\<lparr>is_d := d, mc_multirow_probed := True, mc_multirow_unsupported := True\<rparr>
                       else st\<lparr>is_d := d\<rparr>)
           | (Some form, d) \<Rightarrow> (True, st\<lparr>is_d := d, mc_multirow_probed := True, mc_multirow_form := form\<rparr>))"

text \<open>The group size the server takes, from \<open>k\<close> down.\<close>

definition MultiRowStart :: "'f insert_config \<Rightarrow> ('d, 'f) insert_server \<Rightarrow> nat \<Rightarrow> 'd insert_state \<Rightarrow> 'd insert_state" where
  "MultiRowStart cfg sv k st =
     (let (got, st) = MultiRowHalve cfg sv k st
      in if got = 0 then st\<lparr>mc_multirow_unsupported := True\<rparr>
         else (if got < k then st\<lparr>mc_multirow_max_params := got * ci_ncols cfg\<rparr> else st)
                \<lparr>mr_rows := got, mr_tail := None, mr_active := True\<rparr>)"

definition MultiRowSetup :: "'f insert_config \<Rightarrow> ('d, 'f) insert_server \<Rightarrow> 'd insert_state \<Rightarrow> 'd insert_state" where
  "MultiRowSetup cfg sv st0 =
     (let st = st0\<lparr>mr_ready := True\<rparr>
      in if mc_multirow_unsupported st then st
         else let casts = (if union_offered cfg then MultiRowCastTypes cfg else None);
                  (found, st) = MultiRowFindForm cfg sv casts st
              in if \<not> found then st
                 else let st = st\<lparr>mr_form := mc_multirow_form st\<rparr>
                      in if mr_form st = ODBC_MULTIROW_UNION \<and> casts = None then st
                         else let st = (if mr_form st = ODBC_MULTIROW_UNION
                                        then st\<lparr>mr_cast_types := (case casts of None \<Rightarrow> [] | Some ts \<Rightarrow> ts)\<rparr> else st);
                                  k = MultiRowGroupCount cfg (mr_form st) (mr_cast_types st) (mc_multirow_max_params st)
                              in if k < 2 then st else MultiRowStart cfg sv (nat k) st)"

definition MultiRowGroupFor ::
  "'f insert_config \<Rightarrow> ('d, 'f) insert_server \<Rightarrow> nat \<Rightarrow> 'd insert_state \<Rightarrow> bool \<times> 'd insert_state" where
  "MultiRowGroupFor cfg sv n st =
     (if n = mr_rows st \<or> mr_tail st = Some n then (True, st)
      else let (ok, st') = MultiRowPrepare cfg sv n (st\<lparr>mr_tail := None\<rparr>)
           in (ok, if ok then st'\<lparr>mr_tail := Some n\<rparr> else st'))"

definition MultiRowNarrow :: "'f insert_config \<Rightarrow> ('d, 'f) insert_server \<Rightarrow> 'd insert_state \<Rightarrow> bool \<times> 'd insert_state" where
  "MultiRowNarrow cfg sv st =
     (let (k, st') = MultiRowHalve cfg sv (mr_rows st div 2) st
      in if k = 0 then (False, st')
         else (True, st'\<lparr>mr_rows := k, mr_tail := None, mc_multirow_max_params := k * ci_ncols cfg\<rparr>))"

text \<open>Parameter \<open>r * ncols + c + 1\<close> is column \<open>c\<close> of the \<open>r\<close>-th row of the group.\<close>

definition group_params :: "nat \<Rightarrow> 'f cell list list \<Rightarrow> 'f cell list" where
  "group_params ncols rs = concat (map (\<lambda>r. map ((!) r) [0..<ncols]) rs)"

fun BindParams :: "('d, 'f) insert_server \<Rightarrow> nat \<Rightarrow> 'f cell list \<Rightarrow> 'd \<Rightarrow> status \<times> 'd" where
  "BindParams sv i [] d = (ADBC_STATUS_OK, d)"
| "BindParams sv i (x # xs) d =
     (let (s, d') = sv_bind sv i x d in if s \<noteq> ADBC_STATUS_OK then (s, d') else BindParams sv (Suc i) xs d')"

definition MultiRowExecGroup ::
  "'f insert_config \<Rightarrow> ('d, 'f) insert_server \<Rightarrow> 'f cell list list \<Rightarrow> 'd insert_state \<Rightarrow> status \<times> 'd insert_state" where
  "MultiRowExecGroup cfg sv rs st =
     (let ps = group_params (ci_ncols cfg) rs; (s, d) = BindParams sv 1 ps (is_d st)
      in if s \<noteq> ADBC_STATUS_OK then (s, st\<lparr>is_d := d\<rparr>)
         else let (s, d) = sv_execute sv (length rs) ps d
              in if s \<noteq> ADBC_STATUS_OK then (s, st\<lparr>is_d := d\<rparr>)
                 else (ADBC_STATUS_OK, st\<lparr>is_d := d, is_total := is_total st + int (length rs)\<rparr>))"

text \<open>
  The result of a batch path: its status, the leading rows that went in, and whether it fell back.  The
  loop takes fuel, since nothing but the set-up makes the group size positive; running out is \<^const>\<open>None\<close>.
\<close>

type_synonym 'd batch_result = "(status \<times> nat \<times> bool \<times> 'd insert_state) option"

fun MultiRowLoop ::
  "nat \<Rightarrow> 'f insert_config \<Rightarrow> ('d, 'f) insert_server \<Rightarrow> 'f cell list list \<Rightarrow> bool \<Rightarrow> nat \<Rightarrow> 'd insert_state \<Rightarrow> 'd batch_result" where
  "MultiRowLoop 0 cfg sv rows virgin row st = None"
| "MultiRowLoop (Suc fuel) cfg sv rows virgin row st =
     (if length rows - row < 2 then Some (ADBC_STATUS_OK, row, False, st)
      else let n = min (length rows - row) (mr_rows st); (ok, st) = MultiRowGroupFor cfg sv n st
           in if \<not> ok then Some (ADBC_STATUS_OK, row, False, st)
              else let (s, st) = MultiRowExecGroup cfg sv (take n (drop row rows)) st
                   in if s = ADBC_STATUS_OK then MultiRowLoop fuel cfg sv rows virgin (row + n) st
                      else if \<not> virgin \<or> row \<noteq> 0 then Some (s, 0, False, st)
                      else let (ok, st) = MultiRowNarrow cfg sv st
                           in if ok then MultiRowLoop fuel cfg sv rows virgin row st
                              else Some (ADBC_STATUS_OK, 0, True, st\<lparr>mc_multirow_unsupported := True, mr_active := False\<rparr>))"

definition MultiRowExecuteBatch ::
  "'f insert_config \<Rightarrow> ('d, 'f) insert_server \<Rightarrow> 'f cell list list \<Rightarrow> bool \<Rightarrow> 'd insert_state \<Rightarrow> 'd batch_result" where
  "MultiRowExecuteBatch cfg sv rows virgin st =
     MultiRowLoop (Suc (length rows + mr_rows st)) cfg sv rows virgin 0 st"

section \<open>Array literals\<close>

definition ADBC_ODBC_ARRAY_INGEST_ROWS :: nat where "ADBC_ODBC_ARRAY_INGEST_ROWS = 10000"

definition ai_enabled :: "'f insert_config \<Rightarrow> bool" where
  "ai_enabled cfg \<longleftrightarrow> mr_enabled cfg \<and> ci_pg_array_ingest cfg"

definition ArrayIngestSql :: "'f insert_config \<Rightarrow> string option" where
  "ArrayIngestSql cfg =
     map_option (\<lambda>elems. ''INSERT INTO '' @ (case ci_ingest_into cfg of None \<Rightarrow> [] | Some s \<Rightarrow> s) @ '' SELECT * FROM unnest(''
                   @ concat (map (\<lambda>i. (if i > 0 then '', '' else []) @ ''?::'' @ elems ! i @ ''[]'') [0..<length elems]) @ '')'')
       (those (map ArrayIngestElemType (ci_types cfg)))"

text \<open>\<open>ArrayIngestServerOk\<close>, asked once on a connection.\<close>

definition ArrayIngestVerify :: "('d, 'f) insert_server \<Rightarrow> 'd insert_state \<Rightarrow> bool \<times> 'd insert_state" where
  "ArrayIngestVerify sv st =
     (if mc_array_unsupported st then (False, st)
      else if mc_array_probed st then (True, st)
      else let (ok, d) = sv_array_verify sv (is_d st)
           in (ok, st\<lparr>is_d := d, mc_array_probed := True, mc_array_unsupported := \<not> ok\<rparr>))"

definition ArrayIngestSetup :: "'f insert_config \<Rightarrow> ('d, 'f) insert_server \<Rightarrow> 'd insert_state \<Rightarrow> 'd insert_state" where
  "ArrayIngestSetup cfg sv st0 =
     (let (ok, st) = ArrayIngestVerify sv (st0\<lparr>ai_ready := True\<rparr>)
      in if \<not> ok then st
         else case ArrayIngestSql cfg of
                None \<Rightarrow> st
              | Some sql \<Rightarrow>
                  (let (ok, d) = sv_prepare sv sql (is_d st); st = st\<lparr>is_d := d\<rparr>
                   in if \<not> ok then st
                      else st\<lparr>ai_rows := (if ci_rows_per_insert cfg > 1 then nat (ci_rows_per_insert cfg)
                                         else ADBC_ODBC_ARRAY_INGEST_ROWS),
                              ai_active := True\<rparr>))"

text \<open>Every column of the next \<open>n\<close> rows, and again with fewer rows until the columns agree.\<close>

definition ArrayIngestColumns :: "'f insert_config \<Rightarrow> 'f cell list list \<Rightarrow> (nat \<times> string) list" where
  "ArrayIngestColumns cfg rs =
     map (\<lambda>c. ArrayIngestFillColumn (ci_g17 cfg) (ci_types cfg ! c) (map (\<lambda>r. r ! c) rs)) [0..<ci_ncols cfg]"

lemma fold_min_le: "fold min xs (n::nat) \<le> n"
proof (induction xs arbitrary: n)
  case (Cons x xs)
  show ?case using Cons [of "min x n"] by simp
qed simp

function ArrayIngestRender :: "'f insert_config \<Rightarrow> 'f cell list list \<Rightarrow> nat \<Rightarrow> (nat \<times> string list) option" where
  "ArrayIngestRender cfg rows n =
     (let cols = ArrayIngestColumns cfg (take n rows); smallest = fold min (map fst cols) n
      in if smallest = n then Some (n, map snd cols)
         else if smallest = 0 then None else ArrayIngestRender cfg rows smallest)"
  by pat_completeness auto
termination
  by (relation "measure (\<lambda>(cfg, rows, n). n)") (auto simp: le_neq_implies_less fold_min_le)

declare ArrayIngestRender.simps [simp del]

fun BindTexts :: "('d, 'f) insert_server \<Rightarrow> nat \<Rightarrow> string list \<Rightarrow> 'd \<Rightarrow> status \<times> 'd" where
  "BindTexts sv i [] d = (ADBC_STATUS_OK, d)"
| "BindTexts sv i (x # xs) d =
     (let (s, d') = sv_bind_text sv i x d in if s \<noteq> ADBC_STATUS_OK then (s, d') else BindTexts sv (Suc i) xs d')"

fun ArrayIngestLoop ::
  "nat \<Rightarrow> 'f insert_config \<Rightarrow> ('d, 'f) insert_server \<Rightarrow> 'f cell list list \<Rightarrow> bool \<Rightarrow> nat \<Rightarrow> 'd insert_state \<Rightarrow> 'd batch_result" where
  "ArrayIngestLoop 0 cfg sv rows virgin row st = None"
| "ArrayIngestLoop (Suc fuel) cfg sv rows virgin row st =
     (if length rows - row < 1 then Some (ADBC_STATUS_OK, row, False, st)
      else case ArrayIngestRender cfg (drop row rows) (min (length rows - row) (ai_rows st)) of
             None \<Rightarrow> Some (ADBC_STATUS_OK, row, False, st\<lparr>ai_active := False\<rparr>)
           | Some (n, lits) \<Rightarrow>
               (let (s, d) = BindTexts sv 1 lits (is_d st); st = st\<lparr>is_d := d\<rparr>
                in if s \<noteq> ADBC_STATUS_OK then Some (s, 0, False, st)
                   else let (s, d) = sv_unnest sv lits (is_d st); st = st\<lparr>is_d := d\<rparr>
                        in if s = ADBC_STATUS_OK
                           then ArrayIngestLoop fuel cfg sv rows virgin (row + n) (st\<lparr>is_total := is_total st + int n\<rparr>)
                           else if \<not> virgin \<or> row \<noteq> 0 then Some (s, 0, False, st)
                           else Some (ADBC_STATUS_OK, 0, True, st\<lparr>ai_active := False\<rparr>)))"

definition ArrayIngestExecuteBatch ::
  "'f insert_config \<Rightarrow> ('d, 'f) insert_server \<Rightarrow> 'f cell list list \<Rightarrow> bool \<Rightarrow> 'd insert_state \<Rightarrow> 'd batch_result" where
  "ArrayIngestExecuteBatch cfg sv rows virgin st = ArrayIngestLoop (Suc (length rows)) cfg sv rows virgin 0 st"

section \<open>Parameter arrays\<close>

definition ARRAY_BIND_MAX_CHUNK_BYTES :: nat where "ARRAY_BIND_MAX_CHUNK_BYTES = 16 * 1024 * 1024"
definition ARRAY_BIND_MAX_CHUNK_ROWS :: nat where "ARRAY_BIND_MAX_CHUNK_ROWS = 65536"

definition ArrayParamsRowCount :: "bool \<Rightarrow> array_reply \<Rightarrow> nat \<Rightarrow> bool \<times> int" where
  "ArrayParamsRowCount no_batch rp nsets =
     (let counts = ar_count rp # (if no_batch then [] else take (nsets - 1) (ar_more_counts rp));
          answers = filter (\<lambda>c. c \<ge> 0) counts
      in (answers \<noteq> [], sum_list answers))"

definition set_applied :: "param_status \<Rightarrow> bool" where
  "set_applied s \<longleftrightarrow> s = SQL_PARAM_SUCCESS \<or> s = SQL_PARAM_SUCCESS_WITH_INFO"

text \<open>The status array has one entry per set, and says unused where the driver wrote nothing.\<close>

definition written_status :: "nat \<Rightarrow> array_reply \<Rightarrow> array_reply" where
  "written_status n rp = rp\<lparr>ar_status := take n (ar_status rp @ replicate n SQL_PARAM_UNUSED)\<rparr>"

lemma written_status_simps [simp]:
  "length (ar_status (written_status n rp)) = n" "ar_ret (written_status n rp) = ar_ret rp" "ar_processed (written_status n rp) = ar_processed rp"
  by (simp_all add: written_status_def)

text \<open>What the statuses, the counter and the row counts of one execute say about its sets.\<close>

definition unknown_landed :: "bool \<Rightarrow> array_reply \<Rightarrow> bool" where
  "unknown_landed no_batch rp =
     (let n = length (ar_status rp);
          (have_row_count, affected) = (if ar_ret rp = RET_NO_DATA then (True, 0) else ArrayParamsRowCount no_batch rp n);
          applied = length (filter set_applied (ar_status rp));
          unavailable = length (filter ((=) SQL_PARAM_DIAG_UNAVAILABLE) (ar_status rp))
      in unavailable > 0 \<and> ar_ret rp = RET_SUCCESS \<and> have_row_count \<and> affected \<ge> int (applied + unavailable))"

definition set_retried :: "bool \<Rightarrow> param_status \<Rightarrow> bool" where
  "set_retried unknown s \<longleftrightarrow> s = SQL_PARAM_ERROR \<or> s = SQL_PARAM_DIAG_UNAVAILABLE \<and> \<not> unknown"

definition sets_applied :: "bool \<Rightarrow> array_reply \<Rightarrow> nat" where
  "sets_applied no_batch rp =
     length (filter set_applied (ar_status rp))
     + (if unknown_landed no_batch rp then length (filter ((=) SQL_PARAM_DIAG_UNAVAILABLE) (ar_status rp)) else 0)"

definition sets_done :: "bool \<Rightarrow> array_reply \<Rightarrow> nat" where
  "sets_done no_batch rp =
     (let done = min (ar_processed rp) (length (ar_status rp));
          filled = list_ex (\<lambda>s. s \<noteq> SQL_PARAM_UNUSED) (ar_status rp)
      in if done = 0 \<and> filled then sets_applied no_batch rp else done)"

definition sets_counted :: "bool \<Rightarrow> array_reply \<Rightarrow> int" where
  "sets_counted no_batch rp =
     (let (have_row_count, affected) = (if ar_ret rp = RET_NO_DATA then (True, 0)
                                        else ArrayParamsRowCount no_batch rp (length (ar_status rp)));
          filled = list_ex (\<lambda>s. s \<noteq> SQL_PARAM_UNUSED) (ar_status rp)
      in if have_row_count then affected
         else if filled then int (sets_applied no_batch rp) else int (sets_done no_batch rp))"

definition ArrayChunkRows :: "'f insert_config \<Rightarrow> 'f cell list list \<Rightarrow> nat" where
  "ArrayChunkRows cfg rows =
     (case ci_array_row_bytes cfg rows of
        None \<Rightarrow> 0
      | Some per_row \<Rightarrow>
          (let chunk = length rows;
               chunk = (if per_row > 0 \<and> chunk > ARRAY_BIND_MAX_CHUNK_BYTES div per_row
                        then ARRAY_BIND_MAX_CHUNK_BYTES div per_row else chunk)
           in if chunk > ARRAY_BIND_MAX_CHUNK_ROWS then ARRAY_BIND_MAX_CHUNK_ROWS else chunk))"

function ArrayBatchLoop ::
  "'f insert_config \<Rightarrow> ('d, 'f) insert_server \<Rightarrow> 'f cell list list \<Rightarrow> nat \<Rightarrow> nat \<Rightarrow> nat list \<Rightarrow> 'd insert_state
   \<Rightarrow> status \<times> nat \<times> nat list \<times> 'd insert_state" where
  "ArrayBatchLoop cfg sv rows chunk row retry st =
     (let n = min (length rows - row) chunk
      in if n < 2 then (ADBC_STATUS_OK, row, retry, st)
         else let (ok, d) = sv_paramset sv n (is_d st); st = st\<lparr>is_d := d\<rparr>
              in if \<not> ok then (ADBC_STATUS_OK, row, retry, st\<lparr>is_use_array := False\<rparr>)
                 else let sets = take n (drop row rows); (s, d) = sv_bind_columns sv sets (is_d st); st = st\<lparr>is_d := d\<rparr>
                      in if s \<noteq> ADBC_STATUS_OK then (s, row, retry, st)
                         else let (rp, d) = sv_array sv sets (is_d st); st = st\<lparr>is_d := d\<rparr>; rp = written_status n rp
                              in case ar_ret rp of
                                   RET_ERROR s \<Rightarrow>
                                     if ar_processed rp = 0 \<and> row = 0
                                     then (ADBC_STATUS_OK, row, retry, st\<lparr>is_use_array := False\<rparr>)
                                     else (s, row, retry, st)
                                 | _ \<Rightarrow>
                                     (let nb = ci_no_batch_counts cfg;
                                          retry = retry @ map ((+) row)
                                            (filter (\<lambda>i. set_retried (unknown_landed nb rp) (ar_status rp ! i)) [0..<n]);
                                          done = sets_done nb rp
                                      in if done = 0 then (ADBC_STATUS_INTERNAL, row, retry, st)
                                         else let st = st\<lparr>is_total := is_total st + sets_counted nb rp\<rparr>
                                              in if done < n
                                                 then (ADBC_STATUS_OK, row + done, retry, st\<lparr>is_use_array := False\<rparr>)
                                                 else ArrayBatchLoop cfg sv rows chunk (row + done) retry st))"
  by pat_completeness auto
termination
  by (relation "measure (\<lambda>(cfg, sv, rows, chunk, row, retry, st). length rows - row)") auto

declare ArrayBatchLoop.simps [simp del]

definition ExecuteBatchArray ::
  "'f insert_config \<Rightarrow> ('d, 'f) insert_server \<Rightarrow> 'f cell list list \<Rightarrow> 'd insert_state \<Rightarrow> status \<times> nat \<times> nat list \<times> 'd insert_state" where
  "ExecuteBatchArray cfg sv rows st =
     (let chunk = ArrayChunkRows cfg rows
      in if chunk < 2 then (ADBC_STATUS_OK, 0, [], st)
         else let (ok, d) = sv_paramset sv 0 (is_d st); st = st\<lparr>is_d := d\<rparr>
              in if \<not> ok then (ADBC_STATUS_OK, 0, [], st\<lparr>is_use_array := False\<rparr>)
                 else ArrayBatchLoop cfg sv rows chunk 0 [] st)"

section \<open>One row per execute\<close>

definition BindAndExecuteRow ::
  "'f insert_config \<Rightarrow> ('d, 'f) insert_server \<Rightarrow> 'f cell list \<Rightarrow> 'd insert_state \<Rightarrow> status \<times> 'd insert_state" where
  "BindAndExecuteRow cfg sv r st =
     (let ps = group_params (ci_ncols cfg) [r]; (s, d) = BindParams sv 1 ps (is_d st)
      in if s \<noteq> ADBC_STATUS_OK then (s, st\<lparr>is_d := d\<rparr>)
         else let (s, d) = sv_execute sv 1 ps d in (s, st\<lparr>is_d := d\<rparr>))"

text \<open>\<open>mark\<close>: the loop over the rows of the batch also notes that something has reached the server.\<close>

fun ExecuteEachRow ::
  "'f insert_config \<Rightarrow> ('d, 'f) insert_server \<Rightarrow> bool \<Rightarrow> 'f cell list list \<Rightarrow> 'd insert_state \<Rightarrow> status \<times> 'd insert_state" where
  "ExecuteEachRow cfg sv mark [] st = (ADBC_STATUS_OK, st)"
| "ExecuteEachRow cfg sv mark (r # rs) st =
     (let (s, st) = BindAndExecuteRow cfg sv r st
      in if s \<noteq> ADBC_STATUS_OK then (s, st)
         else let count = sv_row_count sv (is_d st)
              in ExecuteEachRow cfg sv mark rs
                   (st\<lparr>is_applied := is_applied st \<or> mark,
                       is_total := (if count > 0 then is_total st + count else is_total st)\<rparr>))"

section \<open>A batch, and the stream\<close>

definition multirow_first :: "'f insert_config \<Rightarrow> bool" where
  "multirow_first cfg \<longleftrightarrow> mr_enabled cfg \<and> \<not> (ci_array_binding cfg \<and> ci_ncols cfg > 0 \<and> ci_prefer_param_arrays cfg)"

text \<open>\<^verbatim>\<open>if (fell_back) { OdbcAutoTxnEnd(&txn, false, NULL); if (seen > 1) OdbcAutoTxnBegin(&txn); }\<close>\<close>

definition RestartTxn :: "'f insert_config \<Rightarrow> ('d, 'f) insert_server \<Rightarrow> bool \<Rightarrow> 'd insert_state \<Rightarrow> 'd insert_state" where
  "RestartTxn cfg sv fell_back st =
     (if \<not> fell_back then st
      else let (_, st) = OdbcAutoTxnEnd sv False st in if is_seen st > 1 then OdbcAutoTxnBegin cfg sv st else st)"

text \<open>The stages of one batch, each with the status and the leading rows done so far.\<close>

definition PrepareStage :: "'f insert_config \<Rightarrow> ('d, 'f) insert_server \<Rightarrow> 'f cell list list \<Rightarrow> 'd insert_state \<Rightarrow> 'd insert_state" where
  "PrepareStage cfg sv rows st =
     (let st = (if multirow_first cfg \<and> \<not> mr_ready st \<and> length rows > 1 then MultiRowSetup cfg sv st else st);
          st = (if ai_enabled cfg \<and> \<not> ai_ready st \<and> length rows > 1 then ArrayIngestSetup cfg sv st else st);
          st = st\<lparr>is_seen := is_seen st + length rows\<rparr>
      in if is_seen st > 1 then OdbcAutoTxnBegin cfg sv st else st)"

definition ArrayStage ::
  "'f insert_config \<Rightarrow> ('d, 'f) insert_server \<Rightarrow> 'f cell list list \<Rightarrow> 'd insert_state \<Rightarrow> (status \<times> nat \<times> 'd insert_state) option" where
  "ArrayStage cfg sv rows st =
     (if ai_active st \<and> length rows > 1
      then map_option (\<lambda>(s, done, fell_back, st). (s, done, RestartTxn cfg sv fell_back st))
             (ArrayIngestExecuteBatch cfg sv rows (\<not> is_applied st) st)
      else Some (ADBC_STATUS_OK, 0, st))"

definition MultiRowStage ::
  "'f insert_config \<Rightarrow> ('d, 'f) insert_server \<Rightarrow> 'f cell list list \<Rightarrow> status \<times> nat \<times> 'd insert_state
   \<Rightarrow> (status \<times> nat \<times> 'd insert_state) option" where
  "MultiRowStage cfg sv rows x =
     (let (s, row, st) = x
      in if multirow_first cfg \<and> mr_active st \<and> row = 0 \<and> length rows > 1 \<and> s = ADBC_STATUS_OK
         then map_option (\<lambda>(s, done, fell_back, st). (s, done, RestartTxn cfg sv fell_back st))
                (MultiRowExecuteBatch cfg sv rows (\<not> is_applied st) st)
         else Some x)"

definition ParamArrayStage ::
  "'f insert_config \<Rightarrow> ('d, 'f) insert_server \<Rightarrow> 'f cell list list \<Rightarrow> status \<times> nat \<times> 'd insert_state
   \<Rightarrow> status \<times> nat \<times> nat list \<times> 'd insert_state" where
  "ParamArrayStage cfg sv rows x =
     (let (s, row, st) = x
      in if is_use_array st \<and> row = 0 \<and> length rows > 1 \<and> s = ADBC_STATUS_OK then ExecuteBatchArray cfg sv rows st
         else (s, row, [], st))"

definition MultiRowRest ::
  "'f insert_config \<Rightarrow> ('d, 'f) insert_server \<Rightarrow> 'f cell list list \<Rightarrow> status \<times> nat \<times> nat list \<times> 'd insert_state
   \<Rightarrow> (status \<times> nat \<times> nat list \<times> 'd insert_state) option" where
  "MultiRowRest cfg sv rows x =
     (let (s, row, retry, st) = x;
          st = (if mr_enabled cfg \<and> \<not> mr_ready st \<and> length rows - row > 1 \<and> s = ADBC_STATUS_OK then MultiRowSetup cfg sv st else st)
      in if mr_active st \<and> length rows - row > 1 \<and> s = ADBC_STATUS_OK
         then map_option (\<lambda>(s, done, _, st). (s, row + done, retry, st))
                (MultiRowExecuteBatch cfg sv (drop row rows) (\<not> is_applied st \<and> row = 0) st)
         else Some (s, row, retry, st))"

definition RowStage ::
  "'f insert_config \<Rightarrow> ('d, 'f) insert_server \<Rightarrow> 'f cell list list \<Rightarrow> status \<times> nat \<times> nat list \<times> 'd insert_state
   \<Rightarrow> status \<times> 'd insert_state" where
  "RowStage cfg sv rows x =
     (let (s, row, retry, st) = x; st = (if row > 0 then st\<lparr>is_applied := True\<rparr> else st)
      in if s \<noteq> ADBC_STATUS_OK then (s, st)
         else let (s, st) = ExecuteEachRow cfg sv True (drop row rows) st
              in if s \<noteq> ADBC_STATUS_OK then (s, st) else ExecuteEachRow cfg sv False (map ((!) rows) retry) st)"

definition ExecuteBatch ::
  "'f insert_config \<Rightarrow> ('d, 'f) insert_server \<Rightarrow> 'f cell list list \<Rightarrow> 'd insert_state \<Rightarrow> (status \<times> 'd insert_state) option" where
  "ExecuteBatch cfg sv rows st =
     do { x \<leftarrow> ArrayStage cfg sv rows (PrepareStage cfg sv rows st);
          x \<leftarrow> MultiRowStage cfg sv rows x;
          x \<leftarrow> MultiRowRest cfg sv rows (ParamArrayStage cfg sv rows x);
          Some (RowStage cfg sv rows x) }"

text \<open>What \<^verbatim>\<open>get_next\<close> of the bound stream gives: a batch, a failure, or a batch nanoarrow refuses.\<close>

datatype 'f stream_item = Batch "'f cell list list" | GetNextFails | BadBatch

fun ExecuteStream ::
  "'f insert_config \<Rightarrow> ('d, 'f) insert_server \<Rightarrow> 'f stream_item list \<Rightarrow> 'd insert_state \<Rightarrow> (status \<times> 'd insert_state) option" where
  "ExecuteStream cfg sv [] st = Some (ADBC_STATUS_OK, st)"
| "ExecuteStream cfg sv (Batch rows # items) st =
     do { (s, st) \<leftarrow> ExecuteBatch cfg sv rows st;
          if s = ADBC_STATUS_OK then ExecuteStream cfg sv items st else Some (s, st) }"
| "ExecuteStream cfg sv (_ # items) st = Some (ADBC_STATUS_INVALID_ARGUMENT, st)"

text \<open>What the connection remembers from earlier executes.\<close>

record insert_memory =
  im_multirow_probed :: bool
  im_multirow_unsupported :: bool
  im_multirow_form :: OdbcMultiRowForm
  im_multirow_max_params :: nat
  im_array_probed :: bool
  im_array_unsupported :: bool

definition ExecuteRowsInit :: "'f insert_config \<Rightarrow> insert_memory \<Rightarrow> 'd \<Rightarrow> 'd insert_state" where
  "ExecuteRowsInit cfg mem d =
     \<lparr>is_d = d, mr_ready = False, mr_active = False, mr_form = ODBC_MULTIROW_VALUES, mr_cast_types = [], mr_rows = 0,
      mr_tail = None, mc_multirow_probed = im_multirow_probed mem, mc_multirow_unsupported = im_multirow_unsupported mem,
      mc_multirow_form = im_multirow_form mem, mc_multirow_max_params = im_multirow_max_params mem,
      ai_ready = False, ai_active = False, ai_rows = 0, mc_array_probed = im_array_probed mem,
      mc_array_unsupported = im_array_unsupported mem,
      is_use_array = (ci_array_binding cfg \<and> ci_ncols cfg > 0), is_txn = False, is_seen = 0, is_applied = False, is_total = 0\<rparr>"

text \<open>The status, the rows reported as affected when it is OK, and the driver's state at the end.\<close>

definition ExecuteRows ::
  "'f insert_config \<Rightarrow> ('d, 'f) insert_server \<Rightarrow> 'f stream_item list \<Rightarrow> insert_memory \<Rightarrow> 'd \<Rightarrow> (status \<times> int option \<times> 'd) option" where
  "ExecuteRows cfg sv items mem d =
     do { (s, st) \<leftarrow> ExecuteStream cfg sv items (ExecuteRowsInit cfg mem d);
          let (txn_status, st) = OdbcAutoTxnEnd sv (s = ADBC_STATUS_OK) st;
              s = (if s = ADBC_STATUS_OK then txn_status else s)
          in Some (s, if s = ADBC_STATUS_OK then Some (is_total st) else None, is_d st) }"

end
