(* ===== verification/BulkSafe.thy ===== *)
theory BulkSafe
  imports BulkIngest
begin

text \<open>
  What \<open>ExecuteRows\<close> guarantees: every row of the bound stream reaches the server exactly once, in
  whatever mixture of ways the batches are sent and however often a way is refused, and a failed
  execute leaves nothing behind but what was committed before its transaction was opened.
\<close>

section \<open>What the code relies on\<close>

text \<open>
  The database as the code sees it: the rows inserted for good, those inserted by the open
  transaction, and whether statements commit by themselves.
\<close>

record 'f table =
  tb_committed :: "'f cell list list"
  tb_pending :: "'f cell list list"
  tb_auto :: bool

definition insert_rows :: "'f cell list list \<Rightarrow> 'f table \<Rightarrow> 'f table" where
  "insert_rows rs t =
     (if tb_auto t then t\<lparr>tb_committed := tb_committed t @ rs\<rparr> else t\<lparr>tb_pending := tb_pending t @ rs\<rparr>)"

text \<open>A row of the bound schema: values of the columns' types.\<close>

definition cell_typed :: "ingest_type \<Rightarrow> 'f cell \<Rightarrow> bool" where
  "cell_typed ty x \<longleftrightarrow>
     (case x of
        CNull \<Rightarrow> True
      | CText s \<Rightarrow> ty \<in> {IT_STRING, IT_BINARY, IT_DICTIONARY, IT_OTHER}
      | CFloat f \<Rightarrow> (case ty of IT_FLOAT w \<Rightarrow> True | _ \<Rightarrow> ty = IT_OTHER)
      | CInt v \<Rightarrow> (case ty of IT_FLOAT w \<Rightarrow> False | _ \<Rightarrow> ty \<notin> {IT_STRING, IT_BINARY, IT_DICTIONARY, IT_NA}))"

definition row_fits :: "'f insert_config \<Rightarrow> 'f cell list \<Rightarrow> bool" where
  "row_fits cfg r \<longleftrightarrow> list_all2 (\<lambda>ty x. cell_typed ty x \<and> cell_fits (ci_g17 cfg) ty x) (ci_types cfg) r"

text \<open>
  The sets of a parameter array that an honest driver has executed when it leaves \<open>rp\<close> behind: it
  counts the sets it went through, and where it fills the status array it does so for exactly these.
  What a driver could not tell of a set, its row count decides.
\<close>

definition set_landed :: "bool \<Rightarrow> array_reply \<Rightarrow> nat \<Rightarrow> bool" where
  "set_landed nb rp i \<longleftrightarrow>
     (case ar_status rp ! i of
        SQL_PARAM_SUCCESS \<Rightarrow> True
      | SQL_PARAM_SUCCESS_WITH_INFO \<Rightarrow> True
      | SQL_PARAM_DIAG_UNAVAILABLE \<Rightarrow> unknown_landed nb rp
      | _ \<Rightarrow> False)"

definition array_landed :: "'f insert_config \<Rightarrow> 'f cell list list \<Rightarrow> array_reply \<Rightarrow> 'f cell list list \<Rightarrow> bool" where
  "array_landed cfg rs rp ls \<longleftrightarrow>
     (case ar_ret rp of
        RET_ERROR s \<Rightarrow> s \<noteq> ADBC_STATUS_OK \<and> (ar_processed rp = 0 \<longrightarrow> ls = [])
      | _ \<Rightarrow>
          (let k = min (ar_processed rp) (length rs)
           in (\<forall>i < length rs. k \<le> i \<longrightarrow> ar_status rp ! i = SQL_PARAM_UNUSED)
              \<and> (k = 0 \<or> list_all ((=) SQL_PARAM_UNUSED) (ar_status rp) \<and> ls = take k rs
                 \<or> (\<forall>i < k. ar_status rp ! i \<noteq> SQL_PARAM_UNUSED)
                   \<and> ls = map ((!) rs) (filter (set_landed (ci_no_batch_counts cfg) rp) [0..<k]))))"

text \<open>
  A statement that fails has done nothing, one that succeeds has inserted its rows; array literals are
  read as PostgreSQL reads them, and insert the rows whose cells say what was read; the transaction
  calls do what ODBC says they do.
\<close>

definition silent_calls :: "('d, 'f) insert_server \<Rightarrow> ('d \<Rightarrow> 'f table) \<Rightarrow> bool" where
  "silent_calls sv view \<longleftrightarrow>
     (\<forall>s d. view (snd (sv_prepare sv s d)) = view d) \<and> (\<forall>i x d. view (snd (sv_bind sv i x d)) = view d)
   \<and> (\<forall>i x d. view (snd (sv_bind_text sv i x d)) = view d) \<and> (\<forall>d. view (snd (sv_array_verify sv d)) = view d)
   \<and> (\<forall>n d. view (snd (sv_paramset sv n d)) = view d) \<and> (\<forall>rs d. view (snd (sv_bind_columns sv rs d)) = view d)"

definition execute_inserts :: "'f insert_config \<Rightarrow> ('d, 'f) insert_server \<Rightarrow> ('d \<Rightarrow> 'f table) \<Rightarrow> bool" where
  "execute_inserts cfg sv view \<longleftrightarrow>
     (\<forall>rs d s d'. rs \<noteq> [] \<longrightarrow> list_all (row_fits cfg) rs
        \<longrightarrow> sv_execute sv (length rs) (group_params (ci_ncols cfg) rs) d = (s, d')
        \<longrightarrow> view d' = (if s = ADBC_STATUS_OK then insert_rows rs (view d) else view d))"

definition unnest_inserts :: "'f insert_config \<Rightarrow> ('d, 'f) insert_server \<Rightarrow> ('d \<Rightarrow> 'f table) \<Rightarrow> bool" where
  "unnest_inserts cfg sv view \<longleftrightarrow>
     (\<forall>rs lits d s d'. rs \<noteq> [] \<longrightarrow> list_all (row_fits cfg) rs \<longrightarrow> length lits = ci_ncols cfg
        \<longrightarrow> (\<forall>c < ci_ncols cfg. read_array (lits ! c) = Some (map (\<lambda>r. cell_says (ci_g17 cfg) (ci_types cfg ! c) (r ! c)) rs))
        \<longrightarrow> sv_unnest sv lits d = (s, d')
        \<longrightarrow> view d' = (if s = ADBC_STATUS_OK then insert_rows rs (view d) else view d))"

definition arrays_insert :: "'f insert_config \<Rightarrow> ('d, 'f) insert_server \<Rightarrow> ('d \<Rightarrow> 'f table) \<Rightarrow> bool" where
  "arrays_insert cfg sv view \<longleftrightarrow>
     (\<forall>rs d rp d'. rs \<noteq> [] \<longrightarrow> list_all (row_fits cfg) rs \<longrightarrow> sv_array sv rs d = (rp, d')
        \<longrightarrow> (\<exists>ls. array_landed cfg rs (written_status (length rs) rp) ls \<and> view d' = insert_rows ls (view d)))"

definition transactions_ok :: "('d, 'f) insert_server \<Rightarrow> ('d \<Rightarrow> 'f table) \<Rightarrow> bool" where
  "transactions_ok sv view \<longleftrightarrow>
     (\<forall>d ok d'. sv_autocommit sv False d = (ok, d') \<longrightarrow> view d' = (if ok then (view d)\<lparr>tb_auto := False\<rparr> else view d))
   \<and> (\<forall>d. view (snd (sv_autocommit sv True d))
           = \<lparr>tb_committed = tb_committed (view d) @ tb_pending (view d), tb_pending = [], tb_auto = True\<rparr>)
   \<and> (\<forall>commit d s d'. sv_end_tran sv commit d = (s, d') \<longrightarrow>
        (s = ADBC_STATUS_OK \<longrightarrow>
           view d' = (if commit then (view d)\<lparr>tb_committed := tb_committed (view d) @ tb_pending (view d), tb_pending := []\<rparr>
                      else (view d)\<lparr>tb_pending := []\<rparr>))
      \<and> (s \<noteq> ADBC_STATUS_OK \<and> tb_pending (view d) = [] \<longrightarrow> view d' = view d))"

definition server_ok :: "'f insert_config \<Rightarrow> ('d, 'f) insert_server \<Rightarrow> ('d \<Rightarrow> 'f table) \<Rightarrow> bool" where
  "server_ok cfg sv view \<longleftrightarrow>
     silent_calls sv view \<and> execute_inserts cfg sv view \<and> unnest_inserts cfg sv view \<and> arrays_insert cfg sv view
     \<and> transactions_ok sv view"

lemma silent_callsD:
  assumes "silent_calls sv view"
  shows "view (snd (sv_prepare sv s d)) = view d" "view (snd (sv_bind sv i x d)) = view d"
    "view (snd (sv_bind_text sv i t d)) = view d" "view (snd (sv_array_verify sv d)) = view d"
    "view (snd (sv_paramset sv i d)) = view d" "view (snd (sv_bind_columns sv rs d)) = view d"
  using assms by (simp_all add: silent_calls_def)

lemma insert_rows_simps [simp]:
  "insert_rows [] t = t" "insert_rows ys (insert_rows xs t) = insert_rows (xs @ ys) t" "tb_auto (insert_rows xs t) = tb_auto t"
  by (simp_all add: insert_rows_def)

section \<open>The effect of a piece of the code\<close>

text \<open>
  From \<open>st\<close> to \<open>st'\<close> the rows \<open>ls\<close> were executed, under the same transaction; group sizes stay usable,
  parameter arrays are never taken up again, and the count follows the rows as long as each
  execute reports its own.
\<close>

definition sized :: "'d insert_state \<Rightarrow> bool" where
  "sized st \<longleftrightarrow> (mr_active st \<longrightarrow> 2 \<le> mr_rows st) \<and> (ai_active st \<longrightarrow> 1 \<le> ai_rows st)"

definition exact_counts :: "('d, 'f) insert_server \<Rightarrow> bool" where
  "exact_counts sv \<longleftrightarrow> (\<forall>n ps d. case sv_execute sv n ps d of (s, d') \<Rightarrow> s = ADBC_STATUS_OK \<longrightarrow> sv_row_count sv d' = int n)"

definition effect ::
  "('d, 'f) insert_server \<Rightarrow> ('d \<Rightarrow> 'f table) \<Rightarrow> 'd insert_state \<Rightarrow> 'd insert_state \<Rightarrow> 'f cell list list \<Rightarrow> bool" where
  "effect sv view st st' ls \<longleftrightarrow>
     view (is_d st') = insert_rows ls (view (is_d st))
   \<and> is_txn st' = is_txn st \<and> is_seen st' = is_seen st
   \<and> (sized st \<longrightarrow> sized st') \<and> (is_use_array st' \<longrightarrow> is_use_array st)
   \<and> (exact_counts sv \<and> \<not> is_use_array st \<longrightarrow> is_total st' = is_total st + int (length ls))"

lemma effect_trans: "effect sv view st st1 xs \<Longrightarrow> effect sv view st1 st2 ys \<Longrightarrow> effect sv view st st2 (xs @ ys)"
  by (auto simp: effect_def)

lemma effect_refl [simp]: "effect sv view st st []"
  by (simp add: effect_def)

section \<open>Preparing changes nothing\<close>

lemma silent_step:
  assumes "silent_calls sv view"
  shows "sv_prepare sv s d = (b, d') \<Longrightarrow> view d' = view d" "sv_bind sv i x d = (r, d') \<Longrightarrow> view d' = view d"
    "sv_paramset sv i d = (b, d') \<Longrightarrow> view d' = view d" "sv_bind_columns sv rs d = (r, d') \<Longrightarrow> view d' = view d"
  using silent_callsD [OF assms] by (metis snd_conv)+

text \<open>Preparing and probing: only the driver's own state, the fields of the two forms and the memory.\<close>

lemma BindParams_view: "silent_calls sv view \<Longrightarrow> view (snd (BindParams sv i xs d)) = view d"
  by (induction xs arbitrary: i d) (auto simp: Let_def split_beta silent_callsD)

lemma BindTexts_view: "silent_calls sv view \<Longrightarrow> view (snd (BindTexts sv i xs d)) = view d"
  by (induction xs arbitrary: i d) (auto simp: Let_def split_beta silent_callsD)

definition prepares :: "('d \<Rightarrow> 'f table) \<Rightarrow> 'd insert_state \<Rightarrow> 'd insert_state \<Rightarrow> bool" where
  "prepares view st st' \<longleftrightarrow>
     view (is_d st') = view (is_d st) \<and> is_txn st' = is_txn st \<and> is_seen st' = is_seen st
   \<and> is_use_array st' = is_use_array st \<and> is_total st' = is_total st \<and> is_applied st' = is_applied st
   \<and> (sized st \<longrightarrow> sized st')"

lemma prepares_refl [simp]: "prepares view st st"
  by (simp add: prepares_def)

lemma prepares_trans: "prepares view st st1 \<Longrightarrow> prepares view st1 st2 \<Longrightarrow> prepares view st st2"
  by (simp add: prepares_def)

lemma prepares_effect: "prepares view st st' \<Longrightarrow> effect sv view st st' []"
  by (simp add: prepares_def effect_def)

lemma prepares_applied: "prepares view st st' \<Longrightarrow> is_applied st' = is_applied st"
  by (simp add: prepares_def)

text \<open>The fields only the set-up of the forms writes.\<close>

lemma prepares_fields [simp]:
  "prepares view st (st'\<lparr>mr_ready := b\<rparr>) = prepares view st st'"
  "prepares view st (st'\<lparr>mr_form := f\<rparr>) = prepares view st st'"
  "prepares view st (st'\<lparr>mr_cast_types := ts\<rparr>) = prepares view st st'"
  "prepares view st (st'\<lparr>mr_tail := x\<rparr>) = prepares view st st'"
  "prepares view st (st'\<lparr>mc_multirow_probed := b\<rparr>) = prepares view st st'"
  "prepares view st (st'\<lparr>mc_multirow_unsupported := b\<rparr>) = prepares view st st'"
  "prepares view st (st'\<lparr>mc_multirow_form := f\<rparr>) = prepares view st st'"
  "prepares view st (st'\<lparr>mc_multirow_max_params := k\<rparr>) = prepares view st st'"
  "prepares view st (st'\<lparr>ai_ready := b\<rparr>) = prepares view st st'"
  "prepares view st (st'\<lparr>mc_array_probed := b\<rparr>) = prepares view st st'"
  "prepares view st (st'\<lparr>mc_array_unsupported := b\<rparr>) = prepares view st st'"
  by (simp_all add: prepares_def sized_def)

lemma prepares_stop:
  "prepares view st st' \<Longrightarrow> prepares view st (st'\<lparr>mr_active := False\<rparr>)"
  "prepares view st st' \<Longrightarrow> prepares view st (st'\<lparr>ai_active := False\<rparr>)"
  by (auto simp: prepares_def sized_def)

lemma prepares_go:
  "prepares view st st' \<Longrightarrow> 2 \<le> k \<Longrightarrow> prepares view st (st'\<lparr>mr_rows := k\<rparr>)"
  "prepares view st st' \<Longrightarrow> 2 \<le> mr_rows st' \<Longrightarrow> prepares view st (st'\<lparr>mr_active := True\<rparr>)"
  "prepares view st st' \<Longrightarrow> 1 \<le> k \<Longrightarrow> prepares view st (st'\<lparr>ai_rows := k, ai_active := True\<rparr>)"
  by (auto simp: prepares_def sized_def)

lemma prepares_d: "prepares view st st' \<Longrightarrow> view d = view (is_d st') \<Longrightarrow> prepares view st (st'\<lparr>is_d := d\<rparr>)"
  by (simp add: prepares_def sized_def)

lemma MultiRowPrepareForm_view:
  "silent_calls sv view \<Longrightarrow> view (snd (MultiRowPrepareForm cfg sv rows form ts d)) = view d"
  by (simp add: MultiRowPrepareForm_def silent_callsD)

lemma MultiRowPrepare_prepares:
  assumes "silent_calls sv view" "MultiRowPrepare cfg sv rows st = (ok, st')"
  shows "prepares view st st'" "mr_rows st' = mr_rows st"
  using assms MultiRowPrepareForm_view [OF assms(1), of cfg rows "mr_form st" "mr_cast_types st" "is_d st"]
  by (auto simp: MultiRowPrepare_def split: prod.splits intro: prepares_d)

lemma MultiRowHalve_prepares:
  assumes "silent_calls sv view" "MultiRowHalve cfg sv k st = (got, st')"
  shows "prepares view st st' \<and> mr_rows st' = mr_rows st \<and> got \<le> k \<and> (got = 0 \<or> 2 \<le> got)"
  using assms
proof (induction cfg sv k st rule: MultiRowHalve.induct)
  case (1 cfg sv k st)
  show ?case
  proof (cases "k < 2")
    case True
    with 1 show ?thesis by (simp add: MultiRowHalve.simps [of cfg sv k])
  next
    case False
    obtain ok st1 where p: "MultiRowPrepare cfg sv k st = (ok, st1)" by fastforce
    note pp = MultiRowPrepare_prepares [OF 1(2) p]
    show ?thesis
    proof (cases ok)
      case True
      with 1(3) False p pp show ?thesis by (auto simp: MultiRowHalve.simps [of cfg sv k])
    next
      case nok: False
      with 1(3) False p have "MultiRowHalve cfg sv (k div 2) st1 = (got, st')"
        by (simp add: MultiRowHalve.simps [of cfg sv k])
      with 1(1) [OF False _ _ _ 1(2) this] p nok have
        "prepares view st1 st' \<and> mr_rows st' = mr_rows st1 \<and> got \<le> k div 2 \<and> (got = 0 \<or> 2 \<le> got)" by auto
      then show ?thesis using pp by (auto intro: prepares_trans order_trans [OF _ div_le_dividend])
    qed
  qed
qed

lemma MultiRowProbe_view:
  assumes "silent_calls sv view"
  shows "view (snd (MultiRowProbe cfg sv casts d)) = view d"
  using MultiRowPrepareForm_view [OF assms]
  by (simp add: MultiRowProbe_def Let_def split_beta split: option.splits)

lemma MultiRowFindForm_prepares:
  assumes "silent_calls sv view" "MultiRowFindForm cfg sv casts st = (found, st')"
  shows "prepares view st st'"
proof -
  obtain r d where p: "MultiRowProbe cfg sv casts (is_d st) = (r, d)" by fastforce
  then have "view d = view (is_d st)" using MultiRowProbe_view [OF assms(1), of cfg casts "is_d st"] by simp
  with assms(2) p show ?thesis
    by (auto simp: MultiRowFindForm_def split: if_splits option.splits intro!: prepares_d)
qed

lemma MultiRowStart_prepares:
  assumes "silent_calls sv view"
  shows "prepares view st (MultiRowStart cfg sv k st)"
proof -
  obtain got st' where h: "MultiRowHalve cfg sv k st = (got, st')" by fastforce
  from MultiRowHalve_prepares [OF assms h] have "prepares view st st'" "got = 0 \<or> 2 \<le> got" by auto
  then show ?thesis by (auto simp: MultiRowStart_def h intro!: prepares_go)
qed

lemma MultiRowSetup_prepares:
  assumes "silent_calls sv view"
  shows "prepares view st (MultiRowSetup cfg sv st)"
proof -
  define casts where "casts = (if union_offered cfg then MultiRowCastTypes cfg else None)"
  obtain found st1 where f: "MultiRowFindForm cfg sv casts (st\<lparr>mr_ready := True\<rparr>) = (found, st1)" by fastforce
  have p: "prepares view st st1"
    using MultiRowFindForm_prepares [OF assms f] by (rule prepares_trans [rotated]) simp
  have start: "prepares view st (MultiRowStart cfg sv k st2)" if "prepares view st st2" for k st2
    using that MultiRowStart_prepares [OF assms] by (rule prepares_trans)
  show ?thesis
    unfolding MultiRowSetup_def casts_def [symmetric] Let_def f case_prod_conv
    using p by (auto intro!: start)
qed

lemma ArrayIngestSetup_prepares:
  assumes "silent_calls sv view"
  shows "prepares view st (ArrayIngestSetup cfg sv st)"
proof -
  obtain ok st1 where v: "ArrayIngestVerify sv (st\<lparr>ai_ready := True\<rparr>) = (ok, st1)" by fastforce
  have p: "prepares view st st1"
    using v silent_callsD(4) [OF assms, of "is_d st"]
    by (auto simp: ArrayIngestVerify_def split: if_splits prod.splits intro!: prepares_d)
  show ?thesis
    unfolding ArrayIngestSetup_def Let_def v case_prod_conv
    using p
    by (auto dest: silent_step(1) [OF assms] simp: ADBC_ODBC_ARRAY_INGEST_ROWS_def split: option.splits prod.splits intro!: prepares_go prepares_d)
qed

section \<open>The ways to send rows\<close>

lemma effect_prepared: "prepares view st st1 \<Longrightarrow> effect sv view st1 st2 ls \<Longrightarrow> effect sv view st st2 ls"
  using effect_trans [OF prepares_effect] by fastforce

lemma prepared_effect: "effect sv view st st1 ls \<Longrightarrow> prepares view st1 st2 \<Longrightarrow> effect sv view st st2 ls"
  using effect_trans [OF _ prepares_effect] by fastforce

lemma effect_d:
  "view d = insert_rows ls (view (is_d st)) \<Longrightarrow> effect sv view st (st\<lparr>is_d := d, is_total := is_total st + int (length ls)\<rparr>) ls"
  by (simp add: effect_def sized_def)

lemma MultiRowGroupFor_prepares:
  assumes "silent_calls sv view" "MultiRowGroupFor cfg sv n st = (ok, st')"
  shows "prepares view st st' \<and> mr_rows st' = mr_rows st"
proof -
  obtain b st1 where p: "MultiRowPrepare cfg sv n (st\<lparr>mr_tail := None\<rparr>) = (b, st1)" by fastforce
  note q = MultiRowPrepare_prepares [OF assms(1) p]
  have "prepares view st st1" by (rule prepares_trans [OF _ q(1)]) simp
  moreover have "mr_rows st1 = mr_rows st" using q(2) by simp
  ultimately show ?thesis using assms(2) p by (auto simp: MultiRowGroupFor_def split: if_splits)
qed

lemma MultiRowNarrow_prepares:
  assumes "silent_calls sv view" "MultiRowNarrow cfg sv st = (ok, st')"
  shows "prepares view st st'" "ok \<Longrightarrow> 2 \<le> mr_rows st' \<and> mr_rows st' < mr_rows st"
proof -
  obtain k st1 where h: "MultiRowHalve cfg sv (mr_rows st div 2) st = (k, st1)" by fastforce
  from MultiRowHalve_prepares [OF assms(1) h] assms(2) h
  show "prepares view st st'" "ok \<Longrightarrow> 2 \<le> mr_rows st' \<and> mr_rows st' < mr_rows st"
    by (auto simp: MultiRowNarrow_def split: if_splits intro!: prepares_go)
qed

lemma MultiRowExecGroup_effect:
  assumes "server_ok cfg sv view" "rs \<noteq> []" "list_all (row_fits cfg) rs" "MultiRowExecGroup cfg sv rs st = (s, st')"
  shows "effect sv view st st' (if s = ADBC_STATUS_OK then rs else []) \<and> mr_rows st' = mr_rows st
       \<and> is_applied st' = is_applied st"
proof -
  let ?ps = "group_params (ci_ncols cfg) rs"
  have silent: "silent_calls sv view" and ex: "execute_inserts cfg sv view"
    using assms(1) by (simp_all add: server_ok_def)
  obtain b d where b: "BindParams sv 1 ?ps (is_d st) = (b, d)" by fastforce
  then have d: "view d = view (is_d st)" using BindParams_view [OF silent, of 1 ?ps "is_d st"] by simp
  obtain r d' where r: "sv_execute sv (length rs) ?ps d = (r, d')" by fastforce
  have d': "view d' = (if r = ADBC_STATUS_OK then insert_rows rs (view d) else view d)"
    using ex assms(2,3) r unfolding execute_inserts_def by blast
  show ?thesis
    using assms(4) b d d' r effect_d [of view d' rs st sv]
    by (auto simp: MultiRowExecGroup_def Let_def effect_def sized_def split: if_splits)
qed

lemma list_all_part: "list_all P xs \<Longrightarrow> list_all P (take n (drop m xs))"
  by (auto simp: list_all_iff dest: in_set_takeD in_set_dropD)

lemma take_drop_join:
  "row + n \<le> done \<Longrightarrow> take n (drop row xs) @ take (done - (row + n)) (drop (row + n) xs) = take (done - row) (drop row xs)"
proof -
  assume "row + n \<le> done"
  then have "done - row = n + (done - (row + n))" by simp
  then show ?thesis by (metis add.commute drop_drop take_add)
qed

text \<open>A batch path: what it did, by its status and whether it fell back.\<close>

definition batch_outcome ::
  "('d, 'f) insert_server \<Rightarrow> ('d \<Rightarrow> 'f table) \<Rightarrow> 'f cell list list \<Rightarrow> bool \<Rightarrow> nat \<Rightarrow> 'd insert_state
   \<Rightarrow> status \<times> nat \<times> bool \<times> 'd insert_state \<Rightarrow> bool" where
  "batch_outcome sv view rows virgin row st x \<longleftrightarrow>
     (case x of (s, done, fell_back, st') \<Rightarrow>
        is_applied st' = is_applied st
      \<and> (if s \<noteq> ADBC_STATUS_OK then done = 0 \<and> \<not> fell_back \<and> (\<exists>ls. effect sv view st st' ls)
         else if fell_back then done = 0 \<and> row = 0 \<and> virgin \<and> effect sv view st st' []
         else row \<le> done \<and> done \<le> length rows \<and> effect sv view st st' (take (done - row) (drop row rows))))"

lemma batch_outcome_step:
  assumes "effect sv view st st1 (take n (drop row rows))" "is_applied st1 = is_applied st"
    "batch_outcome sv view rows virgin (row + n) st1 x" "n > 0"
  shows "batch_outcome sv view rows virgin row st x"
proof -
  obtain s k fell st' where x: "x = (s, k, fell, st')" by (cases x)
  note tr = effect_trans [OF assms(1), of st']
  show ?thesis
  proof (cases "s = ADBC_STATUS_OK \<and> \<not> fell")
    case True
    then have k: "row + n \<le> k" "k \<le> length rows" "effect sv view st1 st' (take (k - (row + n)) (drop (row + n) rows))"
      using assms(3) by (simp_all add: batch_outcome_def x)
    have "effect sv view st st' (take (k - row) (drop row rows))"
      using tr [OF k(3)] take_drop_join [OF k(1), of rows] by simp
    with True k(1,2) assms(2,3) show ?thesis by (simp add: batch_outcome_def x)
  next
    case False
    with assms(2-4) tr show ?thesis by (auto simp: batch_outcome_def x split: if_splits)
  qed
qed

lemma batch_outcome_prepared:
  assumes "prepares view st st1" "batch_outcome sv view rows virgin row st1 x"
  shows "batch_outcome sv view rows virgin row st x"
  using assms effect_prepared [OF assms(1)]
  unfolding batch_outcome_def by (auto split: prod.splits if_splits simp: prepares_def)

lemma MultiRowLoop_outcome:
  assumes "server_ok cfg sv view" "list_all (row_fits cfg) rows"
    "MultiRowLoop fuel cfg sv rows virgin row st = Some x" "row \<le> length rows" "2 \<le> mr_rows st"
  shows "batch_outcome sv view rows virgin row st x"
  using assms(3-5)
proof (induction fuel arbitrary: row st)
  case (Suc fuel)
  have silent: "silent_calls sv view" using assms(1) by (simp add: server_ok_def)
  show ?case
  proof (cases "length rows - row < 2")
    case True
    with Suc.prems show ?thesis by (auto simp: batch_outcome_def)
  next
    case False
    define n where "n = min (length rows - row) (mr_rows st)"
    have n: "0 < n" "row + n \<le> length rows" using False Suc.prems(3) by (auto simp: n_def)
    obtain ok st1 where g: "MultiRowGroupFor cfg sv n st = (ok, st1)" by fastforce
    note gp = MultiRowGroupFor_prepares [OF silent g]
    define rs where "rs = take n (drop row rows)"
    have rs: "rs \<noteq> []" "list_all (row_fits cfg) rs" using n assms(2) by (auto simp: rs_def list_all_part)
    obtain s st2 where e: "MultiRowExecGroup cfg sv rs st1 = (s, st2)" by fastforce
    note ep = MultiRowExecGroup_effect [OF assms(1) rs e]
    obtain ok' st3 where w: "MultiRowNarrow cfg sv st2 = (ok', st3)" by fastforce
    note wp = MultiRowNarrow_prepares [OF silent w]
    have e2: "effect sv view st st2 (if s = ADBC_STATUS_OK then rs else [])"
      using gp ep by (blast intro: effect_prepared)
    have a2: "is_applied st2 = is_applied st" using prepares_applied [OF conjunct1 [OF gp]] ep by simp
    have e3: "effect sv view st st3 []" if "s \<noteq> ADBC_STATUS_OK"
      using prepared_effect [OF e2 wp(1)] that by simp
    have a3: "is_applied st3 = is_applied st" using prepares_applied [OF wp(1)] a2 by simp
    have step: "MultiRowLoop (Suc fuel) cfg sv rows virgin row st =
       (if \<not> ok then Some (ADBC_STATUS_OK, row, False, st1)
        else if s = ADBC_STATUS_OK then MultiRowLoop fuel cfg sv rows virgin (row + n) st2
        else if \<not> virgin \<or> row \<noteq> 0 then Some (s, 0, False, st2)
        else if ok' then MultiRowLoop fuel cfg sv rows virgin row st3
        else Some (ADBC_STATUS_OK, 0, True, st3\<lparr>mc_multirow_unsupported := True, mr_active := False\<rparr>))"
      using False g e w by (simp add: n_def [symmetric] rs_def [symmetric])
    consider (none) "\<not> ok" | (good) "ok" "s = ADBC_STATUS_OK" | (err) "ok" "s \<noteq> ADBC_STATUS_OK" "\<not> virgin \<or> row \<noteq> 0"
      | (narrow) "ok" "s \<noteq> ADBC_STATUS_OK" "virgin" "row = 0" "ok'" | (fall) "ok" "s \<noteq> ADBC_STATUS_OK" "virgin" "row = 0" "\<not> ok'"
      by blast
    then show ?thesis
    proof cases
      case none
      with Suc.prems(1,2) step gp show ?thesis
        using prepares_applied [OF conjunct1 [OF gp]] by (simp add: batch_outcome_def prepares_effect)
    next
      case good
      have "batch_outcome sv view rows virgin (row + n) st2 x"
        using Suc.IH [of "row + n" st2] Suc.prems n step good gp ep by simp
      then show ?thesis using batch_outcome_step [OF _ a2 _ n(1)] e2 good by (simp add: rs_def)
    next
      case err
      with Suc.prems(1) step e2 a2 show ?thesis by (auto simp: batch_outcome_def)
    next
      case narrow
      have "batch_outcome sv view rows virgin row st3 x"
        using Suc.IH [of row st3] Suc.prems narrow step wp(2) by simp
      then show ?thesis using e3 a3 narrow effect_trans unfolding batch_outcome_def
        by (fastforce split: prod.splits if_splits)
    next
      case fall
      let ?st4 = "st3\<lparr>mc_multirow_unsupported := True, mr_active := False\<rparr>"
      have "prepares view st3 ?st4" using prepares_stop(1) [of view st3 "st3\<lparr>mc_multirow_unsupported := True\<rparr>"] by simp
      with fall Suc.prems(1) step e3 a3 show ?thesis
        using prepared_effect [of sv view st st3 "[]" ?st4] by (auto simp: batch_outcome_def)
    qed
  qed
qed simp

lemma MultiRowLoop_returns:
  assumes "silent_calls sv view" "length rows - row + mr_rows st < fuel" "2 \<le> mr_rows st"
    "\<And>rs st s st'. MultiRowExecGroup cfg sv rs st = (s, st') \<Longrightarrow> mr_rows st' = mr_rows st"
  shows "MultiRowLoop fuel cfg sv rows virgin row st \<noteq> None"
  using assms(2,3)
proof (induction fuel arbitrary: row st)
  case (Suc fuel)
  define n where "n = min (length rows - row) (mr_rows st)"
  obtain ok st1 where g: "MultiRowGroupFor cfg sv n st = (ok, st1)" by fastforce
  note gp = MultiRowGroupFor_prepares [OF assms(1) g]
  obtain s st2 where e: "MultiRowExecGroup cfg sv (take n (drop row rows)) st1 = (s, st2)" by fastforce
  note ep = assms(4) [OF e]
  obtain ok' st3 where w: "MultiRowNarrow cfg sv st2 = (ok', st3)" by fastforce
  note wp = MultiRowNarrow_prepares [OF assms(1) w]
  have "MultiRowLoop fuel cfg sv rows virgin (row + n) st2 \<noteq> None" if "\<not> length rows - row < 2"
    using that Suc.prems gp ep by (intro Suc.IH) (auto simp: n_def)
  moreover have "MultiRowLoop fuel cfg sv rows virgin row st3 \<noteq> None" if "ok'"
    using that Suc.prems gp ep wp(2) by (intro Suc.IH) auto
  ultimately show ?case using g e w by (auto simp: n_def [symmetric] Let_def)
qed simp

lemma fold_min_all: "fold min xs (n::nat) = n \<Longrightarrow> x \<in> set xs \<Longrightarrow> n \<le> x"
proof (induction xs arbitrary: n)
  case (Cons y ys)
  have "fold min ys (min y n) \<le> min y n" by (rule fold_min_le)
  with Cons.prems(1) have "min y n = n" by simp
  with Cons show ?case by auto
qed simp

text \<open>The columns that are sent hold the same, non-zero number of rows.\<close>

lemma ArrayIngestRender_agrees:
  assumes "ArrayIngestRender cfg rows n = Some (m, lits)" "n \<le> length rows" "0 < n"
  shows "0 < m \<and> m \<le> n \<and> lits = map snd (ArrayIngestColumns cfg (take m rows))
       \<and> list_all (\<lambda>c. fst c = m) (ArrayIngestColumns cfg (take m rows))"
  using assms
proof (induction cfg rows n rule: ArrayIngestRender.induct)
  case (1 cfg rows n)
  define cols where "cols = ArrayIngestColumns cfg (take n rows)"
  define k where "k = fold min (map fst cols) n"
  have kn: "k \<le> n" by (simp add: k_def fold_min_le)
  have step: "ArrayIngestRender cfg rows n =
     (if k = n then Some (n, map snd cols) else if k = 0 then None else ArrayIngestRender cfg rows k)"
    by (subst ArrayIngestRender.simps) (simp add: cols_def k_def Let_def)
  show ?case
  proof (cases "k = n")
    case True
    have "fst c = n" if c: "c \<in> set cols" for c
    proof -
      obtain g ty i where "c = ArrayIngestFillColumn g ty (map (\<lambda>r. r ! i) (take n rows))"
        using c by (auto simp: cols_def ArrayIngestColumns_def)
      then have "fst c \<le> n" using ArrayIngestFillColumn_fit_le [of g ty "map (\<lambda>r. r ! i) (take n rows)"] by simp
      moreover have "n \<le> fst c" using fold_min_all [of "map fst cols" n "fst c"] True c by (simp add: k_def)
      ultimately show ?thesis by simp
    qed
    with True "1.prems" step show ?thesis by (auto simp: cols_def list_all_iff)
  next
    case False
    with step "1.prems" have "ArrayIngestRender cfg rows k = Some (m, lits)" "k \<noteq> 0" by (auto split: if_splits)
    with "1.IH" [OF cols_def k_def False] False kn "1.prems" show ?thesis
      by (auto simp: k_def cols_def)
  qed
qed

text \<open>So they read back as the rows they were made from.\<close>

lemma ArrayIngestColumns_read:
  assumes "list_all (row_fits cfg) rs" "list_all (\<lambda>c. fst c = length rs) (ArrayIngestColumns cfg rs)" "c < ci_ncols cfg"
  shows "read_array (map snd (ArrayIngestColumns cfg rs) ! c)
       = Some (map (\<lambda>r. cell_says (ci_g17 cfg) (ci_types cfg ! c) (r ! c)) rs)"
proof -
  let ?col = "map (\<lambda>r. r ! c) rs"
  have "list_all (cell_fits (ci_g17 cfg) (ci_types cfg ! c)) ?col"
    using assms(1,3) by (auto simp: list_all_iff row_fits_def ci_ncols_def dest!: list_all2_nthD)
  from ArrayIngestFillColumn_texts [OF this] assms(2,3) show ?thesis
    by (simp add: ArrayIngestColumns_def list_all_iff comp_def)
qed

lemma ArrayIngestColumns_length [simp]: "length (ArrayIngestColumns cfg rs) = ci_ncols cfg"
  by (simp add: ArrayIngestColumns_def)

lemma ArrayIngestLoop_outcome:
  assumes "server_ok cfg sv view" "list_all (row_fits cfg) rows"
    "ArrayIngestLoop fuel cfg sv rows virgin row st = Some x" "row \<le> length rows" "1 \<le> ai_rows st"
  shows "batch_outcome sv view rows virgin row st x"
  using assms(3-5)
proof (induction fuel arbitrary: row st)
  case (Suc fuel)
  have silent: "silent_calls sv view" and un: "unnest_inserts cfg sv view" using assms(1) by (simp_all add: server_ok_def)
  show ?case
  proof (cases "length rows - row < 1")
    case True
    with Suc.prems show ?thesis by (auto simp: batch_outcome_def)
  next
    case left: False
    let ?n = "min (length rows - row) (ai_rows st)"
    show ?thesis
    proof (cases "ArrayIngestRender cfg (drop row rows) ?n")
      case None
      have "effect sv view st (st\<lparr>ai_active := False\<rparr>) []" by (simp add: effect_def sized_def)
      with None Suc.prems left show ?thesis by (auto simp: batch_outcome_def)
    next
      case (Some r)
      obtain m lits where r: "r = (m, lits)" by fastforce
      define rs where "rs = take m (drop row rows)"
      have m: "0 < m" "m \<le> ?n" "lits = map snd (ArrayIngestColumns cfg rs)" "list_all (\<lambda>c. fst c = m) (ArrayIngestColumns cfg rs)"
        using ArrayIngestRender_agrees [OF Some [unfolded r]] left Suc.prems(3) by (auto simp: rs_def)
      have len: "length rs = m" "rs \<noteq> []" "list_all (row_fits cfg) rs" "row + m \<le> length rows"
        using m left assms(2) by (auto simp: rs_def list_all_part)
      obtain b d where b: "BindTexts sv 1 lits (is_d st) = (b, d)" by fastforce
      then have d: "view d = view (is_d st)" using BindTexts_view [OF silent, of 1 lits "is_d st"] by simp
      obtain s d' where s: "sv_unnest sv lits d = (s, d')" by fastforce
      have d': "view d' = (if s = ADBC_STATUS_OK then insert_rows rs (view d) else view d)"
        using un [unfolded unnest_inserts_def, rule_format, OF len(2,3) _ _ s] ArrayIngestColumns_read [OF len(3)] m(3,4) len(1)
        by simp
      let ?st2 = "st\<lparr>is_d := d', is_total := is_total st + int m\<rparr>"
      have step: "ArrayIngestLoop (Suc fuel) cfg sv rows virgin row st =
         (if b \<noteq> ADBC_STATUS_OK then Some (b, 0, False, st\<lparr>is_d := d\<rparr>)
          else if s = ADBC_STATUS_OK then ArrayIngestLoop fuel cfg sv rows virgin (row + m) ?st2
          else if \<not> virgin \<or> row \<noteq> 0 then Some (s, 0, False, st\<lparr>is_d := d'\<rparr>)
          else Some (ADBC_STATUS_OK, 0, True, st\<lparr>is_d := d', ai_active := False\<rparr>))"
        using left b s Some r by simp
      show ?thesis
      proof (cases "b = ADBC_STATUS_OK \<and> s = ADBC_STATUS_OK")
        case True
        have "effect sv view st ?st2 rs" using effect_d [of view d' rs st sv] True d d' len(1) by simp
        moreover have "batch_outcome sv view rows virgin (row + m) ?st2 x"
          using Suc.IH [of "row + m" ?st2] Suc.prems True step len(4) by (simp del: ArrayIngestLoop.simps)
        ultimately show ?thesis using batch_outcome_step [of sv view st ?st2 m row rows virgin x] m(1) by (simp add: rs_def)
      next
        case False
        then have "effect sv view st (st\<lparr>is_d := d\<rparr>) []"
          "s \<noteq> ADBC_STATUS_OK \<longrightarrow> effect sv view st (st\<lparr>is_d := d'\<rparr>) [] \<and> effect sv view st (st\<lparr>is_d := d', ai_active := False\<rparr>) []"
          using d d' by (auto simp: effect_def sized_def)
        with False Suc.prems(1) step show ?thesis
          by (auto simp: batch_outcome_def simp del: ArrayIngestLoop.simps split: if_splits)
      qed
    qed
  qed
qed simp

lemma ArrayIngestLoop_returns:
  assumes "length rows - row < fuel" "row \<le> length rows" "1 \<le> ai_rows st"
  shows "ArrayIngestLoop fuel cfg sv rows virgin row st \<noteq> None"
  using assms
proof (induction fuel arbitrary: row st)
  case (Suc fuel)
  show ?case
  proof (cases "length rows - row < 1")
    case left: False
    let ?n = "min (length rows - row) (ai_rows st)"
    show ?thesis
    proof (cases "ArrayIngestRender cfg (drop row rows) ?n")
      case (Some r)
      then obtain m lits where r: "r = (m, lits)" "0 < m" "m \<le> ?n"
        using ArrayIngestRender_agrees [of cfg "drop row rows" ?n] left Suc.prems(3) by (cases r) auto
      have "ArrayIngestLoop fuel cfg sv rows virgin (row + m) (st\<lparr>is_d := d, is_total := t\<rparr>) \<noteq> None" for d t
        using Suc.prems r left by (intro Suc.IH) auto
      then show ?thesis using Some r(1) left by (simp add: Let_def split_beta del: not_None_eq)
    qed (use left in simp)
  qed simp
qed simp

section \<open>Parameter arrays\<close>

lemma list_all_unused_retry: "list_all ((=) SQL_PARAM_UNUSED) xs \<Longrightarrow> i < length xs \<Longrightarrow> \<not> set_retried b (xs ! i)"
  by (auto simp: list_all_length set_retried_def)

lemma mset_filter_parts:
  "mset (map f (filter (\<lambda>i. \<not> P i) xs)) + mset (map f (filter P xs)) = mset (map f xs)"
  by (induction xs) auto

text \<open>What landed and what is run again make up the sets the driver went through.\<close>

lemma array_landed_split:
  assumes "array_landed cfg rs rp ls" "\<forall>s. ar_ret rp \<noteq> RET_ERROR s" "length (ar_status rp) = length rs"
    and "nb = ci_no_batch_counts cfg" "k = sets_done nb rp" "k \<noteq> 0"
  defines "again \<equiv> filter (\<lambda>i. set_retried (unknown_landed nb rp) (ar_status rp ! i)) [0..<length rs]"
  shows "k \<le> length rs \<and> mset ls + mset (map ((!) rs) again) = mset (take k rs) \<and> (\<forall>i \<in> set again. i < k)"
proof -
  define p where "p = min (ar_processed rp) (length rs)"
  have land: "(\<forall>i < length rs. p \<le> i \<longrightarrow> ar_status rp ! i = SQL_PARAM_UNUSED)
              \<and> (p = 0 \<or> list_all ((=) SQL_PARAM_UNUSED) (ar_status rp) \<and> ls = take p rs
                 \<or> (\<forall>i < p. ar_status rp ! i \<noteq> SQL_PARAM_UNUSED) \<and> ls = map ((!) rs) (filter (set_landed nb rp) [0..<p]))"
    using assms(1,2) by (cases "ar_ret rp") (auto simp: array_landed_def p_def Let_def assms(4))
  have p0: "p \<noteq> 0"
  proof
    assume "p = 0"
    with land assms(3) have "list_all ((=) SQL_PARAM_UNUSED) (ar_status rp)" by (auto simp: list_all_length)
    then have "\<not> list_ex (\<lambda>s. s \<noteq> SQL_PARAM_UNUSED) (ar_status rp)" by (auto simp: list_all_iff list_ex_iff)
    with \<open>p = 0\<close> assms(3,5,6) show False by (auto simp: sets_done_def p_def Let_def)
  qed
  have "sets_done nb rp = (if p = 0 \<and> list_ex (\<lambda>s. s \<noteq> SQL_PARAM_UNUSED) (ar_status rp) then sets_applied nb rp else p)"
    unfolding sets_done_def p_def assms(3) Let_def by (rule refl)
  with p0 assms(5) have kp: "k = p" by simp
  have pn: "p \<le> length rs" by (simp add: p_def)
  have "again = filter (\<lambda>i. set_retried (unknown_landed nb rp) (ar_status rp ! i)) ([0..<p] @ [p..<length rs])"
    unfolding again_def using upt_add_eq_append [of 0 p "length rs - p"] pn by simp
  also have "\<dots> = filter (\<lambda>i. set_retried (unknown_landed nb rp) (ar_status rp ! i)) [0..<p]"
    using land by (auto simp: filter_empty_conv set_retried_def)
  finally have again: "again = filter (\<lambda>i. set_retried (unknown_landed nb rp) (ar_status rp ! i)) [0..<p]" .
  have tk: "take p rs = map ((!) rs) [0..<p]" using pn by (simp add: map_nth take_map [symmetric] list_eq_iff_nth_eq)
  have "mset ls + mset (map ((!) rs) again) = mset (take p rs)"
  proof (cases "list_all ((=) SQL_PARAM_UNUSED) (ar_status rp) \<and> ls = take p rs")
    case True
    then have "again = []" using list_all_unused_retry [of "ar_status rp"] assms(3) pn
      by (auto simp: again filter_empty_conv)
    with True show ?thesis by simp
  next
    case False
    with land p0 have filled: "\<forall>i < p. ar_status rp ! i \<noteq> SQL_PARAM_UNUSED" "ls = map ((!) rs) (filter (set_landed nb rp) [0..<p])"
      by auto
    have same: "set_landed nb rp i = (\<not> set_retried (unknown_landed nb rp) (ar_status rp ! i))" if "i < p" for i
      using filled(1) that by (cases "ar_status rp ! i") (auto simp: set_landed_def set_retried_def)
    have "filter (set_landed nb rp) [0..<p] = filter (\<lambda>i. \<not> set_retried (unknown_landed nb rp) (ar_status rp ! i)) [0..<p]"
      by (rule filter_cong) (simp_all add: same)
    with filled(2) have "ls = map ((!) rs) (filter (\<lambda>i. \<not> set_retried (unknown_landed nb rp) (ar_status rp ! i)) [0..<p])" by simp
    then show ?thesis unfolding tk again by (simp only: mset_filter_parts)
  qed
  then show ?thesis using kp pn again by auto
qed

lemma effect_array:
  assumes "is_use_array st" "view d = insert_rows ls (view (is_d st))"
  shows "effect sv view st (st\<lparr>is_d := d\<rparr>) ls" "effect sv view st (st\<lparr>is_d := d, is_use_array := False\<rparr>) ls"
    "effect sv view st (st\<lparr>is_d := d, is_total := t\<rparr>) ls"
    "effect sv view st (st\<lparr>is_d := d, is_total := t, is_use_array := False\<rparr>) ls"
  using assms by (simp_all add: effect_def sized_def)

definition array_outcome ::
  "('d, 'f) insert_server \<Rightarrow> ('d \<Rightarrow> 'f table) \<Rightarrow> 'f cell list list \<Rightarrow> nat \<Rightarrow> nat list \<Rightarrow> 'd insert_state
   \<Rightarrow> status \<times> nat \<times> nat list \<times> 'd insert_state \<Rightarrow> bool" where
  "array_outcome sv view rows row retry st x \<longleftrightarrow>
     (case x of (s, done, retry', st') \<Rightarrow>
        is_applied st' = is_applied st
      \<and> (\<exists>ls. effect sv view st st' ls
           \<and> (s = ADBC_STATUS_OK \<longrightarrow> row \<le> done \<and> done \<le> length rows
                \<and> (\<exists>again. retry' = retry @ again \<and> (\<forall>i \<in> set again. i < done)
                     \<and> mset ls + mset (map ((!) rows) again) = mset (take (done - row) (drop row rows))))))"

lemma array_outcome_stop:
  "effect sv view st st' [] \<Longrightarrow> is_applied st' = is_applied st \<Longrightarrow> row \<le> length rows
   \<Longrightarrow> array_outcome sv view rows row retry st (s, row, retry, st')"
  by (auto simp: array_outcome_def intro: exI [of _ "[]"])

lemma array_outcome_fail:
  "effect sv view st st' ls \<Longrightarrow> is_applied st' = is_applied st \<Longrightarrow> s \<noteq> ADBC_STATUS_OK
   \<Longrightarrow> array_outcome sv view rows row retry st (s, k, rt, st')"
  by (auto simp: array_outcome_def)

lemma array_outcome_step:
  assumes "effect sv view st st1 l1" "is_applied st1 = is_applied st" "row + n \<le> length rows"
    "mset l1 + mset (map ((!) rows) again) = mset (take n (drop row rows))" "\<forall>i \<in> set again. i < row + n"
    "array_outcome sv view rows (row + n) (retry @ again) st1 x"
  shows "array_outcome sv view rows row retry st x"
proof -
  obtain s k rt st' where x: "x = (s, k, rt, st')" by (cases x)
  obtain l2 where l2: "effect sv view st1 st' l2" "is_applied st' = is_applied st1"
    and good: "s = ADBC_STATUS_OK \<longrightarrow> row + n \<le> k \<and> k \<le> length rows
         \<and> (\<exists>b. rt = (retry @ again) @ b \<and> (\<forall>i \<in> set b. i < k)
              \<and> mset l2 + mset (map ((!) rows) b) = mset (take (k - (row + n)) (drop (row + n) rows)))"
    using assms(6) by (auto simp: array_outcome_def x)
  have e: "effect sv view st st' (l1 @ l2)" using effect_trans [OF assms(1) l2(1)] .
  have "row \<le> k \<and> k \<le> length rows
         \<and> (\<exists>c. rt = retry @ c \<and> (\<forall>i \<in> set c. i < k)
              \<and> mset (l1 @ l2) + mset (map ((!) rows) c) = mset (take (k - row) (drop row rows)))"
    if ok: "s = ADBC_STATUS_OK"
  proof -
    obtain b where b: "rt = retry @ again @ b" "\<forall>i \<in> set b. i < k" "row + n \<le> k" "k \<le> length rows"
      "mset l2 + mset (map ((!) rows) b) = mset (take (k - (row + n)) (drop (row + n) rows))"
      using good ok by auto
    have "mset (l1 @ l2) + mset (map ((!) rows) (again @ b))
        = mset (take n (drop row rows)) + mset (take (k - (row + n)) (drop (row + n) rows))"
      using assms(4) b(5) by (metis (no_types, lifting) add.assoc add.commute map_append mset_append)
    also have "\<dots> = mset (take (k - row) (drop row rows))"
      using take_drop_join [OF b(3), of rows] by (metis mset_append)
    finally show ?thesis using b assms(5) by (intro conjI exI [of _ "again @ b"]) auto
  qed
  then show ?thesis using e l2(2) assms(2) by (auto simp: array_outcome_def x)
qed

text \<open>One round of the loop, with the calls it makes named.\<close>

lemma ArrayBatchLoop_step:
  assumes "n = min (length rows - row) chunk" "rs = take n (drop row rows)" "sv_paramset sv n (is_d st) = (ok, d1)"
    "sv_bind_columns sv rs d1 = (s, d2)" "sv_array sv rs d2 = (rp0, d3)" "rp = written_status n rp0"
    "nb = ci_no_batch_counts cfg" "again = filter (\<lambda>i. set_retried (unknown_landed nb rp) (ar_status rp ! i)) [0..<n]"
    "k = sets_done nb rp" "st3 = st\<lparr>is_d := d3, is_total := is_total st + sets_counted nb rp\<rparr>"
  shows "ArrayBatchLoop cfg sv rows chunk row retry st =
     (if n < 2 then (ADBC_STATUS_OK, row, retry, st)
      else if \<not> ok then (ADBC_STATUS_OK, row, retry, st\<lparr>is_d := d1, is_use_array := False\<rparr>)
      else if s \<noteq> ADBC_STATUS_OK then (s, row, retry, st\<lparr>is_d := d2\<rparr>)
      else (case ar_ret rp of
              RET_ERROR e \<Rightarrow> if ar_processed rp = 0 \<and> row = 0 then (ADBC_STATUS_OK, row, retry, st\<lparr>is_d := d3, is_use_array := False\<rparr>)
                             else (e, row, retry, st\<lparr>is_d := d3\<rparr>)
            | _ \<Rightarrow>
                if k = 0 then (ADBC_STATUS_INTERNAL, row, retry @ map ((+) row) again, st\<lparr>is_d := d3\<rparr>)
                else if k < n then (ADBC_STATUS_OK, row + k, retry @ map ((+) row) again, st3\<lparr>is_use_array := False\<rparr>)
                else ArrayBatchLoop cfg sv rows chunk (row + k) (retry @ map ((+) row) again) st3))"
proof -
  have rp_ret: "ar_ret rp = ar_ret rp0" "ar_processed rp = ar_processed rp0" by (simp_all add: assms(6))
  show ?thesis
    by (subst ArrayBatchLoop.simps, cases "ar_ret rp0")
       (simp_all add: Let_def assms(1-2) [symmetric] assms(3-5) rp_ret assms(6-9) [symmetric] assms(10))
qed

lemma ArrayBatchLoop_outcome:
  assumes "server_ok cfg sv view" "list_all (row_fits cfg) rows" "row \<le> length rows" "is_use_array st"
  shows "array_outcome sv view rows row retry st (ArrayBatchLoop cfg sv rows chunk row retry st)"
  using assms(3,4)
proof (induction "length rows - row" arbitrary: row retry st rule: less_induct)
  case less
  have silent: "silent_calls sv view" and arr: "arrays_insert cfg sv view" using assms(1) by (simp_all add: server_ok_def)
  define n where "n = min (length rows - row) chunk"
  define rs where "rs = take n (drop row rows)"
  obtain ok d1 where 1: "sv_paramset sv n (is_d st) = (ok, d1)" by fastforce
  obtain s d2 where 2: "sv_bind_columns sv rs d1 = (s, d2)" by fastforce
  obtain rp0 d3 where 3: "sv_array sv rs d2 = (rp0, d3)" by fastforce
  define rp where "rp = written_status n rp0"
  have v: "view d1 = view (is_d st)" "view d2 = view (is_d st)"
    using silent_step(3) [OF silent 1] silent_step(4) [OF silent 2] by simp_all
  define nb where "nb = ci_no_batch_counts cfg"
  define again where "again = filter (\<lambda>i. set_retried (unknown_landed nb rp) (ar_status rp ! i)) [0..<n]"
  define k where "k = sets_done nb rp"
  define st3 where "st3 = st\<lparr>is_d := d3, is_total := is_total st + sets_counted nb rp\<rparr>"
  define good where "good = (if k = 0 then (ADBC_STATUS_INTERNAL, row, retry @ map ((+) row) again, st\<lparr>is_d := d3\<rparr>)
     else if k < n then (ADBC_STATUS_OK, row + k, retry @ map ((+) row) again, st3\<lparr>is_use_array := False\<rparr>)
     else ArrayBatchLoop cfg sv rows chunk (row + k) (retry @ map ((+) row) again) st3)"
  note step = ArrayBatchLoop_step [OF n_def rs_def 1 2 3 rp_def nb_def again_def k_def st3_def, where retry = retry, folded good_def]
  show ?case
  proof (cases "n < 2 \<or> \<not> ok \<or> s \<noteq> ADBC_STATUS_OK")
    case True
    then show ?thesis
      using effect_array(1,2) [OF less.prems(2), of view _ "[]"] v less.prems(1)
      by (auto simp: step intro: array_outcome_stop array_outcome_fail)
  next
    case False
    have len: "length rs = n" "rs \<noteq> []" "list_all (row_fits cfg) rs" "row + n \<le> length rows" "0 < n"
      using False less.prems(1) assms(2) by (auto simp: rs_def n_def list_all_part)
    obtain ls where ls: "array_landed cfg rs rp ls" "view d3 = insert_rows ls (view (is_d st))"
      using arr len 3 v(2) unfolding arrays_insert_def rp_def by metis
    note eff = effect_array [OF less.prems(2) ls(2)]
    show ?thesis
    proof (cases "\<exists>e. ar_ret rp = RET_ERROR e")
      case True
      then obtain e where e: "ar_ret rp = RET_ERROR e" "e \<noteq> ADBC_STATUS_OK" "ar_processed rp = 0 \<longrightarrow> ls = []"
        using ls(1) by (auto simp: array_landed_def)
      have "array_outcome sv view rows row retry st (e, row, retry, st\<lparr>is_d := d3\<rparr>)"
        by (rule array_outcome_fail [OF eff(1)]) (simp_all add: e(2))
      moreover have "array_outcome sv view rows row retry st (ADBC_STATUS_OK, row, retry, st\<lparr>is_d := d3, is_use_array := False\<rparr>)"
        if "ar_processed rp = 0" using eff(2) e(3) that less.prems(1) by (intro array_outcome_stop) simp_all
      ultimately show ?thesis using False e(1) by (auto simp: step)
    next
      case ok: False
      then have eq: "ArrayBatchLoop cfg sv rows chunk row retry st = good"
        using False step by (cases "ar_ret rp") auto
      show ?thesis
      proof (cases "k = 0")
        case True
        then show ?thesis using eq array_outcome_fail [OF eff(1), of ADBC_STATUS_INTERNAL] by (simp add: good_def)
      next
        case k0: False
        have "length (ar_status rp) = length rs" by (simp add: rp_def len(1))
        from array_landed_split [OF ls(1) _ this nb_def k_def k0] ok
        have split: "k \<le> n" "mset ls + mset (map ((!) rs) again) = mset (take k rs)" "\<forall>i \<in> set again. i < k"
          by (auto simp: len(1) again_def)
        have eqs: "map ((!) rs) again = map ((!) rows) (map ((+) row) again)"
          using split(1,3) len(4) by (auto simp: rs_def)
        have ms: "mset ls + mset (map ((!) rows) (map ((+) row) again)) = mset (take k (drop row rows))"
          unfolding eqs [symmetric] split(2) using split(1) by (simp add: rs_def min_def)
        have less_k: "\<forall>i \<in> set (map ((+) row) again). i < row + k" using split(3) by auto
        have rk: "row + k \<le> length rows" using split(1) len(4) by simp
        show ?thesis
        proof (cases "k < n")
          case True
          have "array_outcome sv view rows (row + k) (retry @ map ((+) row) again) (st3\<lparr>is_use_array := False\<rparr>)
                  (ADBC_STATUS_OK, row + k, retry @ map ((+) row) again, st3\<lparr>is_use_array := False\<rparr>)"
            using rk by (intro array_outcome_stop) simp_all
          then show ?thesis
            using array_outcome_step [OF eff(4) _ rk ms less_k, of "is_total st + sets_counted nb rp"] True k0
            unfolding eq good_def st3_def by (simp del: map_append map_map)
        next
          case whole: False
          have "array_outcome sv view rows (row + k) (retry @ map ((+) row) again) st3
                  (ArrayBatchLoop cfg sv rows chunk (row + k) (retry @ map ((+) row) again) st3)"
            using k0 rk less.prems(2) by (intro less.hyps) (simp_all add: st3_def)
          then show ?thesis
            using array_outcome_step [OF eff(3) _ rk ms less_k, of "is_total st + sets_counted nb rp"] whole k0
            unfolding eq good_def st3_def by (simp del: map_append map_map)
        qed
      qed
    qed
  qed
qed
section \<open>One row per execute\<close>

lemma BindAndExecuteRow_effect:
  assumes "server_ok cfg sv view" "row_fits cfg r" "BindAndExecuteRow cfg sv r st = (s, st')"
  shows "\<exists>d. st' = st\<lparr>is_d := d\<rparr> \<and> view d = (if s = ADBC_STATUS_OK then insert_rows [r] (view (is_d st)) else view (is_d st))
       \<and> (exact_counts sv \<and> s = ADBC_STATUS_OK \<longrightarrow> sv_row_count sv d = 1)"
proof -
  let ?ps = "group_params (ci_ncols cfg) [r]"
  have silent: "silent_calls sv view" and ex: "execute_inserts cfg sv view"
    using assms(1) by (simp_all add: server_ok_def)
  obtain b d where b: "BindParams sv 1 ?ps (is_d st) = (b, d)" by fastforce
  then have d: "view d = view (is_d st)" using BindParams_view [OF silent, of 1 ?ps "is_d st"] by simp
  obtain e d' where e: "sv_execute sv (length [r]) ?ps d = (e, d')" by fastforce
  have d': "view d' = (if e = ADBC_STATUS_OK then insert_rows [r] (view d) else view d)"
    using ex e assms(2) unfolding execute_inserts_def by (metis list.distinct(1) list.pred_inject)
  have "exact_counts sv \<longrightarrow> e = ADBC_STATUS_OK \<longrightarrow> sv_row_count sv d' = 1"
    using e by (force simp: exact_counts_def split: prod.splits)
  then show ?thesis using assms(3) b d e d' by (auto simp: BindAndExecuteRow_def Let_def split: if_splits)
qed

lemma ExecuteEachRow_effect:
  assumes "server_ok cfg sv view" "list_all (row_fits cfg) rs" "ExecuteEachRow cfg sv mark rs st = (s, st')"
  shows "\<exists>n \<le> length rs. effect sv view st st' (take n rs) \<and> (s = ADBC_STATUS_OK \<longrightarrow> n = length rs)
           \<and> (s \<noteq> ADBC_STATUS_OK \<longrightarrow> n < length rs) \<and> is_applied st' = (is_applied st \<or> mark \<and> n > 0)"
  using assms(2,3)
proof (induction rs arbitrary: st)
  case (Cons r rs)
  obtain e st1 where e: "BindAndExecuteRow cfg sv r st = (e, st1)" by fastforce
  obtain d where d: "st1 = st\<lparr>is_d := d\<rparr>"
    "view d = (if e = ADBC_STATUS_OK then insert_rows [r] (view (is_d st)) else view (is_d st))"
    "exact_counts sv \<and> e = ADBC_STATUS_OK \<longrightarrow> sv_row_count sv d = 1"
    using BindAndExecuteRow_effect [OF assms(1) _ e] Cons.prems(1) by auto
  show ?case
  proof (cases "e = ADBC_STATUS_OK")
    case False
    then have "effect sv view st st1 []" "is_applied st1 = is_applied st" using d by (simp_all add: effect_def sized_def)
    then show ?thesis using Cons.prems(2) e False by (intro exI [of _ 0]) auto
  next
    case True
    define st2 where "st2 = st1\<lparr>is_applied := is_applied st1 \<or> mark,
        is_total := (if sv_row_count sv (is_d st1) > 0 then is_total st1 + sv_row_count sv (is_d st1) else is_total st1)\<rparr>"
    have eq: "ExecuteEachRow cfg sv mark rs st2 = (s, st')" using Cons.prems(2) e True by (simp add: st2_def Let_def)
    have e1: "effect sv view st st2 [r]" "is_applied st2 = (is_applied st \<or> mark)"
      using d True by (auto simp: st2_def effect_def sized_def)
    obtain n where n: "n \<le> length rs" "effect sv view st2 st' (take n rs)" "s = ADBC_STATUS_OK \<longrightarrow> n = length rs"
      "s \<noteq> ADBC_STATUS_OK \<longrightarrow> n < length rs" "is_applied st' = (is_applied st2 \<or> mark \<and> n > 0)"
      using Cons.IH [OF _ eq] Cons.prems(1) by auto
    show ?thesis using n e1 effect_trans [OF e1(1) n(2)] by (intro exI [of _ "Suc n"]) auto
  qed
qed simp
section \<open>The transaction around the rows\<close>

text \<open>
  After the rows \<open>L\<close>: in the user's own transaction they are pending behind what was pending; under
  autocommit the first \<open>j\<close> are committed, all of them while no transaction is open.
\<close>

definition txn_fits :: "'f insert_config \<Rightarrow> 'd insert_state \<Rightarrow> bool" where
  "txn_fits cfg st \<longleftrightarrow> (is_txn st \<longrightarrow> ci_autocommit cfg \<and> ci_connected cfg \<and> ci_txn_capable cfg \<and> is_seen st > 1)"

definition run_inv ::
  "'f insert_config \<Rightarrow> ('d \<Rightarrow> 'f table) \<Rightarrow> 'f cell list list \<Rightarrow> 'f cell list list \<Rightarrow> nat \<Rightarrow> 'f cell list list \<Rightarrow> 'd insert_state \<Rightarrow> bool" where
  "run_inv cfg view B P j L st \<longleftrightarrow>
     txn_fits cfg st \<and> j \<le> length L
   \<and> (if ci_autocommit cfg
      then P = [] \<and> view (is_d st) = \<lparr>tb_committed = B @ take j L, tb_pending = drop j L, tb_auto = (\<not> is_txn st)\<rparr>
         \<and> (\<not> is_txn st \<longrightarrow> j = length L)
      else view (is_d st) = \<lparr>tb_committed = B, tb_pending = P @ L, tb_auto = False\<rparr>)"

lemma run_inv_effect:
  assumes "run_inv cfg view B P j L st" "effect sv view st st' ls"
  shows "run_inv cfg view B P (if is_txn st \<or> \<not> ci_autocommit cfg then j else j + length ls) (L @ ls) st'"
  using assms by (auto simp: run_inv_def effect_def insert_rows_def txn_fits_def)

lemma OdbcAutoTxnBegin_fields [simp]:
  "is_seen (OdbcAutoTxnBegin cfg sv st) = is_seen st" "is_applied (OdbcAutoTxnBegin cfg sv st) = is_applied st"
  "is_total (OdbcAutoTxnBegin cfg sv st) = is_total st" "is_use_array (OdbcAutoTxnBegin cfg sv st) = is_use_array st"
  "sized (OdbcAutoTxnBegin cfg sv st) = sized st"
  by (simp_all add: OdbcAutoTxnBegin_def sized_def split: prod.split)

lemma OdbcAutoTxnEnd_fields:
  assumes "OdbcAutoTxnEnd sv commit st = (s, st')"
  shows "is_seen st' = is_seen st" "is_applied st' = is_applied st" "is_total st' = is_total st"
    "is_use_array st' = is_use_array st" "sized st' = sized st" "is_txn st' = False"
  using assms by (auto simp: OdbcAutoTxnEnd_def sized_def split: prod.splits if_splits)

lemma RestartTxn_fields [simp]:
  "is_seen (RestartTxn cfg sv b st) = is_seen st" "is_applied (RestartTxn cfg sv b st) = is_applied st"
  "is_total (RestartTxn cfg sv b st) = is_total st" "is_use_array (RestartTxn cfg sv b st) = is_use_array st"
  "sized (RestartTxn cfg sv b st) = sized st"
  by (simp_all add: RestartTxn_def OdbcAutoTxnEnd_fields split: prod.split)

definition begins :: "'f insert_config \<Rightarrow> ('d, 'f) insert_server \<Rightarrow> bool" where
  "begins cfg sv \<longleftrightarrow> ci_autocommit cfg \<and> ci_connected cfg \<and> ci_txn_capable cfg \<and> (\<forall>d. fst (sv_autocommit sv False d))"

lemma OdbcAutoTxnBegin_inv:
  assumes "transactions_ok sv view" "run_inv cfg view B P j L st" "is_seen st > 1"
  shows "run_inv cfg view B P j L (OdbcAutoTxnBegin cfg sv st)" "begins cfg sv \<Longrightarrow> is_txn (OdbcAutoTxnBegin cfg sv st)"
proof -
  obtain ok d where a: "sv_autocommit sv False (is_d st) = (ok, d)" by fastforce
  then have "view d = (if ok then (view (is_d st))\<lparr>tb_auto := False\<rparr> else view (is_d st))"
    using assms(1) unfolding transactions_ok_def by blast
  then show "run_inv cfg view B P j L (OdbcAutoTxnBegin cfg sv st)"
    using assms(2,3) a by (auto simp: OdbcAutoTxnBegin_def run_inv_def txn_fits_def)
  show "is_txn (OdbcAutoTxnBegin cfg sv st)" if "begins cfg sv"
    using that a by (auto simp: begins_def OdbcAutoTxnBegin_def) (metis fst_conv)
qed

text \<open>Ending the transaction: a commit makes the rows permanent, a rollback of nothing changes nothing.\<close>

lemma OdbcAutoTxnEnd_inv:
  assumes "transactions_ok sv view" "run_inv cfg view B P j L st" "OdbcAutoTxnEnd sv commit st = (s, st')"
  shows "L = [] \<Longrightarrow> run_inv cfg view B P 0 [] st'"
    "commit \<Longrightarrow> s = ADBC_STATUS_OK \<Longrightarrow> \<exists>j'. run_inv cfg view B P j' L st'"
    "\<not> commit \<Longrightarrow> \<forall>d. fst (sv_end_tran sv False d) = ADBC_STATUS_OK \<Longrightarrow> is_txn st \<Longrightarrow>
       view (is_d st') = \<lparr>tb_committed = B @ take j L, tb_pending = [], tb_auto = True\<rparr>"
proof -
  obtain r d1 where e: "sv_end_tran sv commit (is_d st) = (r, d1)" by fastforce
  obtain b d2 where a: "sv_autocommit sv True d1 = (b, d2)" by fastforce
  have v2: "view d2 = \<lparr>tb_committed = tb_committed (view d1) @ tb_pending (view d1), tb_pending = [], tb_auto = True\<rparr>"
    using assms(1) a unfolding transactions_ok_def by (metis snd_conv)
  have v1: "r = ADBC_STATUS_OK \<longrightarrow>
       view d1 = (if commit then (view (is_d st))\<lparr>tb_committed := tb_committed (view (is_d st)) @ tb_pending (view (is_d st)), tb_pending := []\<rparr>
                  else (view (is_d st))\<lparr>tb_pending := []\<rparr>)"
    "r \<noteq> ADBC_STATUS_OK \<and> tb_pending (view (is_d st)) = [] \<longrightarrow> view d1 = view (is_d st)"
    using assms(1) e unfolding transactions_ok_def by blast+
  have st': "st' = (if is_txn st then st\<lparr>is_d := d2, is_txn := False\<rparr> else st)"
    "s = (if is_txn st \<and> commit then r else ADBC_STATUS_OK)"
    using assms(3) unfolding OdbcAutoTxnEnd_def e case_prod_conv Let_def a by (simp_all split: if_splits)
  show "run_inv cfg view B P 0 [] st'" if "L = []"
    using that assms(2) v1 v2 st' by (cases "r = ADBC_STATUS_OK") (auto simp: run_inv_def txn_fits_def)
  show "\<exists>j'. run_inv cfg view B P j' L st'" if "commit" "s = ADBC_STATUS_OK"
    using that assms(2) v1 v2 st' by (intro exI [of _ "if is_txn st then length L else j"]) (auto simp: run_inv_def txn_fits_def)
  show "view (is_d st') = \<lparr>tb_committed = B @ take j L, tb_pending = [], tb_auto = True\<rparr>"
    if "\<not> commit" "\<forall>d. fst (sv_end_tran sv False d) = ADBC_STATUS_OK" "is_txn st"
  proof -
    have "r = ADBC_STATUS_OK" using that e by (metis (full_types) fst_conv)
    then show ?thesis using that assms(2) v1 v2 st' by (auto simp: run_inv_def txn_fits_def)
  qed
qed

lemma RestartTxn_inv:
  assumes "transactions_ok sv view" "run_inv cfg view B P j L st" "fell_back \<longrightarrow> L = []"
  shows "run_inv cfg view B P j L (RestartTxn cfg sv fell_back st)"
    "begins cfg sv \<and> is_txn st \<longrightarrow> is_txn (RestartTxn cfg sv fell_back st)"
proof -
  obtain s st' where e: "OdbcAutoTxnEnd sv False st = (s, st')" by fastforce
  note inv = OdbcAutoTxnEnd_inv(1) [OF assms(1,2) e]
  have seen: "is_seen st' = is_seen st" using OdbcAutoTxnEnd_fields [OF e] by simp
  show "run_inv cfg view B P j L (RestartTxn cfg sv fell_back st)"
    using assms inv e OdbcAutoTxnBegin_inv(1) [OF assms(1), of cfg B P 0 "[]" st']
    by (auto simp: RestartTxn_def run_inv_def)
  show "begins cfg sv \<and> is_txn st \<longrightarrow> is_txn (RestartTxn cfg sv fell_back st)"
    using assms inv e seen OdbcAutoTxnBegin_inv(2) [OF assms(1), of cfg B P 0 "[]" st']
    by (auto simp: RestartTxn_def run_inv_def txn_fits_def)
qed
section \<open>The stages of a batch\<close>

text \<open>
  From \<open>st\<close> with the rows \<open>L\<close> done to the stage's result: the rows \<open>ls\<close> more, which with those noted for
  another try are the leading \<open>row\<close> rows of the batch, in order unless parameter arrays are used.
\<close>

definition stage_rows ::
  "'f cell list list \<Rightarrow> bool \<Rightarrow> status \<Rightarrow> nat \<Rightarrow> nat list \<Rightarrow> 'f cell list list \<Rightarrow> bool" where
  "stage_rows rows arrays s row retry ls \<longleftrightarrow>
     (s = ADBC_STATUS_OK \<longrightarrow> row \<le> length rows \<and> (\<forall>i \<in> set retry. i < length rows)
        \<and> mset ls + mset (map ((!) rows) retry) = mset (take row rows)
        \<and> (\<not> arrays \<longrightarrow> retry = [] \<and> ls = take row rows))"

definition stage_keeps :: "'f insert_config \<Rightarrow> ('d, 'f) insert_server \<Rightarrow> 'd insert_state \<Rightarrow> 'd insert_state \<Rightarrow> bool" where
  "stage_keeps cfg sv st st' \<longleftrightarrow>
     is_seen st' = is_seen st \<and> is_applied st' = is_applied st \<and> sized st' \<and> (is_use_array st' \<longrightarrow> is_use_array st)
   \<and> (begins cfg sv \<and> is_txn st \<longrightarrow> is_txn st')"

definition stage ::
  "'f insert_config \<Rightarrow> ('d, 'f) insert_server \<Rightarrow> ('d \<Rightarrow> 'f table) \<Rightarrow> 'f cell list list \<Rightarrow> 'f cell list list
   \<Rightarrow> 'f cell list list \<Rightarrow> nat \<Rightarrow> 'f cell list list \<Rightarrow> 'd insert_state \<Rightarrow> status \<times> nat \<times> nat list \<times> 'd insert_state \<Rightarrow> bool" where
  "stage cfg sv view B P rows j L st x \<longleftrightarrow>
     (case x of (s, row, retry, st') \<Rightarrow>
        stage_keeps cfg sv st st'
      \<and> (\<exists>ls j'. run_inv cfg view B P j' (L @ ls) st' \<and> (begins cfg sv \<and> is_txn st \<longrightarrow> j' = j)
           \<and> (exact_counts sv \<and> \<not> is_use_array st \<longrightarrow> is_total st' = is_total st + int (length ls))
           \<and> stage_rows rows (is_use_array st) s row retry ls))"

lemma stageE:
  assumes "stage cfg sv view B P rows j L st (s, row, retry, st')"
  obtains ls j' where "stage_keeps cfg sv st st'" "run_inv cfg view B P j' (L @ ls) st'"
    "begins cfg sv \<and> is_txn st \<longrightarrow> j' = j"
    "exact_counts sv \<and> \<not> is_use_array st \<longrightarrow> is_total st' = is_total st + int (length ls)"
    "stage_rows rows (is_use_array st) s row retry ls"
  using assms unfolding stage_def case_prod_conv by blast

lemma stageI:
  assumes "stage_keeps cfg sv st st'" "run_inv cfg view B P j' (L @ ls) st'" "begins cfg sv \<and> is_txn st \<longrightarrow> j' = j"
    "exact_counts sv \<and> \<not> is_use_array st \<longrightarrow> is_total st' = is_total st + int (length ls)"
    "stage_rows rows (is_use_array st) s row retry ls"
  shows "stage cfg sv view B P rows j L st (s, row, retry, st')"
  using assms unfolding stage_def case_prod_conv by blast

lemma stage_keeps_trans: "stage_keeps cfg sv st st1 \<Longrightarrow> stage_keeps cfg sv st1 st2 \<Longrightarrow> stage_keeps cfg sv st st2"
  by (auto simp: stage_keeps_def)

lemma stage_keeps_effect:
  "effect sv view st st' ls \<Longrightarrow> sized st \<Longrightarrow> is_applied st' = is_applied st \<Longrightarrow> stage_keeps cfg sv st st'"
  by (simp add: stage_keeps_def effect_def)

lemma stage_rows_step:
  assumes "stage_rows rows arrays ADBC_STATUS_OK row retry l1" "arrays1 \<longrightarrow> arrays"
    "s = ADBC_STATUS_OK \<Longrightarrow> row \<le> done \<and> done \<le> length rows \<and> (\<forall>i \<in> set again. i < length rows)
       \<and> mset ls + mset (map ((!) rows) again) = mset (take (done - row) (drop row rows))
       \<and> (\<not> arrays1 \<longrightarrow> again = [] \<and> ls = take (done - row) (drop row rows))"
  shows "stage_rows rows arrays s done (retry @ again) (l1 @ ls)"
proof (cases "s = ADBC_STATUS_OK")
  case True
  note now = assms(3) [OF True]
  then have t: "take row rows @ take (done - row) (drop row rows) = take done rows"
    by (metis le_add_diff_inverse take_add)
  have "mset (l1 @ ls) + mset (map ((!) rows) (retry @ again))
      = (mset l1 + mset (map ((!) rows) retry)) + (mset ls + mset (map ((!) rows) again))"
    by (simp add: ac_simps)
  also have "\<dots> = mset (take done rows)"
    using assms(1) now unfolding stage_rows_def t [symmetric] mset_append by simp
  finally show ?thesis using assms(1,2) now t by (auto simp: stage_rows_def)
qed (simp add: stage_rows_def)

lemma stage_start:
  "run_inv cfg view B P j L st \<Longrightarrow> sized st \<Longrightarrow> stage cfg sv view B P rows j L st (ADBC_STATUS_OK, 0, [], st)"
  by (rule stageI [of _ _ _ _ _ _ _ j _ "[]"]) (simp_all add: stage_keeps_def stage_rows_def)

text \<open>A piece of code that does rows of its own, in the middle of a batch.\<close>

lemma stage_effect:
  assumes "stage cfg sv view B P rows j L st (ADBC_STATUS_OK, row, retry, st1)" "effect sv view st1 st2 ls"
    "is_applied st2 = is_applied st1"
    "s = ADBC_STATUS_OK \<Longrightarrow> row \<le> done \<and> done \<le> length rows \<and> (\<forall>i \<in> set again. i < length rows)
       \<and> mset ls + mset (map ((!) rows) again) = mset (take (done - row) (drop row rows))
       \<and> (\<not> is_use_array st1 \<longrightarrow> again = [] \<and> ls = take (done - row) (drop row rows))"
  shows "stage cfg sv view B P rows j L st (s, done, retry @ again, st2)"
  using assms(1)
proof (rule stageE)
  fix l1 j1
  assume keeps: "stage_keeps cfg sv st st1" and inv: "run_inv cfg view B P j1 (L @ l1) st1"
    and jj: "begins cfg sv \<and> is_txn st \<longrightarrow> j1 = j"
    and tot: "exact_counts sv \<and> \<not> is_use_array st \<longrightarrow> is_total st1 = is_total st + int (length l1)"
    and rows: "stage_rows rows (is_use_array st) ADBC_STATUS_OK row retry l1"
  have keeps2: "stage_keeps cfg sv st st2"
    using stage_keeps_trans [OF keeps stage_keeps_effect [OF assms(2) _ assms(3)]] keeps by (simp add: stage_keeps_def)
  have arr: "is_use_array st1 \<longrightarrow> is_use_array st" using keeps by (simp add: stage_keeps_def)
  define j2 where "j2 = (if is_txn st1 \<or> \<not> ci_autocommit cfg then j1 else j1 + length ls)"
  have inv2: "run_inv cfg view B P j2 (L @ l1 @ ls) st2" using run_inv_effect [OF inv assms(2)] by (simp add: j2_def)
  have j2: "begins cfg sv \<and> is_txn st \<longrightarrow> j2 = j" using jj keeps by (simp add: j2_def stage_keeps_def)
  have tot2: "exact_counts sv \<and> \<not> is_use_array st \<longrightarrow> is_total st2 = is_total st + int (length (l1 @ ls))"
    using tot arr assms(2) by (auto simp: effect_def)
  show ?thesis using stageI [OF keeps2 inv2 j2 tot2 stage_rows_step [OF rows arr assms(4)]] .
qed

lemma stage_restart:
  assumes "transactions_ok sv view" "stage cfg sv view B P rows j L st (ADBC_STATUS_OK, 0, [], st1)" "L = []"
  shows "stage cfg sv view B P rows j L st (ADBC_STATUS_OK, 0, [], RestartTxn cfg sv b st1)"
  using assms(2)
proof (rule stageE)
  fix ls j'
  assume keeps: "stage_keeps cfg sv st st1" and inv: "run_inv cfg view B P j' (L @ ls) st1"
    and jj: "begins cfg sv \<and> is_txn st \<longrightarrow> j' = j"
    and tot: "exact_counts sv \<and> \<not> is_use_array st \<longrightarrow> is_total st1 = is_total st + int (length ls)"
    and rows: "stage_rows rows (is_use_array st) ADBC_STATUS_OK 0 [] ls"
  have "L @ ls = []" using rows assms(3) by (simp add: stage_rows_def)
  note inv2 = RestartTxn_inv [OF assms(1) inv, of b]
  have "stage_keeps cfg sv st (RestartTxn cfg sv b st1)"
    using keeps inv2(2) \<open>L @ ls = []\<close> by (auto simp: stage_keeps_def)
  then show ?thesis using inv2(1) jj tot rows \<open>L @ ls = []\<close> by (intro stageI [of _ _ _ _ _ _ _ j' _ ls]) simp_all
qed

lemma stage_batch:
  assumes "transactions_ok sv view" "stage cfg sv view B P rows j L st (ADBC_STATUS_OK, 0, [], st1)"
    "batch_outcome sv view rows virgin 0 st1 (s, done, fell, st2)" "virgin \<Longrightarrow> L = []"
  shows "stage cfg sv view B P rows j L st (s, done, [], RestartTxn cfg sv fell st2)"
proof -
  have a: "is_applied st2 = is_applied st1" using assms(3) by (simp add: batch_outcome_def)
  consider (err) ls where "s \<noteq> ADBC_STATUS_OK" "\<not> fell" "effect sv view st1 st2 ls"
    | (fall) "s = ADBC_STATUS_OK" "fell" "done = 0" "L = []" "effect sv view st1 st2 []"
    | (good) "s = ADBC_STATUS_OK" "\<not> fell" "done \<le> length rows" "effect sv view st1 st2 (take done rows)"
    using assms(3,4) by (cases "s = ADBC_STATUS_OK"; cases fell) (auto simp: batch_outcome_def)
  then show ?thesis
  proof cases
    case err
    then show ?thesis using stage_effect [OF assms(2) err(3) a, of s "done" "[]"] by (simp add: RestartTxn_def)
  next
    case fall
    have "stage cfg sv view B P rows j L st (ADBC_STATUS_OK, 0, [], st2)"
      using stage_effect [OF assms(2) fall(5) a, of ADBC_STATUS_OK 0 "[]"] by simp
    then show ?thesis using fall stage_restart [OF assms(1)] by simp
  next
    case good
    then show ?thesis using stage_effect [OF assms(2) good(4) a, of s "done" "[]"] by (simp add: RestartTxn_def)
  qed
qed

lemma ArrayIngestExecuteBatch_outcome:
  assumes "server_ok cfg sv view" "list_all (row_fits cfg) rows" "sized st" "ai_active st"
    "ArrayIngestExecuteBatch cfg sv rows virgin st = Some x"
  shows "batch_outcome sv view rows virgin 0 st x"
  using ArrayIngestLoop_outcome [OF assms(1,2) assms(5) [unfolded ArrayIngestExecuteBatch_def]] assms(3,4)
  by (simp add: sized_def)

lemma MultiRowExecuteBatch_outcome:
  assumes "server_ok cfg sv view" "list_all (row_fits cfg) rows" "sized st" "mr_active st"
    "MultiRowExecuteBatch cfg sv rows virgin st = Some x"
  shows "batch_outcome sv view rows virgin 0 st x"
  using MultiRowLoop_outcome [OF assms(1,2) assms(5) [unfolded MultiRowExecuteBatch_def]] assms(3,4)
  by (simp add: sized_def)

lemma ArrayStage_stage:
  assumes "server_ok cfg sv view" "list_all (row_fits cfg) rows" "run_inv cfg view B P j L st" "sized st"
    "\<not> is_applied st \<Longrightarrow> L = []" "ArrayStage cfg sv rows st = Some (s, row, st')"
  shows "stage cfg sv view B P rows j L st (s, row, [], st')"
proof (cases "ai_active st \<and> length rows > 1")
  case True
  then obtain fell st1 where x: "ArrayIngestExecuteBatch cfg sv rows (\<not> is_applied st) st = Some (s, row, fell, st1)"
    "st' = RestartTxn cfg sv fell st1"
    using assms(6) by (auto simp: ArrayStage_def)
  have "transactions_ok sv view" using assms(1) by (simp add: server_ok_def)
  from stage_batch [OF this stage_start [OF assms(3,4)]
      ArrayIngestExecuteBatch_outcome [OF assms(1,2,4) _ x(1)] assms(5)] True
  show ?thesis by (simp add: x(2))
next
  case False
  with assms(6) stage_start [OF assms(3,4)] show ?thesis by (auto simp: ArrayStage_def)
qed

lemma MultiRowStage_stage:
  assumes "server_ok cfg sv view" "list_all (row_fits cfg) rows" "stage cfg sv view B P rows j L st (s, row, [], st1)"
    "\<not> is_applied st \<Longrightarrow> L = []" "MultiRowStage cfg sv rows (s, row, st1) = Some (s', row', st')"
  shows "stage cfg sv view B P rows j L st (s', row', [], st')"
proof (cases "multirow_first cfg \<and> mr_active st1 \<and> row = 0 \<and> length rows > 1 \<and> s = ADBC_STATUS_OK")
  case True
  then obtain fell st2 where x: "MultiRowExecuteBatch cfg sv rows (\<not> is_applied st1) st1 = Some (s', row', fell, st2)"
    "st' = RestartTxn cfg sv fell st2"
    using assms(5) by (auto simp: MultiRowStage_def)
  have t: "transactions_ok sv view" using assms(1) by (simp add: server_ok_def)
  have k: "sized st1" "is_applied st1 = is_applied st" using assms(3) by (auto elim!: stageE simp: stage_keeps_def)
  have "stage cfg sv view B P rows j L st (ADBC_STATUS_OK, 0, [], st1)" using assms(3) True by simp
  from stage_batch [OF t this MultiRowExecuteBatch_outcome [OF assms(1,2) k(1) _ x(1)] assms(4)] True k(2)
  show ?thesis by (simp add: x(2))
next
  case False
  with assms(3,5) show ?thesis by (auto simp: MultiRowStage_def)
qed

lemma ExecuteBatchArray_outcome:
  assumes "server_ok cfg sv view" "list_all (row_fits cfg) rows" "is_use_array st"
  shows "array_outcome sv view rows 0 [] st (ExecuteBatchArray cfg sv rows st)"
proof -
  have silent: "silent_calls sv view" using assms(1) by (simp add: server_ok_def)
  obtain ok d where p: "sv_paramset sv 0 (is_d st) = (ok, d)" by fastforce
  have v: "view d = view (is_d st)" using silent_step(3) [OF silent p] by simp
  define st1 where "st1 = st\<lparr>is_d := d\<rparr>"
  have "array_outcome sv view rows 0 [] st1 (ArrayBatchLoop cfg sv rows chunk 0 [] st1)" for chunk
    using assms by (intro ArrayBatchLoop_outcome) (simp_all add: st1_def)
  moreover have "effect sv view st st1 []" "effect sv view st (st1\<lparr>is_use_array := False\<rparr>) []" "is_applied st1 = is_applied st"
    using v by (simp_all add: st1_def effect_def sized_def)
  ultimately show ?thesis
    using array_outcome_step [of sv view st st1 "[]" 0 0 rows "[]" "[]"] p
    by (auto simp: ExecuteBatchArray_def Let_def st1_def intro: array_outcome_stop)
qed

lemma ParamArrayStage_stage:
  assumes "server_ok cfg sv view" "list_all (row_fits cfg) rows" "stage cfg sv view B P rows j L st (s, row, [], st1)"
  shows "stage cfg sv view B P rows j L st (ParamArrayStage cfg sv rows (s, row, st1))"
proof (cases "is_use_array st1 \<and> row = 0 \<and> length rows > 1 \<and> s = ADBC_STATUS_OK")
  case True
  obtain s' k retry st' where x: "ExecuteBatchArray cfg sv rows st1 = (s', k, retry, st')" by (cases "ExecuteBatchArray cfg sv rows st1")
  obtain ls where ls: "effect sv view st1 st' ls" "is_applied st' = is_applied st1"
    "s' = ADBC_STATUS_OK \<longrightarrow> k \<le> length rows \<and> (\<forall>i \<in> set retry. i < k) \<and> mset ls + mset (map ((!) rows) retry) = mset (take k rows)"
    using ExecuteBatchArray_outcome [OF assms(1,2), of st1] True by (auto simp: array_outcome_def x)
  have "stage cfg sv view B P rows j L st (ADBC_STATUS_OK, 0, [], st1)" using assms(3) True by simp
  from stage_effect [OF this ls(1,2), of s' k retry] ls(3) True
  show ?thesis by (fastforce simp: ParamArrayStage_def x)
next
  case False
  with assms(3) show ?thesis by (auto simp: ParamArrayStage_def)
qed

lemma MultiRowRest_stage:
  assumes "server_ok cfg sv view" "list_all (row_fits cfg) rows" "stage cfg sv view B P rows j L st (s, row, retry, st1)"
    "MultiRowRest cfg sv rows (s, row, retry, st1) = Some x"
  shows "stage cfg sv view B P rows j L st x"
proof (cases "s = ADBC_STATUS_OK")
  case False
  with assms(3,4) show ?thesis by (simp add: MultiRowRest_def)
next
  case True
  have silent: "silent_calls sv view" using assms(1) by (simp add: server_ok_def)
  define st2 where "st2 = (if mr_enabled cfg \<and> \<not> mr_ready st1 \<and> length rows - row > 1 then MultiRowSetup cfg sv st1 else st1)"
  have step: "MultiRowRest cfg sv rows (s, row, retry, st1) =
     (if mr_active st2 \<and> length rows - row > 1
      then map_option (\<lambda>(s, done, _, st). (s, row + done, retry, st))
             (MultiRowExecuteBatch cfg sv (drop row rows) (\<not> is_applied st2 \<and> row = 0) st2)
      else Some (ADBC_STATUS_OK, row, retry, st2))"
    unfolding MultiRowRest_def st2_def True case_prod_conv Let_def by simp
  have pr: "prepares view st1 st2" using MultiRowSetup_prepares [OF silent] by (simp add: st2_def)
  have row: "row \<le> length rows" using assms(3) True by (auto elim!: stageE simp: stage_rows_def)
  have sized: "sized st2" using assms(3) pr by (auto elim!: stageE simp: stage_keeps_def prepares_def)
  have st2: "stage cfg sv view B P rows j L st (ADBC_STATUS_OK, row, retry, st2)"
    using stage_effect [OF assms(3) [unfolded True] prepares_effect [OF pr] prepares_applied [OF pr], of ADBC_STATUS_OK row "[]"] row by simp
  show ?thesis
  proof (cases "mr_active st2 \<and> length rows - row > 1")
    case False
    with assms(4) st2 show ?thesis by (auto simp: step)
  next
    case go: True
    define virgin where "virgin = (\<not> is_applied st2 \<and> row = 0)"
    obtain s' k fell st3 where m: "MultiRowExecuteBatch cfg sv (drop row rows) virgin st2 = Some (s', k, fell, st3)"
      "x = (s', row + k, retry, st3)"
      using assms(4) go by (auto simp: step virgin_def)
    have fit: "list_all (row_fits cfg) (drop row rows)" using list_all_part [OF assms(2), of "length rows" row] by simp
    from MultiRowExecuteBatch_outcome [OF assms(1) fit sized _ m(1)] go
    have o: "batch_outcome sv view (drop row rows) virgin 0 st2 (s', k, fell, st3)" by simp
    obtain ls where ls: "effect sv view st2 st3 ls" "is_applied st3 = is_applied st2"
      "s' = ADBC_STATUS_OK \<longrightarrow> k \<le> length rows - row \<and> ls = take k (drop row rows)"
      using o by (cases "s' = ADBC_STATUS_OK"; cases fell) (auto simp: batch_outcome_def)
    from stage_effect [OF st2 ls(1,2), of s' "row + k" "[]"] ls(3) row show ?thesis by (auto simp: m(2))
  qed
qed

section \<open>A batch\<close>

lemma effect_applied: "effect sv view st (st\<lparr>is_applied := b\<rparr>) []"
  by (simp add: effect_def sized_def)

lemma RowStage_effect:
  assumes "server_ok cfg sv view" "list_all (row_fits cfg) rows" "RowStage cfg sv rows (s, row, retry, st) = (s', st')"
    "s = ADBC_STATUS_OK \<Longrightarrow> \<forall>i \<in> set retry. i < length rows"
  shows "\<exists>ls. effect sv view st st' ls \<and> (s' = ADBC_STATUS_OK \<longrightarrow> s = ADBC_STATUS_OK \<and> ls = drop row rows @ map ((!) rows) retry
           \<and> (is_applied st' \<or> row = 0 \<and> rows = []))"
proof -
  define st0 where "st0 = (if row > 0 then st\<lparr>is_applied := True\<rparr> else st)"
  have e0: "effect sv view st st0 []" by (simp add: st0_def effect_applied)
  obtain s1 st1 where 1: "ExecuteEachRow cfg sv True (drop row rows) st0 = (s1, st1)" by fastforce
  obtain s2 st2 where 2: "ExecuteEachRow cfg sv False (map ((!) rows) retry) st1 = (s2, st2)" by fastforce
  have eq: "(s', st') = (if s \<noteq> ADBC_STATUS_OK then (s, st0) else if s1 \<noteq> ADBC_STATUS_OK then (s1, st1) else (s2, st2))"
    using assms(3) unfolding RowStage_def case_prod_conv Let_def st0_def [symmetric] 1 2 by simp
  have fit: "list_all (row_fits cfg) (drop row rows)" using list_all_part [OF assms(2), of "length rows" row] by simp
  from ExecuteEachRow_effect [OF assms(1) fit 1] obtain n where
    n: "effect sv view st0 st1 (take n (drop row rows))" "s1 = ADBC_STATUS_OK \<longrightarrow> n = length (drop row rows)"
      "is_applied st1 = (is_applied st0 \<or> n > 0)" by blast
  have e1: "effect sv view st st1 (take n (drop row rows))" using effect_trans [OF e0 n(1)] by simp
  show ?thesis
  proof (cases "s = ADBC_STATUS_OK \<and> s1 = ADBC_STATUS_OK")
    case True
    then have "list_all (row_fits cfg) (map ((!) rows) retry)" using assms(2,4) by (auto simp: list_all_iff)
    from ExecuteEachRow_effect [OF assms(1) this 2] obtain m where
      m: "effect sv view st1 st2 (take m (map ((!) rows) retry))" "s2 = ADBC_STATUS_OK \<longrightarrow> m = length (map ((!) rows) retry)"
      "is_applied st2 = is_applied st1" by auto
    show ?thesis using True eq m n(2,3) effect_trans [OF e1 m(1)]
      by (intro exI [of _ "take n (drop row rows) @ take m (map ((!) rows) retry)"]) (auto simp: st0_def)
  next
    case False
    with eq e0 e1 show ?thesis by (auto split: if_splits)
  qed
qed

definition progress ::
  "'f insert_config \<Rightarrow> ('d, 'f) insert_server \<Rightarrow> ('d \<Rightarrow> 'f table) \<Rightarrow> 'f cell list list \<Rightarrow> 'f cell list list \<Rightarrow> nat
   \<Rightarrow> 'f cell list list \<Rightarrow> 'd insert_state \<Rightarrow> 'f cell list list \<Rightarrow> status \<Rightarrow> 'd insert_state \<Rightarrow> 'f cell list list \<Rightarrow> nat \<Rightarrow> bool" where
  "progress cfg sv view B P j L st rows s st' ls j' \<longleftrightarrow>
     run_inv cfg view B P j' (L @ ls) st' \<and> is_seen st' = is_seen st + length rows \<and> sized st'
   \<and> (is_use_array st' \<longrightarrow> is_use_array st)
   \<and> (begins cfg sv \<and> 1 < is_seen st + length rows \<longrightarrow> j' = j)
   \<and> (exact_counts sv \<and> \<not> is_use_array st \<longrightarrow> is_total st' = is_total st + int (length ls))
   \<and> (s \<noteq> ADBC_STATUS_OK \<and> length rows \<le> 1 \<longrightarrow> ls = [])
   \<and> (s = ADBC_STATUS_OK \<longrightarrow> mset ls = mset rows \<and> (\<not> is_use_array st \<longrightarrow> ls = rows) \<and> (is_applied st' \<or> L @ ls = []))"

lemma PrepareStage_inv:
  assumes "server_ok cfg sv view" "run_inv cfg view B P j L st" "sized st" "PrepareStage cfg sv rows st = st1"
  shows "run_inv cfg view B P j L st1" "sized st1" "is_seen st1 = is_seen st + length rows" "is_applied st1 = is_applied st"
    "is_total st1 = is_total st" "is_use_array st1 = is_use_array st" "begins cfg sv \<and> 1 < is_seen st1 \<longrightarrow> is_txn st1"
proof -
  have silent: "silent_calls sv view" and t: "transactions_ok sv view" using assms(1) by (simp_all add: server_ok_def)
  define a where "a = (if multirow_first cfg \<and> \<not> mr_ready st \<and> length rows > 1 then MultiRowSetup cfg sv st else st)"
  define b where "b = (if ai_enabled cfg \<and> \<not> ai_ready a \<and> length rows > 1 then ArrayIngestSetup cfg sv a else a)"
  have ab: "prepares view st a" "prepares view a b"
    using MultiRowSetup_prepares [OF silent] ArrayIngestSetup_prepares [OF silent] by (simp_all add: a_def b_def)
  define c where "c = b\<lparr>is_seen := is_seen b + length rows\<rparr>"
  have c: "is_seen c = is_seen st + length rows" "is_txn c = is_txn st" "is_applied c = is_applied st" "is_total c = is_total st"
    "is_use_array c = is_use_array st" "view (is_d c) = view (is_d st)" "sized c"
    using prepares_trans [OF ab] assms(3) by (simp_all add: c_def prepares_def sized_def)
  have inv: "run_inv cfg view B P j L c" using assms(2) c by (auto simp: run_inv_def txn_fits_def)
  have st1: "st1 = (if is_seen c > 1 then OdbcAutoTxnBegin cfg sv c else c)"
    using assms(4) unfolding PrepareStage_def Let_def a_def [symmetric] b_def [symmetric] c_def [symmetric] by simp
  show "run_inv cfg view B P j L st1" "sized st1" "is_seen st1 = is_seen st + length rows" "is_applied st1 = is_applied st"
    "is_total st1 = is_total st" "is_use_array st1 = is_use_array st" "begins cfg sv \<and> 1 < is_seen st1 \<longrightarrow> is_txn st1"
    using inv c OdbcAutoTxnBegin_inv [OF t inv] by (simp_all add: st1)
qed

lemma ExecuteBatch_single:
  "length rows \<le> 1 \<Longrightarrow> ExecuteBatch cfg sv rows st = Some (ExecuteEachRow cfg sv True rows (PrepareStage cfg sv rows st))"
  by (auto simp: ExecuteBatch_def ArrayStage_def MultiRowStage_def ParamArrayStage_def MultiRowRest_def RowStage_def Let_def
      split: prod.split)

lemma progress_effect:
  assumes "run_inv cfg view B P j1 (L @ l1) st2" "effect sv view st2 st' l2"
    "is_seen st2 = is_seen st + length rows" "sized st2" "is_use_array st2 \<longrightarrow> is_use_array st"
    "begins cfg sv \<and> 1 < is_seen st + length rows \<longrightarrow> j1 = j \<and> is_txn st2"
    "exact_counts sv \<and> \<not> is_use_array st \<longrightarrow> is_total st2 = is_total st + int (length l1)"
    "s \<noteq> ADBC_STATUS_OK \<and> length rows \<le> 1 \<longrightarrow> l1 @ l2 = []"
    "s = ADBC_STATUS_OK \<longrightarrow> mset (l1 @ l2) = mset rows \<and> (\<not> is_use_array st \<longrightarrow> l1 @ l2 = rows) \<and> (is_applied st' \<or> L @ l1 @ l2 = [])"
  shows "\<exists>ls j'. progress cfg sv view B P j L st rows s st' ls j'"
proof (intro exI)
  define j' where "j' = (if is_txn st2 \<or> \<not> ci_autocommit cfg then j1 else j1 + length l2)"
  have "run_inv cfg view B P j' (L @ l1 @ l2) st'" using run_inv_effect [OF assms(1,2)] by (simp add: j'_def)
  moreover have "is_seen st' = is_seen st + length rows" "sized st'" "is_use_array st' \<longrightarrow> is_use_array st"
    using assms(2-5) by (auto simp: effect_def)
  moreover have "begins cfg sv \<and> 1 < is_seen st + length rows \<longrightarrow> j' = j" using assms(6) by (auto simp: j'_def)
  moreover have "exact_counts sv \<and> \<not> is_use_array st \<longrightarrow> is_total st' = is_total st + int (length (l1 @ l2))"
    using assms(2,5,7) by (auto simp: effect_def)
  ultimately show "progress cfg sv view B P j L st rows s st' (l1 @ l2) j'"
    using assms(8,9) unfolding progress_def by blast
qed

lemma ExecuteBatch_progress:
  assumes "server_ok cfg sv view" "list_all (row_fits cfg) rows" "run_inv cfg view B P j L st" "sized st"
    "is_applied st \<or> L = []" "ExecuteBatch cfg sv rows st = Some (s', st')"
  shows "\<exists>ls j'. progress cfg sv view B P j L st rows s' st' ls j'"
proof -
  define st1 where "st1 = PrepareStage cfg sv rows st"
  note prep = PrepareStage_inv [OF assms(1,3,4) st1_def [symmetric]]
  show ?thesis
  proof (cases "length rows \<le> 1")
    case True
    then have x: "ExecuteEachRow cfg sv True rows st1 = (s', st')"
      using assms(6) ExecuteBatch_single [OF True, of cfg sv st] by (simp add: st1_def)
    obtain n where n: "n \<le> length rows" "effect sv view st1 st' (take n rows)" "s' = ADBC_STATUS_OK \<longrightarrow> n = length rows"
      "s' \<noteq> ADBC_STATUS_OK \<longrightarrow> n < length rows" "is_applied st' = (is_applied st1 \<or> n > 0)"
      using ExecuteEachRow_effect [OF assms(1,2) x] by auto
    have "n = 0" if "s' \<noteq> ADBC_STATUS_OK" using n(4) True that by simp
    moreover have "is_applied st' \<or> L @ take n rows = []" using n(5) assms(5) prep(4) by auto
    moreover have "\<not> is_use_array st \<longrightarrow> take n rows = rows" "mset (take n rows) = mset rows" if "s' = ADBC_STATUS_OK"
      using that n(3) by simp_all
    ultimately show ?thesis
      using run_inv_effect [OF prep(1)] n(2,3) prep True assms(4)
      by (intro progress_effect [of cfg view B P j L "[]" st1 sv st' "take n rows"]) auto
  next
    case False
    obtain sa ra sta where a: "ArrayStage cfg sv rows st1 = Some (sa, ra, sta)"
      using assms(6) by (auto simp: ExecuteBatch_def st1_def [symmetric] bind_eq_Some_conv)
    obtain sb rb stb where b: "MultiRowStage cfg sv rows (sa, ra, sta) = Some (sb, rb, stb)"
      using assms(6) a by (auto simp: ExecuteBatch_def st1_def [symmetric] bind_eq_Some_conv)
    obtain s row retry st2 where c: "MultiRowRest cfg sv rows (ParamArrayStage cfg sv rows (sb, rb, stb)) = Some (s, row, retry, st2)"
      using assms(6) a b by (auto simp: ExecuteBatch_def st1_def [symmetric] bind_eq_Some_conv)
    have x: "RowStage cfg sv rows (s, row, retry, st2) = (s', st')"
      using assms(6) a b c by (simp add: ExecuteBatch_def st1_def [symmetric])
    have L: "\<not> is_applied st1 \<Longrightarrow> L = []" using assms(5) prep(4) by simp
    obtain sp rp retp stp where p: "ParamArrayStage cfg sv rows (sb, rb, stb) = (sp, rp, retp, stp)"
      by (cases "ParamArrayStage cfg sv rows (sb, rb, stb)")
    note sta = ArrayStage_stage [OF assms(1,2) prep(1,2) L a]
    note stb = MultiRowStage_stage [OF assms(1,2) sta L b]
    note stp = ParamArrayStage_stage [OF assms(1,2) stb, unfolded p]
    have "stage cfg sv view B P rows j L st1 (s, row, retry, st2)"
      using MultiRowRest_stage [OF assms(1,2) stp c [unfolded p]] .
    then show ?thesis
    proof (rule stageE)
      fix l1 j1
      assume keeps: "stage_keeps cfg sv st1 st2" and inv: "run_inv cfg view B P j1 (L @ l1) st2"
        and jj: "begins cfg sv \<and> is_txn st1 \<longrightarrow> j1 = j"
        and tot: "exact_counts sv \<and> \<not> is_use_array st1 \<longrightarrow> is_total st2 = is_total st1 + int (length l1)"
        and rows: "stage_rows rows (is_use_array st1) s row retry l1"
      obtain l2 where l2: "effect sv view st2 st' l2" "s' = ADBC_STATUS_OK \<longrightarrow> s = ADBC_STATUS_OK \<and> l2 = drop row rows @ map ((!) rows) retry
           \<and> (is_applied st' \<or> row = 0 \<and> rows = [])"
        using RowStage_effect [OF assms(1,2) x] rows by (auto simp: stage_rows_def)
      have good: "mset (l1 @ l2) = mset rows \<and> (\<not> is_use_array st \<longrightarrow> l1 @ l2 = rows)" if "s' = ADBC_STATUS_OK"
      proof -
        have "mset (l1 @ l2) = (mset l1 + mset (map ((!) rows) retry)) + mset (drop row rows)" using l2(2) that by simp
        also have "\<dots> = mset (take row rows @ drop row rows)" using rows l2(2) that unfolding mset_append by (simp add: stage_rows_def)
        finally show ?thesis using rows l2(2) that prep(6) by (auto simp: stage_rows_def)
      qed
      have applied: "is_applied st' \<or> L @ l1 @ l2 = []" if "s' = ADBC_STATUS_OK"
        using l2(2) that False by auto
      have k: "is_seen st2 = is_seen st1" "sized st2" "is_use_array st2 \<longrightarrow> is_use_array st" "begins cfg sv \<and> is_txn st1 \<longrightarrow> is_txn st2"
        using keeps prep(6) by (simp_all add: stage_keeps_def)
      have b: "begins cfg sv \<and> 1 < is_seen st + length rows \<longrightarrow> is_txn st1" using prep(3,7) by simp
      have t: "exact_counts sv \<and> \<not> is_use_array st \<longrightarrow> is_total st2 = is_total st + int (length l1)"
        using tot prep(5,6) by simp
      show ?thesis
        by (rule progress_effect [OF inv l2(1)]) (use k b jj t False good applied prep(3) in auto)
    qed
  qed
qed

section \<open>The stream\<close>

fun stream_rows :: "'f stream_item list \<Rightarrow> 'f cell list list" where
  "stream_rows [] = []"
| "stream_rows (Batch rows # items) = rows @ stream_rows items"
| "stream_rows (_ # items) = stream_rows items"

text \<open>The only row of the first batch that has any, when it has just the one.\<close>

fun lone_start :: "'f stream_item list \<Rightarrow> 'f cell list list" where
  "lone_start (Batch [] # items) = lone_start items"
| "lone_start (Batch [r] # items) = [r]"
| "lone_start _ = []"

definition stream_fits :: "'f insert_config \<Rightarrow> 'f stream_item list \<Rightarrow> bool" where
  "stream_fits cfg items \<longleftrightarrow> list_all (row_fits cfg) (stream_rows items)"

definition stream_end ::
  "'f insert_config \<Rightarrow> ('d, 'f) insert_server \<Rightarrow> ('d \<Rightarrow> 'f table) \<Rightarrow> 'f cell list list \<Rightarrow> 'f cell list list \<Rightarrow> nat
   \<Rightarrow> 'f cell list list \<Rightarrow> 'd insert_state \<Rightarrow> 'f stream_item list \<Rightarrow> status \<Rightarrow> 'd insert_state \<Rightarrow> 'f cell list list \<Rightarrow> nat \<Rightarrow> bool" where
  "stream_end cfg sv view B P j L st items s st' ls j' \<longleftrightarrow>
     run_inv cfg view B P j' (L @ ls) st'
   \<and> (exact_counts sv \<and> \<not> is_use_array st \<longrightarrow> is_total st' = is_total st + int (length ls))
   \<and> (begins cfg sv \<longrightarrow> take j' (L @ ls) = take j L
        \<or> is_seen st = 0 \<and> take j' (L @ ls) = lone_start items)
   \<and> (s = ADBC_STATUS_OK \<longrightarrow> mset ls = mset (stream_rows items) \<and> (\<not> is_use_array st \<longrightarrow> ls = stream_rows items))"

text \<open>Of the rows of one batch, those committed before the transaction is open are the first, alone.\<close>

lemma progress_committed:
  assumes "progress cfg sv view B P j L st rows s st' ls j'" "begins cfg sv" "length L = is_seen st" "run_inv cfg view B P j L st"
  shows "take j' (L @ ls) = take j L \<or> s = ADBC_STATUS_OK \<and> is_seen st = 0 \<and> (\<exists>r. rows = [r]) \<and> take j' (L @ ls) = rows"
proof (cases "1 < is_seen st + length rows")
  case True
  with assms show ?thesis by (simp add: progress_def run_inv_def)
next
  case False
  have "ci_autocommit cfg" using assms(2) by (simp add: begins_def)
  moreover have "\<not> is_txn st'" "\<not> is_txn st" using assms(1,4) False by (auto simp: progress_def run_inv_def txn_fits_def)
  ultimately have full: "j' = length (L @ ls)" "j = length L" using assms(1,4) by (simp_all add: progress_def run_inv_def)
  show ?thesis
  proof (cases "s = ADBC_STATUS_OK")
    case True
    then have "mset ls = mset rows" using assms(1) by (simp add: progress_def)
    with full True False assms(3) show ?thesis by (cases rows) auto
  next
    case err: False
    then have "ls = []" using assms(1) False by (simp add: progress_def)
    with full show ?thesis by simp
  qed
qed

lemma progress_step:
  assumes "progress cfg sv view B P j L st rows ADBC_STATUS_OK st1 l1 j1" "length L = is_seen st" "run_inv cfg view B P j L st"
    "stream_end cfg sv view B P j1 (L @ l1) st1 items s st' l2 j2"
  shows "stream_end cfg sv view B P j L st (Batch rows # items) s st' (l1 @ l2) j2"
proof -
  have one: "mset l1 = mset rows" "\<not> is_use_array st \<longrightarrow> l1 = rows" "is_use_array st1 \<longrightarrow> is_use_array st"
    "is_seen st1 = is_seen st + length rows"
    "exact_counts sv \<and> \<not> is_use_array st \<longrightarrow> is_total st1 = is_total st + int (length l1)"
    using assms(1) by (auto simp: progress_def)
  have two: "run_inv cfg view B P j2 (L @ l1 @ l2) st'"
    "exact_counts sv \<and> \<not> is_use_array st1 \<longrightarrow> is_total st' = is_total st1 + int (length l2)"
    "begins cfg sv \<longrightarrow> take j2 (L @ l1 @ l2) = take j1 (L @ l1) \<or> is_seen st1 = 0 \<and> take j2 (L @ l1 @ l2) = lone_start items"
    "s = ADBC_STATUS_OK \<longrightarrow> mset l2 = mset (stream_rows items) \<and> (\<not> is_use_array st1 \<longrightarrow> l2 = stream_rows items)"
    using assms(4) by (simp_all add: stream_end_def)
  have "take j2 (L @ l1 @ l2) = take j L \<or> is_seen st = 0 \<and> take j2 (L @ l1 @ l2) = lone_start (Batch rows # items)"
    if "begins cfg sv"
  proof (cases rows)
    case Nil
    with progress_committed [OF assms(1) that assms(2,3)] two(3) that one(4) show ?thesis by auto
  next
    case (Cons r rs)
    then have "take j2 (L @ l1 @ l2) = take j1 (L @ l1)" using two(3) that one(4) by simp
    with progress_committed [OF assms(1) that assms(2,3)] show ?thesis by auto
  qed
  then show ?thesis using one two by (auto simp: stream_end_def)
qed

lemma stream_end_stop:
  "run_inv cfg view B P j L st \<Longrightarrow> s \<noteq> ADBC_STATUS_OK \<Longrightarrow> \<exists>ls j'. stream_end cfg sv view B P j L st items s st ls j'"
  by (intro exI [of _ "[]"] exI [of _ j]) (simp add: stream_end_def)

lemma ExecuteStream_end:
  assumes "server_ok cfg sv view" "stream_fits cfg items" "ExecuteStream cfg sv items st = Some (s, st')"
    "run_inv cfg view B P j L st" "sized st" "is_applied st \<or> L = []" "length L = is_seen st"
  shows "\<exists>ls j'. stream_end cfg sv view B P j L st items s st' ls j'"
  using assms
proof (induction cfg sv items st arbitrary: j L rule: ExecuteStream.induct)
  case (1 cfg sv st)
  then show ?case by (intro exI [of _ "[]"] exI [of _ j]) (simp add: stream_end_def)
next
  case (2 cfg sv rows items st)
  have fits: "list_all (row_fits cfg) rows" "stream_fits cfg items" using "2.prems"(2) by (simp_all add: stream_fits_def)
  obtain s1 st1 where b: "ExecuteBatch cfg sv rows st = Some (s1, st1)"
    using "2.prems"(3) by (auto simp: bind_eq_Some_conv)
  obtain l1 j1 where p: "progress cfg sv view B P j L st rows s1 st1 l1 j1"
    using ExecuteBatch_progress [OF "2.prems"(1) fits(1) "2.prems"(4-6) b] by blast
  show ?case
  proof (cases "s1 = ADBC_STATUS_OK")
    case True
    note p1 = p [unfolded True]
    have st1: "run_inv cfg view B P j1 (L @ l1) st1" "sized st1" "is_applied st1 \<or> L @ l1 = []" "length (L @ l1) = is_seen st1"
      using p1 "2.prems"(7) by (auto simp: progress_def dest: mset_eq_length)
    have ex: "ExecuteStream cfg sv items st1 = Some (s, st')" using "2.prems"(3) b True by simp
    from "2.IH" [OF b refl True "2.prems"(1) fits(2) ex st1]
    obtain l2 j2 where "stream_end cfg sv view B P j1 (L @ l1) st1 items s st' l2 j2" by blast
    then show ?thesis using progress_step [OF p1 "2.prems"(7,4)] by blast
  next
    case False
    then have s: "s = s1" "st' = st1" using "2.prems"(3) b by simp_all
    have "begins cfg sv \<Longrightarrow> take j1 (L @ l1) = take j L"
      using progress_committed [OF p _ "2.prems"(7,4)] False by simp
    then show ?thesis using p False s by (intro exI [of _ l1] exI [of _ j1]) (simp add: stream_end_def progress_def)
  qed
qed (auto intro!: stream_end_stop)

end
