(* ===== verification/InsertOnce.thy ===== *)
theory InsertOnce
  imports BulkSafe
begin

text \<open>
  The theorems on \<open>ExecuteRows\<close>: it returns; when it reports success every row of the stream has been
  inserted once; when it fails, the transaction it opened leaves at most one row behind; and the
  statements it sends fit the limits it reads from the server.
\<close>

section \<open>The whole execute\<close>

definition table_start :: "'f insert_config \<Rightarrow> 'f table \<Rightarrow> bool" where
  "table_start cfg t \<longleftrightarrow> tb_auto t = ci_autocommit cfg \<and> (ci_autocommit cfg \<longrightarrow> tb_pending t = [])"

lemma run_inv_start:
  assumes "table_start cfg (view d)"
  shows "run_inv cfg view (tb_committed (view d)) (tb_pending (view d)) 0 [] (ExecuteRowsInit cfg mem d)"
    "sized (ExecuteRowsInit cfg mem d)"
  using assms by (auto simp: run_inv_def txn_fits_def table_start_def ExecuteRowsInit_def sized_def)

text \<open>What has landed, and how much of it for good, before the transaction is ended.\<close>

lemma ExecuteRows_end:
  assumes "server_ok cfg sv view" "stream_fits cfg items" "table_start cfg (view d)"
    "ExecuteRows cfg sv items mem d = Some (s', affected, d')"
  obtains s st s2 st2 ls j where
    "stream_end cfg sv view (tb_committed (view d)) (tb_pending (view d)) 0 [] (ExecuteRowsInit cfg mem d) items s st ls j"
    "OdbcAutoTxnEnd sv (s = ADBC_STATUS_OK) st = (s2, st2)"
    "s' = (if s = ADBC_STATUS_OK then s2 else s)" "d' = is_d st2"
    "affected = (if s' = ADBC_STATUS_OK then Some (is_total st) else None)"
proof -
  obtain s st where x: "ExecuteStream cfg sv items (ExecuteRowsInit cfg mem d) = Some (s, st)"
    using assms(4) by (auto simp: ExecuteRows_def bind_eq_Some_conv)
  obtain s2 st2 where e: "OdbcAutoTxnEnd sv (s = ADBC_STATUS_OK) st = (s2, st2)" by fastforce
  have "is_seen (ExecuteRowsInit cfg mem d) = 0" by (simp add: ExecuteRowsInit_def)
  then obtain ls j where
    "stream_end cfg sv view (tb_committed (view d)) (tb_pending (view d)) 0 [] (ExecuteRowsInit cfg mem d) items s st ls j"
    using ExecuteStream_end [OF assms(1,2) x run_inv_start [of cfg view d mem]] assms(3) by auto
  moreover have "s' = (if s = ADBC_STATUS_OK then s2 else s)" "d' = is_d st2"
    "affected = (if s' = ADBC_STATUS_OK then Some (is_total st2) else None)"
    using assms(4) x e by (auto simp: ExecuteRows_def Let_def)
  ultimately show thesis using that e OdbcAutoTxnEnd_fields(3) [OF e] by metis
qed

lemma ExecuteRows_landed:
  assumes "server_ok cfg sv view" "stream_fits cfg items" "table_start cfg (view d)"
    "ExecuteRows cfg sv items mem d = Some (ADBC_STATUS_OK, affected, d')"
  obtains ls where "mset ls = mset (stream_rows items)" "\<not> ci_array_binding cfg \<Longrightarrow> ls = stream_rows items"
    "view d' = (if ci_autocommit cfg then \<lparr>tb_committed = tb_committed (view d) @ ls, tb_pending = [], tb_auto = True\<rparr>
                else \<lparr>tb_committed = tb_committed (view d), tb_pending = tb_pending (view d) @ ls, tb_auto = False\<rparr>)"
    "exact_counts sv \<Longrightarrow> \<not> ci_array_binding cfg \<Longrightarrow> affected = Some (int (length ls))"
  using assms
proof (rule ExecuteRows_end)
  fix s st s2 st2 ls j
  let ?B = "tb_committed (view d)" and ?P = "tb_pending (view d)"
  assume e: "stream_end cfg sv view ?B ?P 0 [] (ExecuteRowsInit cfg mem d) items s st ls j"
    and t: "OdbcAutoTxnEnd sv (s = ADBC_STATUS_OK) st = (s2, st2)"
    and s: "ADBC_STATUS_OK = (if s = ADBC_STATUS_OK then s2 else s)" and d': "d' = is_d st2"
    and affected: "affected = (if ADBC_STATUS_OK = ADBC_STATUS_OK then Some (is_total st) else None)"
  have ok: "s = ADBC_STATUS_OK" "s2 = ADBC_STATUS_OK" using s by (metis)+
  have inv: "run_inv cfg view ?B ?P j ls st" using e by (simp add: stream_end_def)
  have use: "is_use_array (ExecuteRowsInit cfg mem d) \<longrightarrow> ci_array_binding cfg" "is_total (ExecuteRowsInit cfg mem d) = 0"
    by (simp_all add: ExecuteRowsInit_def)
  have tok: "transactions_ok sv view" using assms(1) by (simp add: server_ok_def)
  obtain j' where inv2: "run_inv cfg view ?B ?P j' ls st2" using OdbcAutoTxnEnd_inv(2) [OF tok inv t] ok by auto
  have "\<not> is_txn st2" using OdbcAutoTxnEnd_fields(6) [OF t] by simp
  then have "view d' = (if ci_autocommit cfg then \<lparr>tb_committed = ?B @ ls, tb_pending = [], tb_auto = True\<rparr>
      else \<lparr>tb_committed = ?B, tb_pending = ?P @ ls, tb_auto = False\<rparr>)"
    using inv2 by (simp add: run_inv_def d')
  then show thesis using that [of ls] e ok use affected by (auto simp: stream_end_def)
qed

lemma OdbcAutoTxnEnd_status:
  "fst (OdbcAutoTxnEnd sv commit st)
     = (if is_txn st \<and> commit then fst (sv_end_tran sv commit (is_d st)) else ADBC_STATUS_OK)"
  by (simp add: OdbcAutoTxnEnd_def split: prod.split)

section \<open>Insertion\<close>



section \<open>A server to run it on\<close>

text \<open>
  One text column.  The server executes statements in full or not at all, counts their rows, reads array
  literals, takes parameter arrays set by set; it refuses the cells of \<open>bad\<close>, and in parameter arrays
  those of \<open>picky\<close> as well.
\<close>

record demo_db =
  db_table :: "unit table"
  db_count :: int

definition demo_insert :: "(unit cell \<Rightarrow> bool) \<Rightarrow> unit cell list \<Rightarrow> int \<Rightarrow> demo_db \<Rightarrow> status \<times> demo_db" where
  "demo_insert bad ps n d =
     (if list_ex bad ps then (ADBC_STATUS_IO, d)
      else (ADBC_STATUS_OK, \<lparr>db_table = insert_rows (map (\<lambda>x. [x]) ps) (db_table d), db_count = n\<rparr>))"

definition demo_element :: "string option \<Rightarrow> unit cell" where
  "demo_element e = (case e of None \<Rightarrow> CNull | Some s \<Rightarrow> CText s)"

definition demo_unnest :: "(unit cell \<Rightarrow> bool) \<Rightarrow> string list \<Rightarrow> demo_db \<Rightarrow> status \<times> demo_db" where
  "demo_unnest bad lits d =
     (case lits of
        [l] \<Rightarrow> (case read_array l of
                  Some es \<Rightarrow> demo_insert bad (map demo_element es) (int (length es)) d
                | None \<Rightarrow> (ADBC_STATUS_IO, d))
      | _ \<Rightarrow> (ADBC_STATUS_IO, d))"

definition demo_array :: "(unit cell \<Rightarrow> bool) \<Rightarrow> unit cell list list \<Rightarrow> demo_db \<Rightarrow> array_reply \<times> demo_db" where
  "demo_array picky rs d =
     (let good = filter (\<lambda>r. \<not> list_ex picky r) rs
      in (\<lparr>ar_ret = (if length good = length rs then RET_SUCCESS else RET_SUCCESS_WITH_INFO),
           ar_processed = length rs,
           ar_status = map (\<lambda>r. if list_ex picky r then SQL_PARAM_ERROR else SQL_PARAM_SUCCESS) rs,
           ar_count = int (length good), ar_more_counts = []\<rparr>,
          d\<lparr>db_table := insert_rows good (db_table d)\<rparr>))"

definition demo_server :: "(unit cell \<Rightarrow> bool) \<Rightarrow> (unit cell \<Rightarrow> bool) \<Rightarrow> (demo_db, unit) insert_server" where
  "demo_server bad picky =
     \<lparr>sv_prepare = \<lambda>s d. (True, d), sv_bind = \<lambda>i x d. (ADBC_STATUS_OK, d),
      sv_execute = \<lambda>n ps d. demo_insert bad ps (int n) d,
      sv_bind_text = \<lambda>i s d. (ADBC_STATUS_OK, d), sv_unnest = demo_unnest bad,
      sv_array_verify = \<lambda>d. (True, d), sv_paramset = \<lambda>n d. (True, d), sv_bind_columns = \<lambda>rs d. (ADBC_STATUS_OK, d),
      sv_array = demo_array (\<lambda>x. bad x \<or> picky x), sv_row_count = db_count,
      sv_autocommit = \<lambda>on d. (True, d\<lparr>db_table :=
        if on then \<lparr>tb_committed = tb_committed (db_table d) @ tb_pending (db_table d), tb_pending = [], tb_auto = True\<rparr>
        else (db_table d)\<lparr>tb_auto := False\<rparr>\<rparr>),
      sv_end_tran = \<lambda>commit d. (ADBC_STATUS_OK, d\<lparr>db_table :=
        if commit then (db_table d)\<lparr>tb_committed := tb_committed (db_table d) @ tb_pending (db_table d), tb_pending := []\<rparr>
        else (db_table d)\<lparr>tb_pending := []\<rparr>\<rparr>)\<rparr>"

definition demo_config :: "string option \<Rightarrow> bool \<Rightarrow> bool \<Rightarrow> unit insert_config" where
  "demo_config into arrays literals =
     \<lparr>ci_types = [IT_STRING], ci_g17 = \<lambda>_. ''0'', ci_ingest_into = into, ci_rows_per_insert = 2, ci_array_binding = arrays,
      ci_connected = True, ci_autocommit = True, ci_txn_capable = True, ci_pg_array_ingest = literals,
      ci_prefer_param_arrays = False, ci_no_batch_counts = False, ci_multirow_insert_all = False, ci_multirow_union_from = None,
      ci_column_type_sql = \<lambda>_. None, ci_max_statement_len = 0, ci_max_statement_params = 0, ci_slot_bytes = 64,
      ci_array_row_bytes = \<lambda>_. Some 16\<rparr>"

definition demo_memory :: insert_memory where
  "demo_memory = \<lparr>im_multirow_probed = False, im_multirow_unsupported = False, im_multirow_form = ODBC_MULTIROW_VALUES,
     im_multirow_max_params = 0, im_array_probed = False, im_array_unsupported = False\<rparr>"

definition demo_start :: demo_db where
  "demo_start = \<lparr>db_table = \<lparr>tb_committed = [], tb_pending = [], tb_auto = True\<rparr>, db_count = 0\<rparr>"

lemma demo_row:
  assumes "row_fits (demo_config into arrays literals) r"
  shows "\<exists>x. r = [x] \<and> (x = CNull \<or> (\<exists>s. x = CText s))"
proof -
  obtain x where "r = [x]" "cell_typed IT_STRING x"
    using assms by (auto simp: row_fits_def demo_config_def list_all2_Cons1)
  then show ?thesis by (cases x) (simp_all add: cell_typed_def)
qed

lemma demo_rows:
  assumes "list_all (row_fits (demo_config into arrays literals)) rs"
  shows "map (\<lambda>x. [x]) (group_params 1 rs) = rs" "map (\<lambda>r. demo_element (cell_says g IT_STRING (r ! 0))) rs = group_params 1 rs"
  using assms by (induction rs) (auto simp: group_params_def cell_says_def demo_element_def dest!: demo_row)

lemma demo_insert_view: "demo_insert bad ps n d = (s, d') \<Longrightarrow>
    db_table d' = (if s = ADBC_STATUS_OK then insert_rows (map (\<lambda>x. [x]) ps) (db_table d) else db_table d)"
  by (auto simp: demo_insert_def split: if_splits)

lemma demo_columns [simp]: "ci_ncols (demo_config into arrays literals) = 1" "ci_types (demo_config into arrays literals) = [IT_STRING]"
  by (simp_all add: ci_ncols_def demo_config_def)

lemma demo_limits [simp]:
  "ci_ingest_into (demo_config into arrays literals) = into" "ci_multirow_union_from (demo_config into arrays literals) = None"
  "ci_max_statement_len (demo_config into arrays literals) = 0" "ci_max_statement_params (demo_config into arrays literals) = 0"
  "ci_slot_bytes (demo_config into arrays literals) = 64"
  by (simp_all add: demo_config_def)

lemma demo_unnest_inserts: "unnest_inserts (demo_config into arrays literals) (demo_server bad picky) db_table"
  unfolding unnest_inserts_def
proof (intro allI impI)
  fix rs lits d s d'
  let ?cfg = "demo_config into arrays literals"
  assume fits: "list_all (row_fits ?cfg) rs" and len: "length lits = ci_ncols ?cfg"
    and reads: "\<forall>c < ci_ncols ?cfg. read_array (lits ! c) = Some (map (\<lambda>r. cell_says (ci_g17 ?cfg) (ci_types ?cfg ! c) (r ! c)) rs)"
    and x: "sv_unnest (demo_server bad picky) lits d = (s, d')"
  obtain l where l: "lits = [l]" using len by (cases lits) auto
  have "sv_unnest (demo_server bad picky) lits d = demo_insert bad (group_params 1 rs) (int (length rs)) d"
    using reads demo_rows(2) [OF fits] by (simp add: demo_server_def demo_unnest_def l comp_def)
  with x demo_insert_view demo_rows(1) [OF fits]
  show "db_table d' = (if s = ADBC_STATUS_OK then insert_rows rs (db_table d) else db_table d)" by metis
qed

lemma filter_good: "map ((!) rs) (filter (\<lambda>i. P (rs ! i)) [0..<length rs]) = filter P rs"
  by (metis (no_types, lifting) filter_cong filter_map map_nth o_apply)

lemma demo_array_landed:
  assumes "length sts = length rs" "\<forall>i < length rs. sts ! i = (if P (rs ! i) then SQL_PARAM_SUCCESS else SQL_PARAM_ERROR)"
    "rp = \<lparr>ar_ret = r, ar_processed = length rs, ar_status = sts, ar_count = c, ar_more_counts = m\<rparr>" "\<forall>s. r \<noteq> RET_ERROR s"
  shows "array_landed cfg rs rp (filter P rs)"
proof -
  have "filter (set_landed (ci_no_batch_counts cfg) rp) [0..<length rs] = filter (\<lambda>i. P (rs ! i)) [0..<length rs]"
    by (rule filter_cong) (use assms(2) in \<open>auto simp: set_landed_def set_retried_def assms(3)\<close>)
  then have "filter P rs = map ((!) rs) (filter (set_landed (ci_no_batch_counts cfg) rp) [0..<length rs])"
    by (simp add: filter_good)
  then show ?thesis using assms by (cases r) (auto simp: array_landed_def)
qed

lemma demo_arrays_insert: "arrays_insert (demo_config into arrays literals) (demo_server bad picky) db_table"
  unfolding arrays_insert_def
proof (intro allI impI)
  fix rs d rp d'
  assume fits: "list_all (row_fits (demo_config into arrays literals)) rs"
    and x: "sv_array (demo_server bad picky) rs d = (rp, d')"
  let ?odd = "\<lambda>x. bad x \<or> picky x"
  have "array_landed (demo_config into arrays literals) rs (written_status (length rs) rp) (filter (\<lambda>r. \<not> list_ex ?odd r) rs)"
    using x by (intro demo_array_landed [where sts = "ar_status (written_status (length rs) rp)" and r = "ar_ret rp"
          and c = "ar_count rp" and m = "ar_more_counts rp"])
      (auto simp: demo_server_def demo_array_def Let_def written_status_def split: if_splits)
  then show "\<exists>ls. array_landed (demo_config into arrays literals) rs (written_status (length rs) rp) ls \<and> db_table d' = insert_rows ls (db_table d)"
    using x by (auto simp: demo_server_def demo_array_def Let_def)
qed

lemma demo_server_ok: "server_ok (demo_config into arrays literals) (demo_server bad picky) db_table"
proof -
  have "execute_inserts (demo_config into arrays literals) (demo_server bad picky) db_table"
    using demo_insert_view demo_rows(1) by (simp add: execute_inserts_def demo_server_def)
  moreover have "silent_calls (demo_server bad picky) db_table" "transactions_ok (demo_server bad picky) db_table"
    by (auto simp: silent_calls_def transactions_ok_def demo_server_def)
  ultimately show ?thesis using demo_unnest_inserts demo_arrays_insert by (simp add: server_ok_def)
qed

lemma demo_begins: "begins (demo_config into arrays literals) (demo_server bad picky)"
  by (simp add: begins_def demo_config_def demo_server_def)

lemma demo_counts: "exact_counts (demo_server bad picky)"
  by (auto simp: exact_counts_def demo_server_def demo_insert_def split: prod.splits if_splits)

lemma demo_ends: "\<forall>commit d. fst (sv_end_tran (demo_server bad picky) commit d) = ADBC_STATUS_OK"
  by (simp add: demo_server_def)

lemma demo_table_start: "table_start (demo_config into arrays literals) (db_table demo_start)"
  by (simp add: table_start_def demo_config_def demo_start_def)

definition text_rows :: "string list \<Rightarrow> unit stream_item" where
  "text_rows ss = Batch (map (\<lambda>s. [CText s]) ss)"

lemma demo_start_empty [simp]: "tb_committed (db_table demo_start) = []" "tb_pending (db_table demo_start) = []"
  by (simp_all add: demo_start_def)

lemma demo_fits: "stream_fits (demo_config into arrays literals) (map text_rows tss)"
  by (induction tss)
     (auto simp: stream_fits_def text_rows_def list_all_iff row_fits_def cell_typed_def cell_fits_def)

section \<open>It returns\<close>

text \<open>The preparations, read without any table: what they keep does not depend on the server.\<close>

lemma silent_nothing: "silent_calls sv (\<lambda>_. t)"
  by (simp add: silent_calls_def)

lemma prepares_sized: "prepares view st st' \<Longrightarrow> sized st \<Longrightarrow> sized st'"
  by (simp add: prepares_def)

lemma MultiRowExecGroup_fields:
  "MultiRowExecGroup cfg sv rs st = (s, st') \<Longrightarrow> mr_rows st' = mr_rows st \<and> sized st' = sized st"
  by (auto simp: MultiRowExecGroup_def Let_def sized_def split: prod.splits if_splits)

lemma MultiRowLoop_sized:
  assumes "MultiRowLoop fuel cfg sv rows virgin row st = Some (s, k, fell, st')" "sized st" "2 \<le> mr_rows st"
  shows "sized st'"
  using assms
proof (induction fuel arbitrary: row st)
  case (Suc fuel)
  obtain undef :: "'b table" where True by blast
  note silent = silent_nothing [of sv undef]
  define n where "n = min (length rows - row) (mr_rows st)"
  obtain ok st1 where g: "MultiRowGroupFor cfg sv n st = (ok, st1)" by fastforce
  note gp = MultiRowGroupFor_prepares [OF silent g]
  obtain e st2 where e: "MultiRowExecGroup cfg sv (take n (drop row rows)) st1 = (e, st2)" by fastforce
  note ep = MultiRowExecGroup_fields [OF e]
  obtain ok' st3 where w: "MultiRowNarrow cfg sv st2 = (ok', st3)" by fastforce
  note wp = MultiRowNarrow_prepares [OF silent w]
  have "sized st1" "sized st2" "sized st3"
    using gp ep wp(1) Suc.prems(2) prepares_sized by blast+
  moreover have "mr_rows st2 = mr_rows st" using gp ep by simp
  moreover have "sized (st3\<lparr>mc_multirow_unsupported := True, mr_active := False\<rparr>) = sized (st3\<lparr>mr_active := False\<rparr>)"
    by (simp add: sized_def)
  moreover have "sized (st3\<lparr>mr_active := False\<rparr>)" using \<open>sized st3\<close> by (simp add: sized_def)
  ultimately show ?case
    using Suc.prems g e w wp(2) Suc.IH [of "row + n" st2] Suc.IH [of row st3]
    by (auto simp: n_def [symmetric] Let_def split: if_splits)
qed simp

lemma ArrayIngestLoop_sized:
  "ArrayIngestLoop fuel cfg sv rows virgin row st = Some (s, k, fell, st') \<Longrightarrow> sized st \<Longrightarrow> sized st'"
proof (induction fuel arbitrary: row st)
  case (Suc fuel)
  have "sized (st\<lparr>is_d := d\<rparr>)" "sized (st\<lparr>is_d := d, is_total := t\<rparr>)" "sized (st\<lparr>ai_active := False\<rparr>)"
    "sized (st\<lparr>is_d := d, ai_active := False\<rparr>)" for d t
    using Suc.prems(2) by (simp_all add: sized_def)
  with Suc show ?case
    by (auto simp: Let_def split: if_splits option.splits prod.splits)
qed simp

lemma sized_fields [simp]:
  "sized (st\<lparr>is_d := d\<rparr>) = sized st" "sized (st\<lparr>is_total := t\<rparr>) = sized st" "sized (st\<lparr>is_use_array := b\<rparr>) = sized st"
  "sized (st\<lparr>is_applied := b\<rparr>) = sized st" "sized (st\<lparr>is_seen := n\<rparr>) = sized st"
  by (simp_all add: sized_def)

lemma ArrayBatchLoop_sized:
  "ArrayBatchLoop cfg sv rows chunk row retry st = (s, k, rt, st') \<Longrightarrow> sized st \<Longrightarrow> sized st'"
proof (induction "length rows - row" arbitrary: row retry st rule: less_induct)
  case less
  define n where "n = min (length rows - row) chunk"
  define rs where "rs = take n (drop row rows)"
  obtain ok d1 where 1: "sv_paramset sv n (is_d st) = (ok, d1)" by fastforce
  obtain s1 d2 where 2: "sv_bind_columns sv rs d1 = (s1, d2)" by fastforce
  obtain rp0 d3 where 3: "sv_array sv rs d2 = (rp0, d3)" by fastforce
  note step = ArrayBatchLoop_step [OF n_def rs_def 1 2 3 refl refl refl refl refl, where retry = retry]
  have "sized st'" if "ArrayBatchLoop cfg sv rows chunk (row + m) rt0 st0 = (s, k, rt, st')" "sized st0" "0 < m" "2 \<le> n"
    for m rt0 st0
    using that by (intro less.hyps [of "row + m" rt0 st0]) (auto simp: n_def)
  then show ?case
    using less.prems unfolding step by (auto split: if_splits execute_return.splits)
qed

lemma ExecuteEachRow_sized: "ExecuteEachRow cfg sv mark rs st = (s, st') \<Longrightarrow> sized st \<Longrightarrow> sized st'"
proof (induction cfg sv mark rs st rule: ExecuteEachRow.induct)
  case (2 cfg sv mark r rs st)
  obtain e st1 where e: "BindAndExecuteRow cfg sv r st = (e, st1)" by fastforce
  have "sized st1" using e "2.prems"(2) by (auto simp: BindAndExecuteRow_def Let_def split: prod.splits if_splits)
  then show ?case using 2 e by (auto simp: Let_def split: if_splits)
qed simp

lemma PrepareStage_sized: "sized st \<Longrightarrow> sized (PrepareStage cfg sv rows st)"
proof -
  assume st: "sized st"
  obtain undef :: "'b table" where True by blast
  note silent = silent_nothing [of sv undef]
  define a where "a = (if multirow_first cfg \<and> \<not> mr_ready st \<and> length rows > 1 then MultiRowSetup cfg sv st else st)"
  define b where "b = (if ai_enabled cfg \<and> \<not> ai_ready a \<and> length rows > 1 then ArrayIngestSetup cfg sv a else a)"
  have "sized b"
    using st prepares_sized [OF MultiRowSetup_prepares [OF silent]] prepares_sized [OF ArrayIngestSetup_prepares [OF silent]]
    by (auto simp: a_def b_def)
  then show ?thesis unfolding PrepareStage_def Let_def a_def [symmetric] b_def [symmetric] by simp
qed

lemma ArrayStage_returns:
  assumes "sized st"
  shows "\<exists>s row st'. ArrayStage cfg sv rows st = Some (s, row, st') \<and> sized st'"
proof (cases "ai_active st \<and> length rows > 1")
  case True
  then have "ArrayIngestExecuteBatch cfg sv rows (\<not> is_applied st) st \<noteq> None"
    unfolding ArrayIngestExecuteBatch_def using assms by (intro ArrayIngestLoop_returns) (auto simp: sized_def)
  then obtain s k fell st1 where x: "ArrayIngestExecuteBatch cfg sv rows (\<not> is_applied st) st = Some (s, k, fell, st1)" by auto
  then have "sized st1" using ArrayIngestLoop_sized [OF _ assms] unfolding ArrayIngestExecuteBatch_def by metis
  with True x show ?thesis by (simp add: ArrayStage_def)
next
  case False
  with assms show ?thesis unfolding ArrayStage_def by auto
qed

lemma MultiRowExecuteBatch_returns:
  assumes "sized st" "mr_active st"
  shows "\<exists>s row fell st'. MultiRowExecuteBatch cfg sv rows virgin st = Some (s, row, fell, st') \<and> sized st'"
proof -
  obtain undef :: "'b table" where True by blast
  have two: "2 \<le> mr_rows st" using assms by (simp add: sized_def)
  have "MultiRowLoop (Suc (length rows + mr_rows st)) cfg sv rows virgin 0 st \<noteq> None"
    using two by (intro MultiRowLoop_returns [OF silent_nothing [of sv undef]]) (auto dest: MultiRowExecGroup_fields)
  then show ?thesis
    using MultiRowLoop_sized [OF _ assms(1) two] unfolding MultiRowExecuteBatch_def by fastforce
qed

lemma MultiRowStage_returns:
  assumes "sized st"
  shows "\<exists>s' row' st'. MultiRowStage cfg sv rows (s, row, st) = Some (s', row', st') \<and> sized st'"
  using MultiRowExecuteBatch_returns [OF assms, of cfg sv rows "\<not> is_applied st"] assms
  by (fastforce simp: MultiRowStage_def)

lemma ParamArrayStage_sized:
  "ParamArrayStage cfg sv rows (s, row, st) = (s', row', retry, st') \<Longrightarrow> sized st \<Longrightarrow> sized st'"
  by (auto simp: ParamArrayStage_def ExecuteBatchArray_def Let_def dest: ArrayBatchLoop_sized split: if_splits prod.splits)

lemma MultiRowRest_returns:
  assumes "sized st"
  shows "\<exists>s' row' retry' st'. MultiRowRest cfg sv rows (s, row, retry, st) = Some (s', row', retry', st') \<and> sized st'"
proof -
  obtain undef :: "'b table" where True by blast
  define st1 where "st1 = (if mr_enabled cfg \<and> \<not> mr_ready st \<and> length rows - row > 1 \<and> s = ADBC_STATUS_OK then MultiRowSetup cfg sv st else st)"
  have "sized st1" using assms prepares_sized [OF MultiRowSetup_prepares [OF silent_nothing [of sv undef]]] by (simp add: st1_def)
  then show ?thesis
    using MultiRowExecuteBatch_returns [of st1 cfg sv "drop row rows" "\<not> is_applied st1 \<and> row = 0"]
    unfolding MultiRowRest_def case_prod_conv Let_def st1_def [symmetric] by fastforce
qed

lemma RowStage_sized: "RowStage cfg sv rows (s, row, retry, st) = (s', st') \<Longrightarrow> sized st \<Longrightarrow> sized st'"
  by (auto simp: RowStage_def Let_def dest!: ExecuteEachRow_sized split: if_splits prod.splits)

lemma ExecuteBatch_returns: "sized st \<Longrightarrow> \<exists>s st'. ExecuteBatch cfg sv rows st = Some (s, st') \<and> sized st'"
proof -
  assume "sized st"
  then obtain s row st1 where 1: "ArrayStage cfg sv rows (PrepareStage cfg sv rows st) = Some (s, row, st1)" "sized st1"
    using ArrayStage_returns PrepareStage_sized by metis
  obtain s2 row2 st2 where 2: "MultiRowStage cfg sv rows (s, row, st1) = Some (s2, row2, st2)" "sized st2"
    using MultiRowStage_returns [OF 1(2)] by metis
  obtain s3 row3 retry st3 where 3: "ParamArrayStage cfg sv rows (s2, row2, st2) = (s3, row3, retry, st3)"
    by (cases "ParamArrayStage cfg sv rows (s2, row2, st2)")
  obtain s4 row4 retry4 st4 where 4: "MultiRowRest cfg sv rows (s3, row3, retry, st3) = Some (s4, row4, retry4, st4)" "sized st4"
    using MultiRowRest_returns [OF ParamArrayStage_sized [OF 3 2(2)]] by metis
  obtain s5 st5 where 5: "RowStage cfg sv rows (s4, row4, retry4, st4) = (s5, st5)" by fastforce
  show ?thesis using 1 2 3 4 5 RowStage_sized [OF 5 4(2)] by (simp add: ExecuteBatch_def)
qed

lemma ExecuteStream_returns: "sized st \<Longrightarrow> ExecuteStream cfg sv items st \<noteq> None"
proof (induction cfg sv items st rule: ExecuteStream.induct)
  case (2 cfg sv rows items st)
  obtain s st1 where 1: "ExecuteBatch cfg sv rows st = Some (s, st1)" "sized st1" using ExecuteBatch_returns [OF 2(2)] by metis
  with 2(1) [OF 1(1) refl _ 1(2)] show ?case by (simp del: not_None_eq)
qed simp_all

text \<open>
  C20. Executing a bound stream comes to an end on any server: groups are halved, columns shortened and
  batches sent again only while that leaves less to do.
\<close>

theorem ExecuteRows_returns: "ExecuteRows cfg sv items mem d \<noteq> None"
proof -
  have "sized (ExecuteRowsInit cfg mem d)" by (simp add: ExecuteRowsInit_def sized_def)
  then obtain s st where "ExecuteStream cfg sv items (ExecuteRowsInit cfg mem d) = Some (s, st)"
    using ExecuteStream_returns by fastforce
  then show ?thesis by (simp add: ExecuteRows_def Let_def split_beta)
qed

section \<open>Runs\<close>

lemmas run_defs = ExecuteRows_def ExecuteRowsInit_def ExecuteBatch_def PrepareStage_def ArrayStage_def MultiRowStage_def
  ParamArrayStage_def MultiRowRest_def RowStage_def BindAndExecuteRow_def OdbcAutoTxnBegin_def OdbcAutoTxnEnd_def
  multirow_first_def mr_enabled_def ai_enabled_def group_params_def ci_ncols_def text_rows_def demo_config_def demo_server_def
  demo_memory_def demo_start_def demo_insert_def insert_rows_def

lemmas array_run_defs = ExecuteBatchArray_def ArrayChunkRows_def ArrayBatchLoop.simps written_status_def demo_array_def
  sets_done_def sets_counted_def sets_applied_def unknown_landed_def set_applied_def set_retried_def ArrayParamsRowCount_def
  ARRAY_BIND_MAX_CHUNK_BYTES_def ARRAY_BIND_MAX_CHUNK_ROWS_def

lemma demo_array_run:
  "ExecuteRows (demo_config None True False) (demo_server (\<lambda>_. False) (\<lambda>x. x = CText ''c''))
      [text_rows [''a''], text_rows [''b'', ''c'', ''d'']] demo_memory demo_start
   = Some (ADBC_STATUS_OK, Some 4,
       \<lparr>db_table = \<lparr>tb_committed = [[CText ''a''], [CText ''b''], [CText ''d''], [CText ''c'']], tb_pending = [], tb_auto = True\<rparr>,
        db_count = 1\<rparr>)"
  by (simp add: run_defs array_run_defs Let_def upt_rec [of 0] upt_rec [of "Suc 0"])

text \<open>Multi-row statements, the groups of two that are asked for; a refused row sends the batch again, row by row.\<close>

lemma demo_fails_run:
  "ExecuteRows (demo_config None False False) (demo_server (\<lambda>x. x = CText ''c'') (\<lambda>_. False))
      [text_rows [''a''], text_rows [''b'', ''c'']] demo_memory demo_start
   = Some (ADBC_STATUS_IO, None,
       \<lparr>db_table = \<lparr>tb_committed = [[CText ''a'']], tb_pending = [], tb_auto = True\<rparr>, db_count = 1\<rparr>)"
  by (simp add: run_defs Let_def upt_rec [of 0] upt_rec [of "Suc 0"])

lemmas literal_run_defs = ArrayIngestSetup_def ArrayIngestVerify_def ArrayIngestSql_def ArrayIngestElemType_def
  ArrayIngestExecuteBatch_def ArrayIngestRender.simps ArrayIngestColumns_def ArrayIngestFillColumn_def ArrayIngestElem_def
  ADBC_ODBC_ARRAY_INGEST_MAX_BYTES_def ArrayIngestAppendQuoted_def demo_unnest_def demo_element_def read_array_def
  read_element_def

lemmas group_run_defs = MultiRowSetup_def MultiRowFindForm_def MultiRowProbe_def MultiRowPrepareForm_def union_offered_def
  MultiRowGroupCount_def MultiRowSqlMax_def ADBC_ODBC_MULTIROW_MAX_PARAMS_def ADBC_ODBC_MULTIROW_MAX_ROWS_def
  ADBC_ODBC_MULTIROW_MAX_SQL_BYTES_def ADBC_ODBC_MULTIROW_MAX_SLOT_BYTES_def MultiRowStart_def MultiRowHalve.simps
  MultiRowPrepare_def MultiRowExecuteBatch_def MultiRowGroupFor_def MultiRowExecGroup_def RestartTxn_def MultiRowNarrow_def

lemma demo_group_run:
  "ExecuteRows (demo_config (Some ''t'') False False) (demo_server (\<lambda>_. False) (\<lambda>_. False))
      [text_rows [''a'', ''b'', ''c'']] demo_memory demo_start
   = Some (ADBC_STATUS_OK, Some 3,
       \<lparr>db_table = \<lparr>tb_committed = [[CText ''a''], [CText ''b''], [CText ''c'']], tb_pending = [], tb_auto = True\<rparr>,
        db_count = 1\<rparr>)"
  by (simp add: run_defs group_run_defs Let_def signed_divide_int_def upt_rec [of 0] upt_rec [of "Suc 0"] numeral_2_eq_2)


lemma demo_literal_run:
  "ExecuteRows (demo_config (Some ''t'') False True) (demo_server (\<lambda>_. False) (\<lambda>_. False))
      [text_rows [''a'', ''b'', ''c'']] demo_memory demo_start
   = Some (ADBC_STATUS_OK, Some 3,
       \<lparr>db_table = \<lparr>tb_committed = [[CText ''a''], [CText ''b''], [CText ''c'']], tb_pending = [], tb_auto = True\<rparr>,
        db_count = 1\<rparr>)"
  by (simp add: run_defs group_run_defs literal_run_defs Let_def signed_divide_int_def upt_rec [of 0] upt_rec [of "Suc 0"] numeral_2_eq_2
     plain_word_def plain_char_def)




text \<open>
  A driver that fills the status array and leaves the counter of processed sets alone: when one set is
  refused the leading rows taken as done are as many as were applied, and what follows them runs again.
\<close>

definition uncounted :: "(demo_db, unit) insert_server \<Rightarrow> (demo_db, unit) insert_server" where
  "uncounted sv = sv\<lparr>sv_array := \<lambda>rs d. (case sv_array sv rs d of (rp, d') \<Rightarrow> (rp\<lparr>ar_processed := 0\<rparr>, d'))\<rparr>"

theorem uncounted_sets_inserted_twice:
  "ExecuteRows (demo_config None True False) (uncounted (demo_server (\<lambda>_. False) (\<lambda>x. x = CText ''c'')))
      [text_rows [''b'', ''c'', ''d'']] demo_memory demo_start
   = Some (ADBC_STATUS_OK, Some 4,
       \<lparr>db_table = \<lparr>tb_committed = [[CText ''b''], [CText ''d''], [CText ''d''], [CText ''c'']], tb_pending = [], tb_auto = True\<rparr>,
        db_count = 1\<rparr>)"
  by (simp add: uncounted_def run_defs array_run_defs Let_def upt_rec [of 0] upt_rec [of "Suc 0"])

section \<open>The statements\<close>

lemma concat_length_le: "(\<And>x. x \<in> set xs \<Longrightarrow> length (f x) \<le> m) \<Longrightarrow> length (concat (map f xs)) \<le> length xs * m"
  by (induction xs) (fastforce simp: add_mono)+

lemma concat_length_sum: "length (concat (map f xs)) = sum_list (map (\<lambda>x. length (f x)) xs)"
  by (simp add: length_concat comp_def)

text \<open>An upper bound of the statement, from the estimate of one row-group.\<close>

definition group_bytes :: "nat \<Rightarrow> OdbcMultiRowForm \<Rightarrow> string list \<Rightarrow> string \<Rightarrow> string \<Rightarrow> nat" where
  "group_bytes ncols form casts into from =
     (case form of
        ODBC_MULTIROW_INSERT_ALL \<Rightarrow> ncols * 3 + 4 + (length into + 20)
      | ODBC_MULTIROW_UNION \<Rightarrow> length from + 24 + sum_list (map (\<lambda>c. length (casts ! c) + 14) [0..<ncols])
      | ODBC_MULTIROW_VALUES \<Rightarrow> ncols * 3 + 4)"

lemma MultiRowSql_length:
  "length (MultiRowSql into ncols rows form casts from) \<le> rows * group_bytes ncols form casts into from + length into + 29"
proof -
  define opened where "opened r = (case form of ODBC_MULTIROW_INSERT_ALL \<Rightarrow> '' INTO '' @ into @ '' VALUES (''
      | ODBC_MULTIROW_UNION \<Rightarrow> if r > 0 then '' UNION ALL SELECT '' else ''SELECT ''
      | ODBC_MULTIROW_VALUES \<Rightarrow> if r > (0::nat) then '', ('' else ''('')" for r
  define param where "param c = (case form of
      ODBC_MULTIROW_UNION \<Rightarrow> (if c > 0 then '', '' else []) @ ''CAST(? AS '' @ casts ! c @ '')''
      | _ \<Rightarrow> if c > (0::nat) then '', ?'' else ''?'')" for c
  define closed where "closed = (case form of ODBC_MULTIROW_UNION \<Rightarrow> '' FROM '' @ from | _ \<Rightarrow> '')'')"
  let ?params = "concat (map param [0..<ncols])"
  have p: "length ?params \<le> (case form of ODBC_MULTIROW_UNION \<Rightarrow> sum_list (map (\<lambda>c. length (casts ! c) + 14) [0..<ncols]) | _ \<Rightarrow> ncols * 3)"
  proof (cases "form = ODBC_MULTIROW_UNION")
    case True
    then show ?thesis by (auto simp: concat_length_sum param_def intro!: sum_list_mono)
  next
    case False
    then have "length (param c) \<le> 3" for c by (cases form) (auto simp: param_def)
    then have "length ?params \<le> length [0..<ncols] * 3" by (intro concat_length_le)
    with False show ?thesis by (cases form) auto
  qed
  have "length (opened r @ ?params @ closed) \<le> group_bytes ncols form casts into from" for r
    using p by (cases form) (auto simp: opened_def closed_def group_bytes_def)
  then have "length (concat (map (\<lambda>r. opened r @ ?params @ closed) [0..<rows])) \<le> length [0..<rows] * group_bytes ncols form casts into from"
    by (intro concat_length_le)
  then show ?thesis
    unfolding MultiRowSql_def Let_def opened_def [symmetric] param_def [symmetric] closed_def [symmetric]
    by (cases form) auto
qed


lemma sdiv_times_le: "0 < (b::int) \<Longrightarrow> 0 < a sdiv b \<Longrightarrow> (a sdiv b) * b \<le> a"
proof -
  assume b: "0 < b" and q: "0 < a sdiv b"
  have "0 < a"
  proof (rule ccontr)
    assume "\<not> 0 < a"
    then have "0 \<le> (- a) div b" using b by (simp add: pos_imp_zdiv_nonneg_iff)
    with q b \<open>\<not> 0 < a\<close> show False by (auto simp: signed_divide_int_def sgn_if split: if_splits)
  qed
  with b have "a sdiv b = a div b" by (simp add: signed_divide_int_def)
  moreover have "0 \<le> a mod b" using b by simp
  ultimately show ?thesis by (simp add: minus_mod_eq_div_mult [symmetric])
qed

lemma int_sum_list: "int (sum_list (map f xs)) = sum_list (map (\<lambda>x. int (f x)) xs)"
  by (induction xs) simp_all

text \<open>Each cap of \<open>MultiRowGroupCount\<close> holds at the end.\<close>

lemma MultiRowGroupCount_caps:
  fixes cfg :: "'f insert_config"
  defines "n \<equiv> int (ci_ncols cfg)" and "into \<equiv> (case ci_ingest_into cfg of None \<Rightarrow> [] | Some s \<Rightarrow> s)"
    and "from \<equiv> (case ci_multirow_union_from cfg of None \<Rightarrow> [] | Some s \<Rightarrow> s)"
  shows "MultiRowGroupCount cfg form casts m \<le> 1000"
    "m > 0 \<Longrightarrow> MultiRowGroupCount cfg form casts m \<le> int m sdiv n"
    "ci_max_statement_params cfg > 0 \<Longrightarrow> MultiRowGroupCount cfg form casts m \<le> ci_max_statement_params cfg sdiv n"
    "MultiRowGroupCount cfg form casts m
       \<le> (MultiRowSqlMax cfg - int (length into) - 64) sdiv int (group_bytes (ci_ncols cfg) form casts into from)"
    "MultiRowGroupCount cfg form casts m
       \<le> ADBC_ODBC_MULTIROW_MAX_SLOT_BYTES sdiv (if int (ci_slot_bytes cfg) * n > 0 then int (ci_slot_bytes cfg) * n else 1)"
    "ci_rows_per_insert cfg > 0 \<Longrightarrow> MultiRowGroupCount cfg form casts m \<le> ci_rows_per_insert cfg"
proof -
  have g: "(case form of
              ODBC_MULTIROW_INSERT_ALL \<Rightarrow> n * 3 + 4 + (int (length into) + 20)
            | ODBC_MULTIROW_UNION \<Rightarrow> int (length from) + 24 + sum_list (map (\<lambda>c. int (length (casts ! c)) + 14) [0..<ci_ncols cfg])
            | ODBC_MULTIROW_VALUES \<Rightarrow> n * 3 + 4) = int (group_bytes (ci_ncols cfg) form casts into from)"
    by (cases form) (simp_all add: group_bytes_def n_def int_sum_list comp_def)
  note d = MultiRowGroupCount_def [of cfg form casts m, folded n_def into_def from_def, unfolded Let_def g]
  show "MultiRowGroupCount cfg form casts m \<le> 1000"
    "m > 0 \<Longrightarrow> MultiRowGroupCount cfg form casts m \<le> int m sdiv n"
    "ci_max_statement_params cfg > 0 \<Longrightarrow> MultiRowGroupCount cfg form casts m \<le> ci_max_statement_params cfg sdiv n"
    "MultiRowGroupCount cfg form casts m
       \<le> (MultiRowSqlMax cfg - int (length into) - 64) sdiv int (group_bytes (ci_ncols cfg) form casts into from)"
    "MultiRowGroupCount cfg form casts m
       \<le> ADBC_ODBC_MULTIROW_MAX_SLOT_BYTES sdiv (if int (ci_slot_bytes cfg) * n > 0 then int (ci_slot_bytes cfg) * n else 1)"
    "ci_rows_per_insert cfg > 0 \<Longrightarrow> MultiRowGroupCount cfg form casts m \<le> ci_rows_per_insert cfg"
    unfolding d ADBC_ODBC_MULTIROW_MAX_ROWS_def by (auto split: if_splits)
qed


lemma sdiv_cap:
  assumes "0 < (n::int)" "r \<le> k" "k \<le> m sdiv n" "2 \<le> k" "0 \<le> r"
  shows "r * n \<le> m"
proof -
  have "r * n \<le> (m sdiv n) * n" using assms(1-3) by (simp add: mult_right_mono)
  also have "\<dots> \<le> m" using assms by (intro sdiv_times_le) auto
  finally show ?thesis .
qed

lemma group_bytes_pos: "0 < group_bytes n form casts into from"
  by (cases form) (simp_all add: group_bytes_def)

text \<open>
  C15. A statement for as many row-groups as \<open>MultiRowGroupCount\<close> allows, or fewer, keeps within every limit
  the code read from the server or set itself: the length of the statement, the parameters of a
  statement, those an earlier narrowing left, the rows of a group, and the bytes of its slots.
\<close>

theorem MultiRowSql_fits:
  assumes "k = MultiRowGroupCount cfg form casts m" "2 \<le> k" "int r \<le> k" "0 < ci_ncols cfg"
  shows "int (length (MultiRowSql (case ci_ingest_into cfg of None \<Rightarrow> [] | Some s \<Rightarrow> s) (ci_ncols cfg) r form casts
                        (case ci_multirow_union_from cfg of None \<Rightarrow> [] | Some s \<Rightarrow> s))) < MultiRowSqlMax cfg
       \<and> r \<le> 1000
       \<and> (ci_max_statement_params cfg > 0 \<longrightarrow> int (r * ci_ncols cfg) \<le> ci_max_statement_params cfg)
       \<and> (m > 0 \<longrightarrow> r * ci_ncols cfg \<le> m)
       \<and> int (r * ci_ncols cfg * ci_slot_bytes cfg) \<le> ADBC_ODBC_MULTIROW_MAX_SLOT_BYTES"
proof -
  define into where "into = (case ci_ingest_into cfg of None \<Rightarrow> [] | Some s \<Rightarrow> s)"
  define src where "src = (case ci_multirow_union_from cfg of None \<Rightarrow> [] | Some s \<Rightarrow> s)"
  define per where "per = group_bytes (ci_ncols cfg) form casts into src"
  note caps = MultiRowGroupCount_caps [where cfg = cfg and form = form and casts = casts and m = m, folded assms(1)]
  have n: "0 < int (ci_ncols cfg)" using assms(4) by simp
  have sql: "int r * int per \<le> MultiRowSqlMax cfg - int (length into) - 64"
    using sdiv_cap [of "int per" "int r" k] caps(4) assms(2,3) group_bytes_pos [of "ci_ncols cfg" form casts into src]
    by (simp add: per_def into_def src_def)
  have len: "length (MultiRowSql into (ci_ncols cfg) r form casts src) \<le> r * per + length into + 29"
    unfolding per_def by (rule MultiRowSql_length)
  have "int (length (MultiRowSql into (ci_ncols cfg) r form casts src)) \<le> int (r * per + length into + 29)"
    using len by (rule of_nat_mono)
  also have "\<dots> < MultiRowSqlMax cfg" using sql by simp
  finally have 1: "int (length (MultiRowSql into (ci_ncols cfg) r form casts src)) < MultiRowSqlMax cfg" .
  have 2: "r \<le> 1000" using caps(1) assms(3) by simp
  have 3: "int (r * ci_ncols cfg) \<le> ci_max_statement_params cfg" if "ci_max_statement_params cfg > 0"
    using sdiv_cap [OF n assms(3) caps(3) [OF that] assms(2)] by simp
  have 4: "r * ci_ncols cfg \<le> m" if "m > 0"
    using sdiv_cap [OF n assms(3) caps(2) [OF that] assms(2)] by (metis of_nat_0_le_iff of_nat_le_iff of_nat_mult)
  have 5: "int (r * ci_ncols cfg * ci_slot_bytes cfg) \<le> ADBC_ODBC_MULTIROW_MAX_SLOT_BYTES"
  proof (cases "int (ci_slot_bytes cfg) * int (ci_ncols cfg) > 0")
    case True
    from sdiv_cap [OF this assms(3) _ assms(2)] caps(5) True show ?thesis by (simp add: mult.commute mult.left_commute)
  next
    case False
    then have "ci_slot_bytes cfg = 0" using assms(4) by (auto simp: zero_less_mult_iff)
    then show ?thesis by (simp add: ADBC_ODBC_MULTIROW_MAX_SLOT_BYTES_def)
  qed
  from 1 2 3 4 5 show ?thesis unfolding into_def src_def by blast
qed

theorem MultiRowSql_fits_witness:
  "int (length (MultiRowSql ''t'' 1 2 ODBC_MULTIROW_VALUES [] [])) < 1048576 \<and> int (2 * 1 * 64) \<le> ADBC_ODBC_MULTIROW_MAX_SLOT_BYTES"
proof -
  have "MultiRowGroupCount (demo_config (Some ''t'') False False) ODBC_MULTIROW_VALUES [] 0 = 2"
    by (simp add: group_run_defs ci_ncols_def demo_config_def Let_def signed_divide_int_def)
  from MultiRowSql_fits [OF this [symmetric], of 2] show ?thesis
    by (simp add: MultiRowSqlMax_def ADBC_ODBC_MULTIROW_MAX_SQL_BYTES_def)
qed

lemma count_concat: "count_list (concat (map f xs)) y = sum_list (map (\<lambda>x. count_list (f x) y) xs)"
  by (induction xs) simp_all

lemma group_params_length: "length (group_params n rs) = length rs * n"
  by (induction rs) (simp_all add: group_params_def)

text \<open>
  C40. The statement has one parameter marker for each value of the rows it is bound to, when the names
  spliced into it have none of their own.
\<close>

theorem MultiRowSql_markers:
  assumes "CHR ''?'' \<notin> set into" "CHR ''?'' \<notin> set from" "\<forall>c < n. CHR ''?'' \<notin> set (casts ! c)"
  shows "count_list (MultiRowSql into n (length rs) form casts from) CHR ''?'' = length (group_params n rs)"
proof -
  define opened where "opened r = (case form of ODBC_MULTIROW_INSERT_ALL \<Rightarrow> '' INTO '' @ into @ '' VALUES (''
      | ODBC_MULTIROW_UNION \<Rightarrow> if r > 0 then '' UNION ALL SELECT '' else ''SELECT ''
      | ODBC_MULTIROW_VALUES \<Rightarrow> if r > (0::nat) then '', ('' else ''('')" for r
  define param where "param c = (case form of
      ODBC_MULTIROW_UNION \<Rightarrow> (if c > 0 then '', '' else []) @ ''CAST(? AS '' @ casts ! c @ '')''
      | _ \<Rightarrow> if c > (0::nat) then '', ?'' else ''?'')" for c
  define closed where "closed = (case form of ODBC_MULTIROW_UNION \<Rightarrow> '' FROM '' @ from | _ \<Rightarrow> '')'')"
  have none: "count_list into CHR ''?'' = 0" "count_list from CHR ''?'' = 0" "c < n \<Longrightarrow> count_list (casts ! c) CHR ''?'' = 0" for c
    using assms by (simp_all add: count_list_0_iff)
  have p: "count_list (param c) CHR ''?'' = 1" if "c < n" for c
    using none(3) [OF that] by (cases form) (simp_all add: param_def)
  have "sum_list (map (\<lambda>c. count_list (param c) CHR ''?'') [0..<n]) = sum_list (map (\<lambda>_. 1) [0..<n])"
    by (rule arg_cong [of _ _ sum_list], rule map_cong) (simp_all add: p)
  then have params: "count_list (concat (map param [0..<n])) CHR ''?'' = n" by (simp add: count_concat sum_list_triv)
  have "count_list (opened r) CHR ''?'' = 0" for r using none(1) by (cases form) (simp_all add: opened_def)
  moreover have "count_list closed CHR ''?'' = 0" using none(2) by (cases form) (simp_all add: closed_def)
  ultimately have "count_list (concat (map (\<lambda>r. opened r @ concat (map param [0..<n]) @ closed) [0..<length rs])) CHR ''?'' = length rs * n"
    using params by (simp add: count_concat sum_list_triv)
  then show ?thesis
    unfolding MultiRowSql_def Let_def opened_def [symmetric] param_def [symmetric] closed_def [symmetric] group_params_length
    using none(1) by (cases form) simp_all
qed

theorem MultiRowSql_markers_witness:
  "count_list (MultiRowSql ''t'' 2 (length [[CNull, CText ''x''], [CText ''y'', CNull :: unit cell]]) ODBC_MULTIROW_VALUES [] []) CHR ''?'' = 4"
  using MultiRowSql_markers [of "''t''" "[]" 2 "[[], []]" "[[CNull, CText ''x''], [CText ''y'', CNull :: unit cell]]" ODBC_MULTIROW_VALUES]
  by (simp add: group_params_def upt_rec [of 0] upt_rec [of "Suc 0"] less_2_cases_iff) (simp add: MultiRowSql_def)

end
