(* ===== verification/BoundReader.thy ===== *)
theory BoundReader
  imports BulkIngest
begin

text \<open>
  The result stream of a query with bound parameters, \<^verbatim>\<open>struct BoundReader\<close> of \<^verbatim>\<open>src/odbc_bind.c\<close>: one
  execute per parameter row, the result sets concatenated into one Arrow stream, each row executed
  only when the caller has finished with the results of the rows before it.

  The statement handle below it is a parameter, \<open>reader_host\<close>: executing a row
  (\<open>BindAndExecuteRow\<close>), opening, reading and releasing a reader over the result set
  (\<open>OdbcReaderInit\<close> and the stream it makes), and the reference to the handle that the bound reader
  holds.  \<open>cursor_host\<close> is the handle of a server that answers each row as it likes, with the result set
  fixed when the row is executed.  Rows are cells as in \<^theory_text>\<open>BulkIngest\<close>.  Allocation succeeds.
\<close>

section \<open>The handle below\<close>

datatype errno = ESUCCESS | EIO | ENOTSUP | ENOENT | EEXIST | EINVAL | ECANCELED | ETIMEDOUT | EACCES

fun InternalAdbcStatusCodeToErrno :: "status \<Rightarrow> errno" where
  "InternalAdbcStatusCodeToErrno ADBC_STATUS_OK = ESUCCESS"
| "InternalAdbcStatusCodeToErrno ADBC_STATUS_UNKNOWN = EIO"
| "InternalAdbcStatusCodeToErrno ADBC_STATUS_NOT_IMPLEMENTED = ENOTSUP"
| "InternalAdbcStatusCodeToErrno ADBC_STATUS_NOT_FOUND = ENOENT"
| "InternalAdbcStatusCodeToErrno ADBC_STATUS_ALREADY_EXISTS = EEXIST"
| "InternalAdbcStatusCodeToErrno ADBC_STATUS_INVALID_ARGUMENT = EINVAL"
| "InternalAdbcStatusCodeToErrno ADBC_STATUS_INVALID_STATE = EINVAL"
| "InternalAdbcStatusCodeToErrno ADBC_STATUS_INVALID_DATA = EIO"
| "InternalAdbcStatusCodeToErrno ADBC_STATUS_INTEGRITY = EIO"
| "InternalAdbcStatusCodeToErrno ADBC_STATUS_INTERNAL = EIO"
| "InternalAdbcStatusCodeToErrno ADBC_STATUS_IO = EIO"
| "InternalAdbcStatusCodeToErrno ADBC_STATUS_CANCELLED = ECANCELED"
| "InternalAdbcStatusCodeToErrno ADBC_STATUS_TIMEOUT = ETIMEDOUT"
| "InternalAdbcStatusCodeToErrno ADBC_STATUS_UNAUTHENTICATED = EACCES"
| "InternalAdbcStatusCodeToErrno ADBC_STATUS_UNAUTHORIZED = EACCES"

text \<open>A result schema: the name and the format string of each child, the latter possibly NULL.\<close>

type_synonym result_schema = "(string \<times> string option) list"

text \<open>The outcome of \<^verbatim>\<open>get_next\<close>: a batch, the end of the stream, or an error number.\<close>

datatype 'b pull = Pulled 'b | Drained | PullFails errno

record ('f, 'b, 'w) reader_host =
  rh_execute :: "'f cell list \<Rightarrow> 'w \<Rightarrow> status \<times> nat \<times> 'w"
  rh_row_count :: "'w \<Rightarrow> int option"
  rh_open :: "'w \<Rightarrow> status \<times> 'w"
  rh_schema :: "'w \<Rightarrow> result_schema option \<times> 'w"
  rh_pull :: "'w \<Rightarrow> 'b pull \<times> 'w"
  rh_close :: "'w \<Rightarrow> 'w"
  rh_acquire :: "'w \<Rightarrow> 'w"
  rh_reset :: "'w \<Rightarrow> 'w"

text \<open>
  \<open>br_inner\<close>: \<^verbatim>\<open>inner.release\<close> is set, a reader over a result set is open.  \<open>br_batch\<close> is \<^const>\<open>None\<close>
  when \<^verbatim>\<open>batch.release\<close> is NULL.
\<close>

record 'f bound_reader =
  br_params :: "'f stream_item list"
  br_batch :: "'f cell list list option"
  br_row :: nat
  br_params_done :: bool
  br_schema :: "result_schema option"
  br_inner :: bool
  br_done :: bool

section \<open>Executing rows\<close>

definition ResultSchemaMatches :: "result_schema \<Rightarrow> result_schema \<Rightarrow> bool" where
  "ResultSchemaMatches a b \<longleftrightarrow>
     length a = length b \<and> list_all2 (\<lambda>x y. snd x \<noteq> None \<and> snd y \<noteq> None \<and> snd x = snd y) a b"

text \<open>The loop that looks for the next parameter row; the second component is \<^verbatim>\<open>*exhausted\<close>.\<close>

fun NextBatch :: "'f stream_item list \<Rightarrow> 'f bound_reader \<Rightarrow> status \<times> bool \<times> 'f bound_reader" where
  "NextBatch [] r = (ADBC_STATUS_OK, True, r\<lparr>br_params := [], br_batch := None, br_params_done := True\<rparr>)"
| "NextBatch (Batch rows # items) r =
     (if rows \<noteq> [] then (ADBC_STATUS_OK, False, r\<lparr>br_params := items, br_batch := Some rows, br_row := 0\<rparr>)
      else NextBatch items r)"
| "NextBatch (item # items) r = (ADBC_STATUS_INVALID_ARGUMENT, False, r\<lparr>br_params := items, br_batch := None\<rparr>)"

definition batch_rows :: "'f bound_reader \<Rightarrow> 'f cell list list" where
  "batch_rows r = (case br_batch r of None \<Rightarrow> [] | Some rows \<Rightarrow> drop (br_row r) rows)"

definition SeekRow :: "'f bound_reader \<Rightarrow> status \<times> bool \<times> 'f bound_reader" where
  "SeekRow r =
     (if batch_rows r \<noteq> [] then (ADBC_STATUS_OK, False, r)
      else if br_params_done r then (ADBC_STATUS_OK, True, r\<lparr>br_batch := None\<rparr>)
      else NextBatch (br_params r) (r\<lparr>br_batch := None\<rparr>))"

definition BoundReaderExecuteNextRow ::
  "('f, 'b, 'w) reader_host \<Rightarrow> 'f bound_reader \<Rightarrow> 'w \<Rightarrow> status \<times> bool \<times> nat \<times> 'f bound_reader \<times> 'w" where
  "BoundReaderExecuteNextRow h r w =
     (case SeekRow r of (s, exhausted, r) \<Rightarrow>
        if s \<noteq> ADBC_STATUS_OK \<or> exhausted then (s, exhausted, 0, r, w)
        else case rh_execute h (hd (batch_rows r)) w of (s, nres, w) \<Rightarrow> (s, False, nres, r\<lparr>br_row := br_row r + 1\<rparr>, w))"

text \<open>The parameter rows not yet executed; every call uses one up or reports the end or an error.\<close>

fun item_rows :: "'f stream_item \<Rightarrow> nat" where
  "item_rows (Batch rows) = length rows"
| "item_rows GetNextFails = 0"
| "item_rows BadBatch = 0"

definition pending :: "'f bound_reader \<Rightarrow> nat" where
  "pending r = length (batch_rows r) + (if br_params_done r then 0 else sum_list (map item_rows (br_params r)))"

lemma NextBatch_pending:
  "NextBatch items r = (ADBC_STATUS_OK, False, r') \<Longrightarrow> \<not> br_params_done r
   \<Longrightarrow> batch_rows r' \<noteq> [] \<and> pending r' = sum_list (map item_rows items) \<and> \<not> br_params_done r'"
  by (induction items r rule: NextBatch.induct) (auto simp: pending_def batch_rows_def split: if_splits)

lemma SeekRow_pending:
  "SeekRow r = (ADBC_STATUS_OK, False, r') \<Longrightarrow> batch_rows r' \<noteq> [] \<and> pending r' = pending r"
  by (auto simp: SeekRow_def pending_def batch_rows_def dest!: NextBatch_pending split: if_splits)

lemma ExecuteNextRow_pending:
  assumes "BoundReaderExecuteNextRow h r w = (ADBC_STATUS_OK, False, n, r', w')"
  shows "pending r' < pending r"
proof -
  from assms obtain q where q: "SeekRow r = (ADBC_STATUS_OK, False, q)" "r' = q\<lparr>br_row := br_row q + 1\<rparr>"
    by (auto simp: BoundReaderExecuteNextRow_def split: prod.splits if_splits)
  from SeekRow_pending[OF q(1)] have "batch_rows q \<noteq> []" "pending q = pending r" by auto
  with q(2) show ?thesis
    by (auto simp: pending_def batch_rows_def split: option.splits)
qed

text \<open>A reader over the result set that \<open>ExecuteNextRow\<close> left on the handle, with its schema checked.\<close>

definition AcceptResult ::
  "('f, 'b, 'w) reader_host \<Rightarrow> 'f bound_reader \<Rightarrow> 'w \<Rightarrow> status \<times> 'f bound_reader \<times> 'w" where
  "AcceptResult h r w =
     (case rh_open h w of (s, w) \<Rightarrow>
        if s \<noteq> ADBC_STATUS_OK then (s, r, w)
        else case rh_schema h w of (sch, w) \<Rightarrow>
          let r = r\<lparr>br_inner := True\<rparr>
          in case (br_schema r, sch) of
               (_, None) \<Rightarrow> (ADBC_STATUS_INTERNAL, r, w)
             | (None, Some b) \<Rightarrow> (ADBC_STATUS_OK, r\<lparr>br_schema := Some b\<rparr>, w)
             | (Some a, Some b) \<Rightarrow> (if ResultSchemaMatches a b then ADBC_STATUS_OK else ADBC_STATUS_INVALID_STATE, r, w))"

function BoundReaderOpenNextResult ::
  "('f, 'b, 'w) reader_host \<Rightarrow> 'f bound_reader \<Rightarrow> 'w \<Rightarrow> status \<times> bool \<times> 'f bound_reader \<times> 'w" where
  "BoundReaderOpenNextResult h r w =
     (case BoundReaderExecuteNextRow h r w of (s, exhausted, nres, r', w') \<Rightarrow>
        if s \<noteq> ADBC_STATUS_OK \<or> exhausted then (s, exhausted, r', w')
        else if nres = 0 then BoundReaderOpenNextResult h r' w'
        else case AcceptResult h r' w' of (s, r, w) \<Rightarrow> (s, False, r, w))"
  by pat_completeness auto

termination
  by (relation "measure (\<lambda>(h, r, w). pending r)") (auto dest: ExecuteNextRow_pending[OF sym])

declare BoundReaderOpenNextResult.simps [simp del]

lemma AcceptResult_fields:
  "AcceptResult h r w = (s, r', w')
   \<Longrightarrow> pending r' = pending r \<and> br_done r' = br_done r \<and> br_params r' = br_params r \<and> batch_rows r' = batch_rows r
     \<and> br_params_done r' = br_params_done r"
  by (auto simp: AcceptResult_def pending_def batch_rows_def Let_def split: prod.splits option.splits if_splits)

lemma OpenNextResult_pending:
  "BoundReaderOpenNextResult h r w = (ADBC_STATUS_OK, False, r', w') \<Longrightarrow> pending r' < pending r"
proof (induction h r w rule: BoundReaderOpenNextResult.induct)
  case (1 h r w)
  obtain s e n r1 w1 where x: "BoundReaderExecuteNextRow h r w = (s, e, n, r1, w1)" by (cases "BoundReaderExecuteNextRow h r w")
  show ?case
  proof (cases "s \<noteq> ADBC_STATUS_OK \<or> e")
    case True
    then show ?thesis using "1.prems" x by (subst (asm) BoundReaderOpenNextResult.simps) auto
  next
    case False
    then have less: "pending r1 < pending r" using x ExecuteNextRow_pending[of h r w n r1 w1] by simp
    show ?thesis
    proof (cases "n = 0")
      case True
      then have "BoundReaderOpenNextResult h r1 w1 = (ADBC_STATUS_OK, False, r', w')"
        using "1.prems" x False by (subst (asm) BoundReaderOpenNextResult.simps) auto
      then show ?thesis using "1.IH"[OF x[symmetric] refl refl refl False True] less by simp
    next
      case pos: False
      then show ?thesis
        using "1.prems" x False less by (subst (asm) BoundReaderOpenNextResult.simps) (auto dest!: AcceptResult_fields split: prod.splits)
    qed
  qed
qed

section \<open>The stream\<close>

lemma pending_inner [simp]: "pending (r\<lparr>br_inner := b\<rparr>) = pending r"
  by (simp add: pending_def batch_rows_def split: option.splits)

function BoundReaderGetNextLoop :: "('f, 'b, 'w) reader_host \<Rightarrow> 'f bound_reader \<Rightarrow> 'w \<Rightarrow> 'b pull \<times> 'f bound_reader \<times> 'w" where
  "BoundReaderGetNextLoop h r w =
     (case (if br_inner r then rh_pull h w else (Drained, w)) of
        (Pulled b, w) \<Rightarrow> (Pulled b, r, w)
      | (PullFails e, w) \<Rightarrow> (PullFails e, r\<lparr>br_done := True\<rparr>, w)
      | (Drained, w1) \<Rightarrow>
          (case BoundReaderOpenNextResult h (r\<lparr>br_inner := False\<rparr>) (if br_inner r then rh_close h w1 else w1) of
             (s, exhausted, r, w) \<Rightarrow>
               if s \<noteq> ADBC_STATUS_OK then (PullFails (InternalAdbcStatusCodeToErrno s), r\<lparr>br_done := True\<rparr>, w)
               else if exhausted then (Drained, r\<lparr>br_done := True\<rparr>, w)
               else BoundReaderGetNextLoop h r w))"
  by pat_completeness auto

termination
  by (relation "measure (\<lambda>(h, r, w). pending r)") (auto dest: OpenNextResult_pending[OF sym])

declare BoundReaderGetNextLoop.simps [simp del]

definition BoundReaderGetNext :: "('f, 'b, 'w) reader_host \<Rightarrow> 'f bound_reader \<Rightarrow> 'w \<Rightarrow> 'b pull \<times> 'f bound_reader \<times> 'w" where
  "BoundReaderGetNext h r w = (if br_done r then (Drained, r, w) else BoundReaderGetNextLoop h r w)"

definition BoundReaderFree :: "('f, 'b, 'w) reader_host \<Rightarrow> 'f bound_reader \<Rightarrow> 'w \<Rightarrow> 'w" where
  "BoundReaderFree h r w = rh_reset h (if br_inner r then rh_close h w else w)"

text \<open>
  \<open>rh_reset\<close> resets and closes the statement and gives the reference back.  \<open>EagerRows\<close> is the loop of
  \<open>BoundReaderInit\<close>; its third component counts the rows of executions without a result set.
\<close>

function EagerRows ::
  "('f, 'b, 'w) reader_host \<Rightarrow> 'f bound_reader \<Rightarrow> int \<Rightarrow> 'w \<Rightarrow> status \<times> int \<times> 'f bound_reader \<times> 'w" where
  "EagerRows h r n w =
     (case BoundReaderExecuteNextRow h r w of (s, exhausted, nres, r', w') \<Rightarrow>
        if s \<noteq> ADBC_STATUS_OK \<or> exhausted then (s, n, r', w')
        else if nres > 0 then (case AcceptResult h r' w' of (s, r, w) \<Rightarrow> (s, n, r, w))
        else EagerRows h r' (case rh_row_count h w' of Some c \<Rightarrow> if c > 0 then n + c else n | None \<Rightarrow> n) w')"
  by pat_completeness auto

termination
  by (relation "measure (\<lambda>(h, r, n, w). pending r)") (auto dest: ExecuteNextRow_pending[OF sym])

declare EagerRows.simps [simp del]

datatype 'f bound_result = BoundFails status | BoundCount int | BoundStream "'f bound_reader"

text \<open>\<open>valid\<close>: the status of reading the schema of the bound stream.\<close>

definition bound_reader_init :: "'f stream_item list \<Rightarrow> 'f bound_reader" where
  "bound_reader_init items =
     \<lparr>br_params = items, br_batch = None, br_row = 0, br_params_done = False, br_schema = None, br_inner = False, br_done = False\<rparr>"

definition BoundReaderInit ::
  "('f, 'b, 'w) reader_host \<Rightarrow> status \<Rightarrow> 'f stream_item list \<Rightarrow> 'w \<Rightarrow> 'f bound_result \<times> 'w" where
  "BoundReaderInit h valid items w =
     (let w = rh_acquire h w;
          (s, n, r, w) = (if valid \<noteq> ADBC_STATUS_OK then (valid, 0, bound_reader_init items, w)
                          else EagerRows h (bound_reader_init items) 0 w)
      in if s \<noteq> ADBC_STATUS_OK then (BoundFails s, BoundReaderFree h r w)
         else case br_schema r of
                None \<Rightarrow> (BoundCount n, BoundReaderFree h r w)
              | Some _ \<Rightarrow> (BoundStream r, w))"
section \<open>Which row comes next\<close>

fun stream_param_rows :: "'f stream_item list \<Rightarrow> 'f cell list list" where
  "stream_param_rows [] = []"
| "stream_param_rows (Batch rows # items) = rows @ stream_param_rows items"
| "stream_param_rows (_ # items) = []"

fun stream_readable :: "'f stream_item list \<Rightarrow> bool" where
  "stream_readable [] \<longleftrightarrow> True"
| "stream_readable (Batch rows # items) \<longleftrightarrow> stream_readable items"
| "stream_readable (_ # items) \<longleftrightarrow> False"

definition rows_left :: "'f bound_reader \<Rightarrow> 'f cell list list" where
  "rows_left r = batch_rows r @ (if br_params_done r then [] else stream_param_rows (br_params r))"

definition readable :: "'f bound_reader \<Rightarrow> bool" where
  "readable r \<longleftrightarrow> br_params_done r \<or> stream_readable (br_params r)"

definition same_result :: "'f bound_reader \<Rightarrow> 'f bound_reader \<Rightarrow> bool" where
  "same_result r q \<longleftrightarrow> br_schema q = br_schema r \<and> br_inner q = br_inner r \<and> br_done q = br_done r"

lemma same_result_refl [simp]: "same_result r r"
  by (simp add: same_result_def)

lemma rows_left_update [simp]:
  "rows_left (r\<lparr>br_inner := b\<rparr>) = rows_left r" "rows_left (r\<lparr>br_schema := x\<rparr>) = rows_left r"
  "rows_left (r\<lparr>br_done := b\<rparr>) = rows_left r"
  by (simp_all add: rows_left_def batch_rows_def cong: option.case_cong)

lemma readable_update [simp]:
  "readable (r\<lparr>br_inner := b\<rparr>) = readable r" "readable (r\<lparr>br_schema := x\<rparr>) = readable r"
  "readable (r\<lparr>br_done := b\<rparr>) = readable r" "readable (r\<lparr>br_row := n\<rparr>) = readable r"
  by (simp_all add: readable_def)

lemma NextBatch_row:
  "stream_param_rows items = p # ps \<Longrightarrow> \<not> br_params_done r
   \<Longrightarrow> \<exists>q. NextBatch items r = (ADBC_STATUS_OK, False, q) \<and> batch_rows q \<noteq> [] \<and> rows_left q = p # ps
             \<and> readable q = stream_readable items \<and> same_result r q"
proof (induction items r rule: NextBatch.induct)
  case (2 rows items r)
  show ?case
  proof (cases "rows = []")
    case False
    with "2.prems" show ?thesis
      by (simp add: rows_left_def batch_rows_def readable_def same_result_def)
  qed (use 2 in simp)
qed simp_all

lemma NextBatch_none:
  assumes "stream_param_rows items = []" "br_batch r = None"
  shows "\<exists>q. NextBatch items r = (if stream_readable items then ADBC_STATUS_OK else ADBC_STATUS_INVALID_ARGUMENT, stream_readable items, q)
             \<and> same_result r q"
  using assms
  by (induction items r rule: NextBatch.induct) (auto simp: same_result_def)

lemma SeekRow_row:
  assumes "rows_left r = p # ps"
  shows "\<exists>q. SeekRow r = (ADBC_STATUS_OK, False, q) \<and> batch_rows q \<noteq> [] \<and> rows_left q = p # ps
             \<and> readable q = readable r \<and> same_result r q"
proof (cases "batch_rows r = []")
  case True
  then have "\<not> br_params_done r" "stream_param_rows (br_params r) = p # ps"
    using assms by (auto simp: rows_left_def split: if_splits)
  with NextBatch_row[of "br_params r" p ps "r\<lparr>br_batch := None\<rparr>"] True show ?thesis
    by (auto simp: SeekRow_def readable_def same_result_def)
qed (use assms in \<open>auto simp: SeekRow_def\<close>)

lemma SeekRow_none:
  assumes "rows_left r = []"
  shows "\<exists>q. SeekRow r = (if readable r then ADBC_STATUS_OK else ADBC_STATUS_INVALID_ARGUMENT, readable r, q) \<and> same_result r q"
proof -
  from assms have "batch_rows r = []" by (simp add: rows_left_def)
  moreover have "\<not> br_params_done r \<Longrightarrow> stream_param_rows (br_params r) = []"
    using assms by (simp add: rows_left_def)
  ultimately show ?thesis
    using NextBatch_none[of "br_params r" "r\<lparr>br_batch := None\<rparr>"]
    by (auto simp: SeekRow_def readable_def same_result_def)
qed

lemma batch_rows_next: "batch_rows (q\<lparr>br_row := br_row q + 1\<rparr>) = tl (batch_rows q)"
  by (cases "br_batch q") (simp_all add: batch_rows_def drop_Suc tl_drop)

lemma rows_left_next:
  assumes "batch_rows q \<noteq> []" "rows_left q = p # ps"
  shows "hd (batch_rows q) = p \<and> rows_left (q\<lparr>br_row := br_row q + 1\<rparr>) = ps"
proof -
  obtain y ys where y: "batch_rows q = y # ys" using assms(1) by (cases "batch_rows q") auto
  have "batch_rows (q\<lparr>br_row := br_row q + 1\<rparr>) = ys" using batch_rows_next[of q] y by simp
  with y assms(2) show ?thesis by (auto simp: rows_left_def split: if_splits)
qed

lemma ExecuteNextRow_row:
  assumes "rows_left r = p # ps" "rh_execute h p w = (s, n, w')"
  shows "\<exists>q. BoundReaderExecuteNextRow h r w = (s, False, n, q, w') \<and> rows_left q = ps \<and> readable q = readable r \<and> same_result r q"
proof -
  obtain q where q: "SeekRow r = (ADBC_STATUS_OK, False, q)" "batch_rows q \<noteq> []" "rows_left q = p # ps"
    "readable q = readable r" "same_result r q" using SeekRow_row[OF assms(1)] by blast
  from rows_left_next[OF q(2,3)] have "hd (batch_rows q) = p" "rows_left (q\<lparr>br_row := br_row q + 1\<rparr>) = ps" by auto
  with q assms(2) show ?thesis
    by (auto simp: BoundReaderExecuteNextRow_def readable_def same_result_def)
qed

lemma ExecuteNextRow_none:
  assumes "rows_left r = []"
  shows "\<exists>q. BoundReaderExecuteNextRow h r w
               = (if readable r then ADBC_STATUS_OK else ADBC_STATUS_INVALID_ARGUMENT, readable r, 0, q, w) \<and> same_result r q"
  using SeekRow_none[OF assms] by (auto simp: BoundReaderExecuteNextRow_def)

section \<open>A server behind the handle, and the stream it should give\<close>

text \<open>Everything the driver answers about one execution, in the order the code asks.\<close>

record 'b reply =
  rp_status :: status
  rp_cols :: nat
  rp_count :: "int option"
  rp_open :: status
  rp_schema :: "result_schema option"
  rp_batches :: "'b list"
  rp_end :: "errno option"

record ('d, 'f, 'b) cursor =
  cu_d :: 'd
  cu_log :: "'f cell list list"
  cu_reply :: "'b reply"

definition cursor_host :: "('f cell list \<Rightarrow> 'd \<Rightarrow> 'b reply \<times> 'd) \<Rightarrow> ('f, 'b, ('d, 'f, 'b) cursor) reader_host" where
  "cursor_host answer =
     \<lparr>rh_execute = (\<lambda>p w. case answer p (cu_d w) of (rep, d) \<Rightarrow>
        (rp_status rep, rp_cols rep, w\<lparr>cu_d := d, cu_log := cu_log w @ [p], cu_reply := rep\<rparr>)),
      rh_row_count = (\<lambda>w. rp_count (cu_reply w)),
      rh_open = (\<lambda>w. (rp_open (cu_reply w), w)),
      rh_schema = (\<lambda>w. (rp_schema (cu_reply w), w)),
      rh_pull = (\<lambda>w. case rp_batches (cu_reply w) of
                   b # bs \<Rightarrow> (Pulled b, w\<lparr>cu_reply := (cu_reply w)\<lparr>rp_batches := bs\<rparr>\<rparr>)
                 | [] \<Rightarrow> (case rp_end (cu_reply w) of None \<Rightarrow> (Drained, w) | Some e \<Rightarrow> (PullFails e, w))),
      rh_close = (\<lambda>w. w), rh_acquire = (\<lambda>w. w), rh_reset = (\<lambda>w. w)\<rparr>"

text \<open>
  What the stream should hold: the batches of the result sets in the order of the parameter rows, how it
  ends (\<^const>\<open>None\<close>: end of stream), and the rows that are executed for it.
\<close>

fun expected ::
  "('f cell list \<Rightarrow> 'd \<Rightarrow> 'b reply \<times> 'd) \<Rightarrow> result_schema option \<Rightarrow> bool \<Rightarrow> 'f cell list list \<Rightarrow> 'd
   \<Rightarrow> 'b list \<times> errno option \<times> 'f cell list list" where
  "expected answer sch ok [] d = ([], if ok then None else Some EINVAL, [])"
| "expected answer sch ok (p # ps) d =
     (case answer p d of (rep, d') \<Rightarrow>
        if rp_status rep \<noteq> ADBC_STATUS_OK then ([], Some (InternalAdbcStatusCodeToErrno (rp_status rep)), [p])
        else if rp_cols rep = 0 then (case expected answer sch ok ps d' of (bs, e, log) \<Rightarrow> (bs, e, p # log))
        else if rp_open rep \<noteq> ADBC_STATUS_OK then ([], Some (InternalAdbcStatusCodeToErrno (rp_open rep)), [p])
        else case rp_schema rep of
               None \<Rightarrow> ([], Some EIO, [p])
             | Some b \<Rightarrow>
                 if case sch of None \<Rightarrow> True | Some a \<Rightarrow> ResultSchemaMatches a b
                 then case rp_end rep of
                        Some e \<Rightarrow> (rp_batches rep, Some e, [p])
                      | None \<Rightarrow> (case expected answer (Some (case sch of None \<Rightarrow> b | Some a \<Rightarrow> a)) ok ps d' of
                                  (bs, e, log) \<Rightarrow> (rp_batches rep @ bs, e, p # log))
                 else ([], Some EINVAL, [p]))"

fun BoundReaderDrain ::
  "nat \<Rightarrow> ('f, 'b, 'w) reader_host \<Rightarrow> 'f bound_reader \<Rightarrow> 'w \<Rightarrow> 'b list \<times> 'b pull option \<times> 'f bound_reader \<times> 'w" where
  "BoundReaderDrain 0 h r w = ([], None, r, w)"
| "BoundReaderDrain (Suc n) h r w =
     (case BoundReaderGetNext h r w of
        (Pulled b, r, w) \<Rightarrow> (case BoundReaderDrain n h r w of (bs, x, r, w) \<Rightarrow> (b # bs, x, r, w))
      | (x, r, w) \<Rightarrow> ([], Some x, r, w))"

definition ending :: "errno option \<Rightarrow> 'b pull" where
  "ending e = (case e of None \<Rightarrow> Drained | Some e \<Rightarrow> PullFails e)"
section \<open>The stream is the expected one\<close>

text \<open>What is still to come from a reader, and what of it is already executed for.\<close>

definition upcoming where
  "upcoming answer r w = expected answer (br_schema r) (readable r) (rows_left r) (cu_d w)"

definition prepend :: "'b list \<Rightarrow> errno option \<Rightarrow> 'c list \<Rightarrow> 'b list \<times> errno option \<times> 'c list \<Rightarrow> 'b list \<times> errno option \<times> 'c list" where
  "prepend bs e pre rest =
     (case e of Some e \<Rightarrow> (bs, Some e, pre) | None \<Rightarrow> (bs @ fst rest, fst (snd rest), pre @ snd (snd rest)))"

definition still where
  "still answer r w =
     (if br_inner r then prepend (rp_batches (cu_reply w)) (rp_end (cu_reply w)) [] (upcoming answer r w) else upcoming answer r w)"

lemma upcoming_same:
  "same_result r q \<Longrightarrow> rows_left q = ps \<Longrightarrow> readable q = readable r
   \<Longrightarrow> upcoming answer q w = expected answer (br_schema r) (readable r) ps (cu_d w)"
  by (simp add: upcoming_def same_result_def)

lemma upcoming_inner [simp]: "upcoming answer (r\<lparr>br_inner := b\<rparr>) w = upcoming answer r w"
  by (simp add: upcoming_def)

text \<open>What a call that opens the next result set must do, in terms of the stream to come.\<close>

definition opens where
  "opens answer r w s exhausted q w' pre \<longleftrightarrow>
     cu_log w' = cu_log w @ pre \<and> br_done q = br_done r \<and>
     upcoming answer r w =
       (if s \<noteq> ADBC_STATUS_OK then ([], Some (InternalAdbcStatusCodeToErrno s), pre)
        else if exhausted then ([], None, pre)
        else prepend (rp_batches (cu_reply w')) (rp_end (cu_reply w')) pre (upcoming answer q w')) \<and>
     (s = ADBC_STATUS_OK \<longrightarrow> br_inner q = (\<not> exhausted)) \<and>
     (s = ADBC_STATUS_OK \<longrightarrow> (br_schema q = None \<longleftrightarrow> exhausted \<and> br_schema r = None))"

lemma AcceptResult_opens:
  assumes left: "rows_left r = p # ps" and ans: "answer p (cu_d w) = (rep, d)"
    and rep: "rp_status rep = ADBC_STATUS_OK" "rp_cols rep \<noteq> 0"
    and q: "rows_left q = ps" "readable q = readable r" "same_result r q"
    and acc: "AcceptResult (cursor_host answer) q (w\<lparr>cu_d := d, cu_log := cu_log w @ [p], cu_reply := rep\<rparr>) = (s, q', w')"
  shows "opens answer r w s False q' w' [p]"
proof -
  have up: "upcoming answer (q\<lparr>br_schema := Some b\<rparr>) v = expected answer (Some b) (readable r) ps (cu_d v)" for b v
    using q by (simp add: upcoming_def)
  have up2: "upcoming answer (q\<lparr>br_inner := True, br_schema := Some b\<rparr>) v = expected answer (Some b) (readable r) ps (cu_d v)" for b v
    using q by (simp add: upcoming_def)
  have same: "br_schema q = br_schema r" "br_inner q = br_inner r" "br_done q = br_done r"
    using q(3) by (simp_all add: same_result_def)
  show ?thesis
  proof (cases "rp_open rep = ADBC_STATUS_OK")
    case False
    with acc show ?thesis using left ans rep same
      by (simp add: AcceptResult_def cursor_host_def opens_def upcoming_def) auto
  next
    case open_ok: True
    show ?thesis
    proof (cases "rp_schema rep")
      case None
      with acc open_ok show ?thesis using left ans rep same
        by (simp add: AcceptResult_def cursor_host_def opens_def upcoming_def Let_def split: option.splits) auto
    next
      case (Some b)
      show ?thesis
      proof (cases "br_schema r")
        case None
        with acc open_ok Some have "s = ADBC_STATUS_OK" "q' = q\<lparr>br_inner := True, br_schema := Some b\<rparr>"
          "w' = w\<lparr>cu_d := d, cu_log := cu_log w @ [p], cu_reply := rep\<rparr>"
          using same by (auto simp: AcceptResult_def cursor_host_def Let_def)
        with None Some open_ok show ?thesis using left ans rep same
          by (simp add: opens_def up2 prepend_def) (simp add: upcoming_def split: option.splits prod.splits)
      next
        case (Some a)
        note sch = \<open>rp_schema rep = Some b\<close>
        have w': "w' = w\<lparr>cu_d := d, cu_log := cu_log w @ [p], cu_reply := rep\<rparr>" "q' = q\<lparr>br_inner := True\<rparr>"
          and s: "s = (if ResultSchemaMatches a b then ADBC_STATUS_OK else ADBC_STATUS_INVALID_STATE)"
          using acc open_ok Some sch same by (auto simp: AcceptResult_def cursor_host_def Let_def)
        have "upcoming answer q' w' = expected answer (Some a) (readable r) ps d"
          using q same Some by (simp add: w' upcoming_def[of _ q])
        with Some sch w' s open_ok show ?thesis using left ans rep same
          by (simp add: opens_def prepend_def) (simp add: upcoming_def split: option.splits prod.splits)
      qed
    qed
  qed
qed
lemma execute_cursor:
  "answer p (cu_d w) = (rep, d)
   \<Longrightarrow> rh_execute (cursor_host answer) p w = (rp_status rep, rp_cols rep, w\<lparr>cu_d := d, cu_log := cu_log w @ [p], cu_reply := rep\<rparr>)"
  by (simp add: cursor_host_def)

lemma opens_skip:
  assumes "rows_left r = p # ps" "answer p (cu_d w) = (rep, d)" "rp_status rep = ADBC_STATUS_OK" "rp_cols rep = 0"
    and q: "rows_left q = ps" "readable q = readable r" "same_result r q"
    and rest: "opens answer q (w\<lparr>cu_d := d, cu_log := cu_log w @ [p], cu_reply := rep\<rparr>) s e q' w' pre"
  shows "opens answer r w s e q' w' (p # pre)"
proof -
  have "upcoming answer r w = (case upcoming answer q (w\<lparr>cu_d := d, cu_log := cu_log w @ [p], cu_reply := rep\<rparr>) of
          (bs, e, log) \<Rightarrow> (bs, e, p # log))"
    using assms by (simp add: upcoming_def same_result_def)
  then show ?thesis using rest q(3)
    by (cases "rp_end (cu_reply w')") (simp_all add: opens_def same_result_def prepend_def)
qed

lemma OpenNextResult_opens:
  "\<not> br_inner r \<Longrightarrow> BoundReaderOpenNextResult (cursor_host answer) r w = (s, e, q, w') \<Longrightarrow> \<exists>pre. opens answer r w s e q w' pre"
proof (induction "cursor_host answer" r w rule: BoundReaderOpenNextResult.induct)
  case (1 r w)
  note eq = "1.prems"(2)[unfolded BoundReaderOpenNextResult.simps[of _ r w]]
  show ?case
  proof (cases "rows_left r")
    case Nil
    then obtain q1 where q1: "BoundReaderExecuteNextRow (cursor_host answer) r w
        = (if readable r then ADBC_STATUS_OK else ADBC_STATUS_INVALID_ARGUMENT, readable r, 0, q1, w)" "same_result r q1"
      using ExecuteNextRow_none[OF Nil, of "cursor_host answer" w] by blast
    have "s = (if readable r then ADBC_STATUS_OK else ADBC_STATUS_INVALID_ARGUMENT)" "e = readable r" "q = q1" "w' = w"
      using eq[unfolded q1(1)] by (cases "readable r"; simp)+
    with q1(2) Nil "1.prems"(1) have "opens answer r w s e q w' []"
      by (auto simp: opens_def same_result_def upcoming_def)
    then show ?thesis by blast
  next
    case (Cons p ps)
    obtain rep d where ans: "answer p (cu_d w) = (rep, d)" by (cases "answer p (cu_d w)")
    let ?w = "w\<lparr>cu_d := d, cu_log := cu_log w @ [p], cu_reply := rep\<rparr>"
    obtain q1 where ex: "BoundReaderExecuteNextRow (cursor_host answer) r w = (rp_status rep, False, rp_cols rep, q1, ?w)"
      and q1: "rows_left q1 = ps" "readable q1 = readable r" "same_result r q1"
      using ExecuteNextRow_row[OF Cons execute_cursor[of answer p w, OF ans]] by blast
    consider "rp_status rep \<noteq> ADBC_STATUS_OK" | "rp_status rep = ADBC_STATUS_OK" "rp_cols rep = 0"
      | "rp_status rep = ADBC_STATUS_OK" "rp_cols rep \<noteq> 0" by blast
    then show ?thesis
    proof cases
      case 1
      with eq ex have "s = rp_status rep" "e = False" "q = q1" "w' = ?w" by auto
      with 1 q1(3) Cons ans have "opens answer r w s e q w' [p]"
        by (auto simp: opens_def same_result_def upcoming_def)
      then show ?thesis by blast
    next
      case 2
      have "\<not> br_inner q1" using q1(3) "1.prems"(1) by (simp add: same_result_def)
      moreover have "BoundReaderOpenNextResult (cursor_host answer) q1 ?w = (s, e, q, w')" using eq ex 2 by simp
      ultimately obtain pre where "opens answer q1 ?w s e q w' pre"
        using "1.hyps"[OF ex[symmetric] refl refl refl] 2 by auto
      from opens_skip[OF Cons ans 2 q1 this] show ?thesis by blast
    next
      case 3
      obtain s1 q2 w2 where acc: "AcceptResult (cursor_host answer) q1 ?w = (s1, q2, w2)" by (cases "AcceptResult (cursor_host answer) q1 ?w")
      with eq ex 3 have "s = s1" "e = False" "q = q2" "w' = w2" by auto
      with AcceptResult_opens[OF Cons ans 3 q1 acc] show ?thesis by blast
    qed
  qed
qed

text \<open>The loop of \<open>BoundReaderInit\<close> does what \<open>BoundReaderOpenNextResult\<close> does, and counts.\<close>

lemma EagerRows_is_OpenNextResult:
  "EagerRows h r n w = (s, n', q, w') \<Longrightarrow> \<exists>e. BoundReaderOpenNextResult h r w = (s, e, q, w')"
proof (induction h r n w rule: EagerRows.induct)
  case (1 h r n w)
  obtain s1 e1 n1 r1 w1 where x: "BoundReaderExecuteNextRow h r w = (s1, e1, n1, r1, w1)" by (cases "BoundReaderExecuteNextRow h r w")
  note eq = "1.prems"[unfolded EagerRows.simps[of h r n w]]
  show ?case
  proof (cases "s1 = ADBC_STATUS_OK \<and> \<not> e1 \<and> n1 = 0")
    case True
    then show ?thesis using "1.IH"[OF x[symmetric] refl refl refl] eq x
      by (subst BoundReaderOpenNextResult.simps) simp
  next
    case False
    then show ?thesis using eq x
      by (subst BoundReaderOpenNextResult.simps) (auto split: prod.splits if_splits)
  qed
qed

fun row_counts :: "('f cell list \<Rightarrow> 'd \<Rightarrow> 'b reply \<times> 'd) \<Rightarrow> 'f cell list list \<Rightarrow> 'd \<Rightarrow> int" where
  "row_counts answer [] d = 0"
| "row_counts answer (p # ps) d =
     (case answer p d of (rep, d) \<Rightarrow> (case rp_count rep of Some c \<Rightarrow> max 0 c | None \<Rightarrow> 0) + row_counts answer ps d)"

lemma EagerRows_counts:
  "EagerRows (cursor_host answer) r n w = (ADBC_STATUS_OK, n', q, w') \<Longrightarrow> \<not> br_inner r \<Longrightarrow> \<not> br_inner q
   \<Longrightarrow> n' = n + row_counts answer (rows_left r) (cu_d w)"
proof (induction "cursor_host answer" r n w rule: EagerRows.induct)
  case (1 r n w)
  note eq = "1.prems"(1)[unfolded EagerRows.simps[of _ r n w]]
  show ?case
  proof (cases "rows_left r")
    case Nil
    from ExecuteNextRow_none[OF Nil, of "cursor_host answer" w] obtain q1 where
      "BoundReaderExecuteNextRow (cursor_host answer) r w
        = (if readable r then ADBC_STATUS_OK else ADBC_STATUS_INVALID_ARGUMENT, readable r, 0, q1, w)" by blast
    from eq[unfolded this] Nil show ?thesis by (cases "readable r") simp_all
  next
    case (Cons p ps)
    obtain rep d where ans: "answer p (cu_d w) = (rep, d)" by (cases "answer p (cu_d w)")
    let ?w = "w\<lparr>cu_d := d, cu_log := cu_log w @ [p], cu_reply := rep\<rparr>"
    obtain q1 where ex: "BoundReaderExecuteNextRow (cursor_host answer) r w = (rp_status rep, False, rp_cols rep, q1, ?w)"
      and q1: "rows_left q1 = ps" "same_result r q1"
      using ExecuteNextRow_row[OF Cons execute_cursor[of answer p w, OF ans]] by blast
    have ok: "rp_status rep = ADBC_STATUS_OK" using eq ex by (auto split: if_splits)
    show ?thesis
    proof (cases "rp_cols rep = 0")
      case True
      have "\<not> br_inner q1" using q1(2) "1.prems"(2) by (simp add: same_result_def)
      then have "n' = (case rp_count rep of Some c \<Rightarrow> if c > 0 then n + c else n | None \<Rightarrow> n) + row_counts answer ps d"
        using "1.hyps"[OF ex[symmetric] refl refl refl] eq ex ok True "1.prems"(3) q1(1)
        by (auto simp: cursor_host_def)
      then show ?thesis using Cons ans by (auto split: option.splits)
    next
      case False
      then have "AcceptResult (cursor_host answer) q1 ?w = (ADBC_STATUS_OK, q, w')" using eq ex ok by (auto split: prod.splits)
      then have "br_inner q" by (auto simp: AcceptResult_def cursor_host_def Let_def split: option.splits if_splits)
      then show ?thesis using "1.prems"(3) by simp
    qed
  qed
qed
text \<open>One call of \<open>get_next\<close> takes the head off what is still to come.\<close>

definition pulls where
  "pulls answer r w x q w' pre \<longleftrightarrow>
     cu_log w' = cu_log w @ pre \<and>
     (case x of
        Pulled b \<Rightarrow> br_done q = br_done r \<and> still answer r w = prepend [b] None pre (still answer q w')
      | Drained \<Rightarrow> still answer r w = ([], None, pre)
      | PullFails e \<Rightarrow> still answer r w = ([], Some e, pre))"

lemma prepend_prepend:
  "prepend as None pre (prepend bs e pre' rest) = prepend (as @ bs) e (pre @ pre') rest"
  by (cases e) (simp_all add: prepend_def)

lemma still_opened:
  assumes "opens answer r v s False q w' pre" "s = ADBC_STATUS_OK"
  shows "upcoming answer r v = prepend [] None pre (still answer q w')"
  using assms by (simp add: opens_def still_def prepend_prepend)

lemma pulls_later:
  assumes rest: "pulls answer q v x q' w' pre'" and log: "cu_log v = cu_log w @ pre"
    and st: "still answer r w = prepend [] None pre (still answer q v)" and dn: "br_done q = br_done r"
  shows "pulls answer r w x q' w' (pre @ pre')"
proof (cases x)
  case (Pulled b)
  with assms show ?thesis by (simp add: pulls_def prepend_prepend)
qed (use assms in \<open>simp_all add: pulls_def prepend_def\<close>)

lemma pull_cursor:
  "rh_pull (cursor_host answer) w =
     (case rp_batches (cu_reply w) of
        b # bs \<Rightarrow> (Pulled b, w\<lparr>cu_reply := (cu_reply w)\<lparr>rp_batches := bs\<rparr>\<rparr>)
      | [] \<Rightarrow> (case rp_end (cu_reply w) of None \<Rightarrow> (Drained, w) | Some e \<Rightarrow> (PullFails e, w)))"
  "rh_close (cursor_host answer) w = w" "rh_acquire (cursor_host answer) w = w" "rh_reset (cursor_host answer) w = w"
  by (simp_all add: cursor_host_def)

lemma close_cursor [simp]: "(if b then rh_close (cursor_host answer) w else w) = w"
  by (simp add: pull_cursor)

lemma upcoming_cong: "cu_d v = cu_d w \<Longrightarrow> upcoming answer r v = upcoming answer r w"
  by (simp add: upcoming_def)

lemma GetNextLoop_pulls:
  "BoundReaderGetNextLoop (cursor_host answer) r w = (x, q, w') \<Longrightarrow> \<exists>pre. pulls answer r w x q w' pre"
proof (induction "cursor_host answer" r w rule: BoundReaderGetNextLoop.induct)
  case (1 r w)
  note eq = "1.prems"[unfolded BoundReaderGetNextLoop.simps[of _ r w]]
  have open_next: ?case if drained: "(if br_inner r then rh_pull (cursor_host answer) w else (Drained, w)) = (Drained, w)"
    and st: "still answer r w = upcoming answer (r\<lparr>br_inner := False\<rparr>) w"
  proof -
    let ?r = "r\<lparr>br_inner := False\<rparr>"
    obtain s e r1 w1 where nxt: "BoundReaderOpenNextResult (cursor_host answer) ?r w = (s, e, r1, w1)"
      by (cases "BoundReaderOpenNextResult (cursor_host answer) ?r w")
    then obtain pre where pre: "opens answer ?r w s e r1 w1 pre" using OpenNextResult_opens[of ?r answer w s e r1 w1] by auto
    note eq = eq[unfolded drained, simplified, unfolded pull_cursor if_cancel nxt, simplified]
    consider "s \<noteq> ADBC_STATUS_OK" | "s = ADBC_STATUS_OK" e | "s = ADBC_STATUS_OK" "\<not> e" by blast
    then show ?thesis
    proof cases
      case 3
      have "BoundReaderGetNextLoop (cursor_host answer) r1 w1 = (x, q, w')" using eq 3 by simp
      then obtain pre' where "pulls answer r1 w1 x q w' pre'"
        using "1.hyps"[OF drained[symmetric] refl _ refl refl, of s e r1 w1] nxt 3 by (auto simp: pull_cursor)
      moreover have "cu_log w1 = cu_log w @ pre" "br_done r1 = br_done r" using pre by (simp_all add: opens_def)
      moreover have "still answer r w = prepend [] None pre (still answer r1 w1)"
        using still_opened[of answer ?r w s r1 w1 pre] pre 3 st by simp
      ultimately show ?thesis using pulls_later[of answer r1 w1 x q w' pre' w pre r] by blast
    qed (use eq pre st in \<open>auto simp: pulls_def opens_def\<close>)
  qed
  show ?case
  proof (cases "br_inner r")
    case False
    then show ?thesis by (intro open_next) (simp_all add: still_def)
  next
    case inner: True
    show ?thesis
    proof (cases "rp_batches (cu_reply w)")
      case (Cons b bs)
      with eq inner have "x = Pulled b" "q = r" "w' = w\<lparr>cu_reply := (cu_reply w)\<lparr>rp_batches := bs\<rparr>\<rparr>"
        by (auto simp: pull_cursor)
      with inner Cons have "pulls answer r w x q w' []"
        by (cases "rp_end (cu_reply w)") (simp_all add: pulls_def still_def prepend_def upcoming_def)
      then show ?thesis by blast
    next
      case Nil
      show ?thesis
      proof (cases "rp_end (cu_reply w)")
        case None
        with inner Nil show ?thesis by (intro open_next) (simp_all add: pull_cursor still_def prepend_def)
      next
        case (Some e)
        with eq inner Nil have "x = PullFails e" "w' = w" by (auto simp: pull_cursor)
        with inner Nil Some have "pulls answer r w x q w' []" by (simp add: pulls_def still_def prepend_def)
        then show ?thesis by blast
      qed
    qed
  qed
qed

lemma BoundReaderDrain_still:
  "\<not> br_done r \<Longrightarrow> n > length (fst (still answer r w))
   \<Longrightarrow> \<exists>q w'. BoundReaderDrain n (cursor_host answer) r w
                 = (fst (still answer r w), Some (ending (fst (snd (still answer r w)))), q, w')
             \<and> cu_log w' = cu_log w @ snd (snd (still answer r w))"
proof (induction n arbitrary: r w)
  case (Suc n)
  obtain x q w' where get: "BoundReaderGetNextLoop (cursor_host answer) r w = (x, q, w')" by (cases "BoundReaderGetNextLoop (cursor_host answer) r w")
  then obtain pre where pre: "pulls answer r w x q w' pre" using GetNextLoop_pulls by blast
  have nxt: "BoundReaderGetNext (cursor_host answer) r w = (x, q, w')" using get Suc.prems by (simp add: BoundReaderGetNext_def)
  show ?case
  proof (cases x)
    case (Pulled b)
    with pre have "still answer r w = prepend [b] None pre (still answer q w')" "\<not> br_done q" "cu_log w' = cu_log w @ pre"
      using Suc.prems by (simp_all add: pulls_def)
    then show ?thesis using Suc.IH[of q w'] Suc.prems(2) nxt Pulled
      by (auto simp: prepend_def)
  qed (use pre nxt in \<open>auto simp: pulls_def ending_def\<close>)
qed simp
text \<open>An open result set is read to its end before another row is executed.\<close>

lemma BoundReaderGetNext_lazy:
  "\<not> br_done r \<Longrightarrow> br_inner r \<Longrightarrow> rp_batches (cu_reply w) = b # bs
   \<Longrightarrow> BoundReaderGetNext (cursor_host answer) r w = (Pulled b, r, w\<lparr>cu_reply := (cu_reply w)\<lparr>rp_batches := bs\<rparr>\<rparr>)"
  by (simp add: BoundReaderGetNext_def BoundReaderGetNextLoop.simps pull_cursor)

lemma BoundReaderInit_expected:
  fixes answer :: "'f cell list \<Rightarrow> 'd \<Rightarrow> 'b reply \<times> 'd" and w :: "('d, 'f, 'b) cursor"
  assumes "BoundReaderInit (cursor_host answer) ADBC_STATUS_OK items w = (res, w')"
    and "expected answer None (stream_readable items) (stream_param_rows items) (cu_d w) = (bs, e, log)"
  shows "case res of
           BoundFails s \<Rightarrow> bs = [] \<and> e = Some (InternalAdbcStatusCodeToErrno s) \<and> cu_log w' = cu_log w @ log
         | BoundCount c \<Rightarrow> bs = [] \<and> e = None \<and> cu_log w' = cu_log w @ log \<and> c = row_counts answer (stream_param_rows items) (cu_d w)
         | BoundStream r \<Rightarrow> \<not> br_done r \<and> (\<exists>pre. cu_log w' = cu_log w @ pre \<and> prepend [] None pre (still answer r w') = (bs, e, log))"
proof -
  let ?h = "cursor_host answer" and ?r = "bound_reader_init items :: 'f bound_reader"
  obtain s n q w1 where eager: "EagerRows ?h ?r 0 w = (s, n, q, w1)" by (cases "EagerRows ?h ?r 0 w")
  obtain x where op: "BoundReaderOpenNextResult ?h ?r w = (s, x, q, w1)" using EagerRows_is_OpenNextResult[OF eager] by (elim exE)
  moreover have r0: "\<not> br_inner ?r" "\<not> br_done ?r" "br_schema ?r = None" "upcoming answer ?r w = (bs, e, log)"
    "rows_left ?r = stream_param_rows items"
    using assms(2) by (simp_all add: bound_reader_init_def upcoming_def rows_left_def readable_def batch_rows_def)
  ultimately obtain pre where pre: "opens answer ?r w s x q w1 pre" using OpenNextResult_opens[of ?r answer w s x q w1] by blast
  have init: "BoundReaderInit ?h ADBC_STATUS_OK items w =
     (if s \<noteq> ADBC_STATUS_OK then (BoundFails s, w1)
      else case br_schema q of None \<Rightarrow> (BoundCount n, w1) | Some _ \<Rightarrow> (BoundStream q, w1))"
    using eager by (simp add: BoundReaderInit_def BoundReaderFree_def pull_cursor split: option.splits)
  consider "s \<noteq> ADBC_STATUS_OK" | "s = ADBC_STATUS_OK" x | "s = ADBC_STATUS_OK" "\<not> x" by blast
  then show ?thesis
  proof cases
    case 1
    with init assms(1) pre r0(4) show ?thesis by (auto simp: opens_def)
  next
    case 2
    then have "br_schema q = None" "\<not> br_inner q" using pre r0(3) by (auto simp: opens_def)
    moreover have "n = row_counts answer (stream_param_rows items) (cu_d w)"
      using EagerRows_counts[of answer ?r 0 w n q w1] eager 2 r0 \<open>\<not> br_inner q\<close> by simp
    ultimately show ?thesis using init assms(1) pre r0(4) 2 by (auto simp: opens_def)
  next
    case 3
    then have "br_schema q \<noteq> None" "\<not> br_done q" "cu_log w1 = cu_log w @ pre" using pre r0 by (auto simp: opens_def)
    moreover have "prepend [] None pre (still answer q w1) = (bs, e, log)"
      using still_opened[of answer ?r w s q w1 pre] pre 3 r0(4) by simp
    ultimately show ?thesis using init assms(1) 3 by auto
  qed
qed

text \<open>
  A server with one batch per result set, numbered in the order of the executes, and no result set for
  one of the rows.
\<close>

definition bound_demo :: "unit cell list \<Rightarrow> nat \<Rightarrow> nat reply \<times> nat" where
  "bound_demo p k =
     (\<lparr>rp_status = ADBC_STATUS_OK, rp_cols = (if p = [CText ''none''] then 0 else 1), rp_count = Some 0, rp_open = ADBC_STATUS_OK,
       rp_schema = Some [(''x'', Some ''u'')], rp_batches = [k], rp_end = None\<rparr>, Suc k)"

definition bound_demo_items :: "unit stream_item list" where
  "bound_demo_items = [Batch [[CText ''a''], [CText ''none'']], Batch [], Batch [[CText ''b'']]]"

definition bound_demo_start :: "(nat, unit, nat) cursor" where
  "bound_demo_start = \<lparr>cu_d = 0, cu_log = [], cu_reply = fst (bound_demo [] 0)\<rparr>"

lemma bound_demo_expected:
  "expected bound_demo None (stream_readable bound_demo_items) (stream_param_rows bound_demo_items) (cu_d bound_demo_start)
   = ([0, 2], None, [[CText ''a''], [CText ''none''], [CText ''b'']])"
  by (simp add: bound_demo_items_def bound_demo_start_def bound_demo_def ResultSchemaMatches_def)


end
